(* ===== verification/Arctic_Base.thy ===== *)
theory Arctic_Base
  imports Main "HOL-Library.Word" "HOL-Library.Monad_Syntax"
begin

text \<open>
  The prelude of the development: the names of the C integer types, the flat physical memory the
  kernel addresses with raw pointers, little-endian loads and stores of the packed structures it
  reads, the counting loop \<open>for (uint32_t i = lo; i < hi; i++)\<close>, and the lemmas on all of them
  that the component theories share. Proof automation is collected in the theorem collections
  \<open>mem_simps\<close> (loads after stores) and \<open>nat_of_word\<close> (word comparisons as comparisons of naturals).
\<close>

unbundle bit_operations_syntax

named_theorems mem_simps \<open>loads after stores\<close>
named_theorems nat_of_word \<open>word order and arithmetic, read as natural numbers\<close>

type_synonym u8 = "8 word"
type_synonym u16 = "16 word"
type_synonym u32 = "32 word"
type_synonym u64 = "64 word"

text \<open>Physical memory: one byte per 32-bit address; address arithmetic wraps as on the machine.\<close>

type_synonym mem = "u32 \<Rightarrow> u8"

section \<open>Little-endian loads and stores\<close>

definition read_u16 :: "mem \<Rightarrow> u32 \<Rightarrow> u16" where
  "read_u16 m a = ucast (m a) OR push_bit 8 (ucast (m (a + 1)))"

definition read_u32 :: "mem \<Rightarrow> u32 \<Rightarrow> u32" where
  "read_u32 m a = ucast (m a) OR push_bit 8 (ucast (m (a + 1)))
     OR push_bit 16 (ucast (m (a + 2))) OR push_bit 24 (ucast (m (a + 3)))"

definition read_u64 :: "mem \<Rightarrow> u32 \<Rightarrow> u64" where
  "read_u64 m a = ucast (read_u32 m a) OR push_bit 32 (ucast (read_u32 m (a + 4)))"

definition write_u32 :: "mem \<Rightarrow> u32 \<Rightarrow> u32 \<Rightarrow> mem" where
  "write_u32 m a v = m(a := ucast v, a + 1 := ucast (drop_bit 8 v),
     a + 2 := ucast (drop_bit 16 v), a + 3 := ucast (drop_bit 24 v))"

section \<open>Counting loops\<close>

text \<open>\<open>for (uint32_t i = lo; i < hi; i++) s = body(i, s);\<close>\<close>

function for_u32 :: "u32 \<Rightarrow> u32 \<Rightarrow> (u32 \<Rightarrow> 's \<Rightarrow> 's) \<Rightarrow> 's \<Rightarrow> 's" where
  "for_u32 lo hi body s = (if lo < hi then for_u32 (lo + 1) hi body (body lo s) else s)"
  by pat_completeness auto
termination
proof (relation "measure (\<lambda>(lo, hi, _, _). unat hi - unat lo)", goal_cases)
  case 1
  show ?case by simp
next
  case (2 lo hi body s)
  then have "unat lo < unat hi" by (simp add: word_less_nat_alt)
  moreover have "unat hi < 2 ^ 32" using unsigned_less [of hi] by simp
  ultimately show ?case by (simp add: unat_word_ariths)
qed

declare for_u32.simps [simp del]

text \<open>
  A loop that returns from its body at the first index that satisfies a test: \<open>Some (Some i)\<close> is that
  index, \<open>Some None\<close> a loop that runs to its end, \<open>None\<close> a test that does not return.
\<close>

function search_u32 :: "u32 \<Rightarrow> u32 \<Rightarrow> (u32 \<Rightarrow> bool option) \<Rightarrow> u32 option option" where
  "search_u32 lo hi test =
     (if lo < hi then do { b \<leftarrow> test lo; if b then Some (Some lo) else search_u32 (lo + 1) hi test }
      else Some None)"
  by pat_completeness auto
termination
proof (relation "measure (\<lambda>(lo, hi, _). unat hi - unat lo)", goal_cases)
  case 1
  show ?case by simp
next
  case (2 lo hi test b)
  then have "unat lo < unat hi" by (simp add: word_less_nat_alt)
  moreover have "unat hi < 2 ^ 32" using unsigned_less [of hi] by simp
  ultimately show ?case by (simp add: unat_word_ariths)
qed

declare search_u32.simps [simp del]

text \<open>
  The general counting loop: the body may return from the function (\<open>Inl\<close>), go on to the next index
  (\<open>Inr\<close>), or not return at all (\<open>None\<close>).
\<close>

function loop_u32 :: "u32 \<Rightarrow> u32 \<Rightarrow> (u32 \<Rightarrow> 's \<Rightarrow> ('r + 's) option) \<Rightarrow> 's \<Rightarrow> ('r + 's) option" where
  "loop_u32 lo hi body s =
     (if lo < hi then
        case body lo s of None \<Rightarrow> None | Some (Inl r) \<Rightarrow> Some (Inl r) | Some (Inr t) \<Rightarrow> loop_u32 (lo + 1) hi body t
      else Some (Inr s))"
  by pat_completeness auto
termination
proof (relation "measure (\<lambda>(lo, hi, _, _). unat hi - unat lo)", goal_cases)
  case 1
  show ?case by simp
next
  case (2 lo hi body s)
  then have "unat lo < unat hi" by (simp add: word_less_nat_alt)
  moreover have "unat hi < 2 ^ 32" using unsigned_less [of hi] by simp
  ultimately show ?case by (simp add: unat_word_ariths)
qed

declare loop_u32.simps [simp del]

text \<open>\<open>for (int i = lo; i < hi; i++) s = body(i, s);\<close> on bounds that do not overflow an \<open>int\<close>.\<close>

definition for_int :: "int \<Rightarrow> int \<Rightarrow> (int \<Rightarrow> 's \<Rightarrow> 's) \<Rightarrow> 's \<Rightarrow> 's" where
  "for_int lo hi body s = fold body [lo..hi - 1] s"

section \<open>C strings\<close>

text \<open>A C string is the list of its bytes before the terminating NUL; literals are HOL strings.\<close>

type_synonym cstr = "u8 list"

definition lit :: "string \<Rightarrow> cstr" where
  "lit = map of_char"

section \<open>Address ranges\<close>

text \<open>
  \<open>span a n\<close> is the set of the \<open>n\<close> addresses starting at \<open>a\<close>, wrapping at the top of the address
  space. Where the range does not wrap, membership is an interval of naturals (\<open>span_nowrap\<close>).
\<close>

definition span :: "u32 \<Rightarrow> nat \<Rightarrow> u32 set" where
  "span a n = {x. unat (x - a) < n}"

section \<open>Words read as natural numbers\<close>

lemma unat_less_2p32: "unat (x :: u32) < 4294967296"
  using unsigned_less [of x] by simp

lemma unat_ucast_u64 [simp]: "unat (ucast (x :: u32) :: u64) = unat x"
  using unat_less_2p32 [of x] by (simp add: unsigned_ucast_eq take_bit_nat_eq_self)

lemma unat_ucast_u32: "unat (ucast (x :: u64) :: u32) = unat x mod 4294967296"
  by (simp add: unsigned_ucast_eq take_bit_eq_mod)

lemma unat_add_nowrap:
  fixes a b :: u32
  assumes "unat a + unat b < 4294967296"
  shows "unat (a + b) = unat a + unat b"
  using assms by (simp add: unat_word_ariths)

lemma unat_suc_less:
  fixes a b :: u32
  assumes "a < b"
  shows "unat (a + 1) = Suc (unat a)"
proof -
  have "unat a < unat b" using assms by (simp add: word_less_nat_alt)
  moreover have "unat b < 4294967296" by (rule unat_less_2p32)
  ultimately show ?thesis by (simp add: unat_word_ariths)
qed

lemma index_measure: "j < (k :: u32) \<Longrightarrow> 4294967296 - unat (j + 1) < 4294967296 - unat j"
  using unat_suc_less [of j k] unat_less_2p32 [of j] by simp

lemma less_suc_iff:
  fixes g i hi :: u32
  assumes "i < hi"
  shows "g < i + 1 \<longleftrightarrow> g < i \<or> g = i"
  using assms by (auto simp: word_less_nat_alt unat_suc_less word_unat_eq_iff)

lemma unat_sub_le:
  fixes a b :: u32
  assumes "unat b \<le> unat a"
  shows "unat (a - b) = unat a - unat b"
  using assms by (simp add: unat_sub word_le_nat_alt)

lemma unat_sub_gt:
  fixes a b :: u32
  assumes "unat a < unat b"
  shows "unat (a - b) = 4294967296 + unat a - unat b"
  using assms unat_sub_if' [of a b] by (simp add: word_le_nat_alt)

lemmas word_nat_order [nat_of_word] = word_le_nat_alt word_less_nat_alt

lemma word_eq_unat: "(a :: u32) = b \<longleftrightarrow> unat a = unat b"
  by (simp add: word_unat_eq_iff)

text \<open>Rounding down to a multiple of a power of two.\<close>

lemma unat_and_not_mask: "unat ((x :: u32) AND NOT (mask k)) = unat x div 2 ^ k * 2 ^ k"
proof -
  have "x AND NOT (mask k) = push_bit k (drop_bit k x)"
    by (rule bit_word_eqI) (auto simp: bit_simps)
  moreover have "unat (push_bit k (drop_bit k x)) = push_bit k (drop_bit k (unat x))"
  proof -
    have "drop_bit k (unat x) * 2 ^ k \<le> unat x" by (simp add: drop_bit_eq_div)
    then have "push_bit k (drop_bit k (unat x)) < 2 ^ 32"
      using unat_less_2p32 [of x] by (simp add: push_bit_eq_mult)
    then show ?thesis using unat_less_2p32 [of x] by (simp add: unsigned_push_bit_eq unsigned_drop_bit_eq take_bit_nat_eq_self)
  qed
  ultimately show ?thesis by (simp add: push_bit_eq_mult drop_bit_eq_div)
qed

section \<open>Ranges\<close>

lemma span_nowrap:
  assumes "unat a + n \<le> 4294967296"
  shows "x \<in> span a n \<longleftrightarrow> unat a \<le> unat x \<and> unat x < unat a + n"
proof (cases "unat a \<le> unat x")
  case True
  then show ?thesis by (auto simp: span_def unat_sub_le)
next
  case False
  then have "unat (x - a) = 4294967296 + unat x - unat a" by (simp add: unat_sub_gt)
  with False assms show ?thesis by (simp add: span_def)
qed

lemma span_0 [simp]: "span a 0 = {}"
  by (simp add: span_def)

lemma span_mono: "n \<le> k \<Longrightarrow> span a n \<subseteq> span a k"
  by (auto simp: span_def)

lemma span_start [simp]: "a \<in> span a n \<longleftrightarrow> 0 < n"
  by (simp add: span_def)

lemma span_4: "span a 4 = {a, a + 1, a + 2, a + 3}"
proof -
  have "unat (x - a) < 4 \<longleftrightarrow> x - a \<in> {0, 1, 2, 3}" for x
  proof -
    have "unat (x - a) < 4 \<longleftrightarrow> unat (x - a) \<in> {0, 1, 2, 3}" by auto
    then show ?thesis by (simp add: word_unat_eq_iff)
  qed
  then show ?thesis by (auto simp: span_def algebra_simps)
qed

lemma span_offset_iff:
  assumes "i < 4294967296" "k + n \<le> 4294967296" "k < 4294967296"
  shows "e + of_nat i \<in> span (e + of_nat k) n \<longleftrightarrow> k \<le> i \<and> i < k + n"
proof -
  have u: "unat (of_nat i :: u32) = i" "unat (of_nat k :: u32) = k" using assms by (simp_all add: unat_of_nat)
  have d: "e + of_nat i - (e + of_nat k) = (of_nat i - of_nat k :: u32)" by simp
  show ?thesis
  proof (cases "k \<le> i")
    case True
    then have "unat (of_nat i - of_nat k :: u32) = i - k" using u unat_sub_le [of "of_nat k" "of_nat i"] by simp
    with True show ?thesis unfolding span_def mem_Collect_eq d by auto
  next
    case False
    then have "unat (of_nat i - of_nat k :: u32) = 4294967296 + i - k"
      using u unat_sub_gt [of "of_nat i" "of_nat k"] by simp
    with False assms show ?thesis unfolding span_def mem_Collect_eq d by auto
  qed
qed

section \<open>Loads after stores\<close>

lemma write_u32_outside [mem_simps]: "x \<notin> span a 4 \<Longrightarrow> write_u32 m a v x = m x"
  by (simp add: write_u32_def span_4)

lemma read_u32_cong: "(\<And>x. x \<in> span a 4 \<Longrightarrow> m x = m' x) \<Longrightarrow> read_u32 m a = read_u32 m' a"
  by (simp add: read_u32_def span_4)

text \<open>A 32-bit word is the concatenation of its four bytes.\<close>

lemma bytes_u32:
  "ucast (ucast v :: u8) OR push_bit 8 (ucast (ucast (drop_bit 8 v) :: u8))
     OR push_bit 16 (ucast (ucast (drop_bit 16 v) :: u8))
     OR push_bit 24 (ucast (ucast (drop_bit 24 v) :: u8)) = (v :: u32)"
proof (rule bit_word_eqI)
  fix n assume "n < LENGTH(32)"
  then consider "n < 8" | "8 \<le> n \<and> n < 16" | "16 \<le> n \<and> n < 24" | "24 \<le> n \<and> n < 32"
    by fastforce
  then show "bit (ucast (ucast v :: u8) OR push_bit 8 (ucast (ucast (drop_bit 8 v) :: u8))
     OR push_bit 16 (ucast (ucast (drop_bit 16 v) :: u8))
     OR push_bit 24 (ucast (ucast (drop_bit 24 v) :: u8)) :: u32) n = bit v n"
    by cases (auto simp: bit_simps)
qed

lemma read_write_u32 [simp, mem_simps]: "read_u32 (write_u32 m a v) a = v"
  by (simp add: read_u32_def write_u32_def bytes_u32)

lemma read_write_u32_disjoint:
  "span a 4 \<inter> span b 4 = {} \<Longrightarrow> read_u32 (write_u32 m a v) b = read_u32 m b"
  by (rule read_u32_cong) (rule write_u32_outside, blast)

section \<open>Loop rules\<close>

lemma for_u32_invariant:
  assumes "P lo s" and "lo \<le> hi"
    and "\<And>i t. lo \<le> i \<Longrightarrow> i < hi \<Longrightarrow> P i t \<Longrightarrow> P (i + 1) (body i t)"
  shows "P hi (for_u32 lo hi body s)"
  using assms
proof (induction lo hi body s rule: for_u32.induct)
  case (1 lo hi body s)
  show ?case
  proof (cases "lo < hi")
    case True
    then have "lo + 1 \<le> hi" "lo \<le> lo + 1"
      by (simp_all add: nat_of_word unat_suc_less)
    moreover from True "1.prems" have "P (lo + 1) (body lo s)" by simp
    ultimately have "P hi (for_u32 (lo + 1) hi body (body lo s))"
      using True "1.prems" by (intro "1.IH") (auto intro: order_trans)
    with True show ?thesis by (simp add: for_u32.simps [of lo hi])
  next
    case False
    with "1.prems" have "lo = hi" by simp
    with "1.prems" show ?thesis by (simp add: for_u32.simps [of hi hi])
  qed
qed

lemma for_u32_empty [simp]: "\<not> lo < hi \<Longrightarrow> for_u32 lo hi body s = s"
  by (simp add: for_u32.simps [of lo hi])

lemma for_u32_preserves:
  assumes "P s" and "\<And>i t. P t \<Longrightarrow> P (body i t)"
  shows "P (for_u32 lo hi body s)"
proof (cases "lo \<le> hi")
  case True
  then show ?thesis
    by (rule for_u32_invariant [where P = "\<lambda>_. P", rotated]) (use assms in auto)
next
  case False
  then show ?thesis using assms by simp
qed

lemma offset_less_Suc:
  "unat (x - p) < Suc (unat i) \<longleftrightarrow> unat (x - p) < unat i \<or> x = p + (i :: u32)"
proof -
  have "unat (x - p) = unat i \<longleftrightarrow> x = p + i"
    by (auto simp: word_unat_eq_iff [symmetric] algebra_simps)
  then show ?thesis by (auto simp: less_Suc_eq)
qed

text \<open>A loop that stores to the consecutive addresses \<open>p + lo, \<dots>, p + hi - 1\<close>.\<close>

lemma for_u32_fill:
  assumes "lo \<le> hi"
  shows "for_u32 lo hi (\<lambda>i m. m(p + i := v i)) m x
    = (if unat lo \<le> unat (x - p) \<and> unat (x - p) < unat hi then v (x - p) else m x)"
proof -
  let ?P = "\<lambda>i t. \<forall>x. t x = (if unat lo \<le> unat (x - p) \<and> unat (x - p) < unat i then v (x - p) else m x)"
  have "?P hi (for_u32 lo hi (\<lambda>i m. m(p + i := v i)) m)"
  proof (rule for_u32_invariant [where P = ?P])
    fix i t
    assume i: "lo \<le> i" "i < hi" and P: "?P i t"
    with i P show "?P (i + 1) (t(p + i := v i))"
      by (auto simp: unat_suc_less nat_of_word offset_less_Suc)
  qed (use assms in auto)
  then show ?thesis by simp
qed

text \<open>A forward copy loop between ranges that do not overlap.\<close>

lemma for_u32_copy:
  assumes "span d (unat n) \<inter> span s (unat n) = {}"
  shows "for_u32 0 n (\<lambda>i m. m(d + i := m (s + i))) m x
    = (if x \<in> span d (unat n) then m (s + (x - d)) else m x)"
proof -
  let ?P = "\<lambda>i t. \<forall>x. t x = (if unat (x - d) < unat i then m (s + (x - d)) else m x)"
  have "?P n (for_u32 0 n (\<lambda>i m. m(d + i := m (s + i))) m)"
  proof (rule for_u32_invariant [where P = ?P])
    fix i t
    assume i: "0 \<le> i" "i < n" and P: "?P i t"
    have "s + i \<in> span s (unat n)" using i by (simp add: span_def nat_of_word)
    with assms have "s + i \<notin> span d (unat n)" by blast
    with i have "\<not> unat (s + i - d) < unat i" by (simp add: span_def nat_of_word)
    with P have "t (s + i) = m (s + i)" by simp
    with P i show "?P (i + 1) (t(d + i := t (s + i)))"
      by (auto simp: unat_suc_less offset_less_Suc)
  qed auto
  then show ?thesis by (simp add: span_def)
qed

lemma for_int_invariant:
  assumes "P lo s" and "lo \<le> hi" and "\<And>i t. lo \<le> i \<Longrightarrow> i < hi \<Longrightarrow> P i t \<Longrightarrow> P (i + 1) (body i t)"
  shows "P hi (for_int lo hi body s)"
proof -
  have "P (lo + int n) (fold body [lo..lo + int n - 1] s)" if "lo + int n \<le> hi" for n
    using that
  proof (induction n)
    case 0
    then show ?case using assms(1) by simp
  next
    case (Suc n)
    have "[lo..lo + int (Suc n) - 1] = [lo..lo + int n - 1] @ [lo + int n]"
      using upto_rec2 [of lo "lo + int n"] by simp
    moreover have "P (lo + int n + 1) (body (lo + int n) (fold body [lo..lo + int n - 1] s))"
      using Suc by (intro assms(3)) auto
    ultimately show ?case by (simp add: algebra_simps)
  qed
  from this [of "nat (hi - lo)"] show ?thesis using assms(2) by (simp add: for_int_def)
qed

text \<open>The search on a test that always returns.\<close>

lemma search_u32_total:
  assumes "\<And>i. lo \<le> i \<Longrightarrow> i < hi \<Longrightarrow> test i = Some (P i)"
  shows "\<exists>r. search_u32 lo hi test = Some r \<and>
    (case r of None \<Rightarrow> \<forall>i. lo \<le> i \<longrightarrow> i < hi \<longrightarrow> \<not> P i
     | Some i \<Rightarrow> lo \<le> i \<and> i < hi \<and> P i \<and> (\<forall>j. lo \<le> j \<longrightarrow> j < i \<longrightarrow> \<not> P j))"
  using assms
proof (induction lo hi test rule: search_u32.induct)
  case (1 lo hi test)
  show ?case
  proof (cases "lo < hi")
    case False
    then show ?thesis by (auto simp: search_u32.simps [of lo hi])
  next
    case True
    then have t: "test lo = Some (P lo)" using "1.prems" by simp
    have suc: "lo \<le> i \<longleftrightarrow> i = lo \<or> lo + 1 \<le> i" for i
      using True unat_suc_less [OF True] by (auto simp: word_le_nat_alt word_unat_eq_iff)
    show ?thesis
    proof (cases "P lo")
      case P: True
      then show ?thesis using True t by (auto simp: search_u32.simps [of lo hi])
    next
      case P: False
      obtain r where r: "search_u32 (lo + 1) hi test = Some r"
        "case r of None \<Rightarrow> \<forall>i. lo + 1 \<le> i \<longrightarrow> i < hi \<longrightarrow> \<not> P i
         | Some i \<Rightarrow> lo + 1 \<le> i \<and> i < hi \<and> P i \<and> (\<forall>j. lo + 1 \<le> j \<longrightarrow> j < i \<longrightarrow> \<not> P j)"
        using "1.IH" [OF True t] P "1.prems" by (auto simp: suc)
      then have "search_u32 lo hi test = Some r" using True t P by (simp add: search_u32.simps [of lo hi])
      moreover have "case r of None \<Rightarrow> \<forall>i. lo \<le> i \<longrightarrow> i < hi \<longrightarrow> \<not> P i
         | Some i \<Rightarrow> lo \<le> i \<and> i < hi \<and> P i \<and> (\<forall>j. lo \<le> j \<longrightarrow> j < i \<longrightarrow> \<not> P j)"
        using r(2) P by (cases r) (auto simp: suc)
      ultimately show ?thesis by blast
    qed
  qed
qed

text \<open>A loop that may return early: \<open>P\<close> holds at every index reached, \<open>Q\<close> of every value returned.\<close>

lemma loop_u32_invariant:
  assumes "P lo s" and "lo \<le> hi"
    and "\<And>i t. lo \<le> i \<Longrightarrow> i < hi \<Longrightarrow> P i t \<Longrightarrow> \<exists>r. body i t = Some r \<and> (case r of Inl v \<Rightarrow> Q v | Inr t' \<Rightarrow> P (i + 1) t')"
  shows "\<exists>r. loop_u32 lo hi body s = Some r \<and> (case r of Inl v \<Rightarrow> Q v | Inr t \<Rightarrow> P hi t)"
  using assms
proof (induction lo hi body s rule: loop_u32.induct)
  case (1 lo hi body s)
  show ?case
  proof (cases "lo < hi")
    case False
    with "1.prems" have "lo = hi" by simp
    with "1.prems" show ?thesis by (simp add: loop_u32.simps [of hi hi])
  next
    case True
    from "1.prems"(3) [OF _ True "1.prems"(1)] obtain r where
      r: "body lo s = Some r" "case r of Inl v \<Rightarrow> Q v | Inr t' \<Rightarrow> P (lo + 1) t'" by auto
    show ?thesis
    proof (cases r)
      case (Inl v)
      with r True show ?thesis by (auto simp: loop_u32.simps [of lo hi])
    next
      case (Inr t)
      have le: "lo + 1 \<le> hi" "lo \<le> lo + 1" using True by (simp_all add: nat_of_word unat_suc_less)
      have "\<exists>r. loop_u32 (lo + 1) hi body t = Some r \<and> (case r of Inl v \<Rightarrow> Q v | Inr t \<Rightarrow> P hi t)"
        using True r Inr le "1.prems"(3) by (intro "1.IH") (auto intro: order_trans)
      with True r(1) Inr show ?thesis by (simp add: loop_u32.simps [of lo hi])
    qed
  qed
qed

lemma loop_u32_cong:
  assumes "\<And>i t. lo \<le> i \<Longrightarrow> i < hi \<Longrightarrow> f i t = g i t"
  shows "loop_u32 lo hi f s = loop_u32 lo hi g s"
  using assms
proof (induction lo hi f s rule: loop_u32.induct)
  case (1 lo hi f s)
  show ?case
  proof (cases "lo < hi")
    case True
    then have le: "lo \<le> lo + 1" by (simp add: nat_of_word unat_suc_less)
    have "loop_u32 (lo + 1) hi f t = loop_u32 (lo + 1) hi g t" if "f lo s = Some (Inr t)" for t
    proof (rule "1.IH" [OF True that refl])
      fix i u assume "lo + 1 \<le> i" "i < hi"
      with le show "f i u = g i u" by (intro "1.prems") auto
    qed
    moreover have "f lo s = g lo s" using "1.prems" True by simp
    ultimately show ?thesis using True by (simp add: loop_u32.simps [of lo hi] split: option.split sum.split)
  qed (simp add: loop_u32.simps [of lo hi])
qed

end
