(* ===== verification/Interfaces.thy ===== *)
theory Interfaces
  imports Arctic_Base "HOL-Library.Sublist"
begin

text \<open>
  The contracts between the components, as locales: what a client may rely on, stated over the
  operations it calls, with the consequences clients use proved once. Each locale is interpreted in
  the theory of the component that provides the operations.
\<close>

section \<open>A source of physical frames\<close>

text \<open>
  \<open>alloc\<close> returns the address of a frame, or 0. A returned address is frame aligned, its frame was
  available before and is not afterwards; no other frame changes hands. Frame 0 has the address
  that means failure, so handing it out looks like a failed call.
\<close>

locale frame_source =
  fixes alloc :: "'p \<Rightarrow> u32 \<times> 'p"
    and avail :: "'p \<Rightarrow> u32 set"
    and inv :: "'p \<Rightarrow> bool"
  assumes alloc_inv: "inv p \<Longrightarrow> alloc p = (a, q) \<Longrightarrow> inv q"
    and alloc_aligned: "inv p \<Longrightarrow> alloc p = (a, q) \<Longrightarrow> unat a mod 4096 = 0"
    and alloc_avail: "inv p \<Longrightarrow> alloc p = (a, q) \<Longrightarrow> a \<noteq> 0 \<Longrightarrow> a div 4096 \<in> avail p"
    and alloc_takes: "inv p \<Longrightarrow> alloc p = (a, q) \<Longrightarrow> avail q = avail p - {a div 4096}"
    and alloc_fails: "inv p \<Longrightarrow> alloc p = (0, q) \<Longrightarrow> avail p = {} \<or> 0 \<in> avail p"
begin

text \<open>A run of successful allocations.\<close>

fun alloc_run :: "'p \<Rightarrow> u32 list \<Rightarrow> 'p \<Rightarrow> bool" where
  "alloc_run p [] q \<longleftrightarrow> q = p"
| "alloc_run p (a # as) q \<longleftrightarrow> a \<noteq> 0 \<and> (\<exists>r. alloc p = (a, r) \<and> alloc_run r as q)"

lemma alloc_fewer:
  assumes "inv p" and "alloc p = (a, q)" and "a \<noteq> 0"
  shows "card (avail q) < card (avail p)"
  using assms alloc_avail alloc_takes by (metis card_Diff1_less finite)

lemma alloc_run_inv: "inv p \<Longrightarrow> alloc_run p as q \<Longrightarrow> inv q"
  by (induction as arbitrary: p) (auto dest: alloc_inv)

lemma alloc_run_avail:
  "inv p \<Longrightarrow> alloc_run p as q \<Longrightarrow>
    avail q = avail p - (\<lambda>a. a div 4096) ` set as \<and> (\<lambda>a. a div 4096) ` set as \<subseteq> avail p"
proof (induction as arbitrary: p)
  case Nil
  then show ?case by simp
next
  case (Cons a as)
  then obtain r where r: "alloc p = (a, r)" "alloc_run r as q" "a \<noteq> 0" by auto
  with Cons.prems have "inv r" "avail r = avail p - {a div 4096}" "a div 4096 \<in> avail p"
    by (auto dest: alloc_inv alloc_takes alloc_avail)
  with Cons.IH r show ?case by auto
qed

lemma alloc_run_aligned: "inv p \<Longrightarrow> alloc_run p as q \<Longrightarrow> a \<in> set as \<Longrightarrow> unat a mod 4096 = 0 \<and> a \<noteq> 0"
  by (induction as arbitrary: p) (auto dest: alloc_inv alloc_aligned)

text \<open>No frame is handed out twice in a run.\<close>

lemma alloc_run_distinct: "inv p \<Longrightarrow> alloc_run p as q \<Longrightarrow> distinct (map (\<lambda>a. a div 4096) as)"
proof (induction as arbitrary: p)
  case Nil
  then show ?case by simp
next
  case (Cons a as)
  then obtain r where r: "alloc p = (a, r)" "alloc_run r as q" "a \<noteq> 0" by auto
  with Cons.prems have "inv r" "avail r = avail p - {a div 4096}"
    by (auto dest: alloc_inv alloc_takes)
  with Cons.IH r alloc_run_avail [of r as q] show ?case by auto
qed

end

section \<open>A byte allocator\<close>

text \<open>What a client does with an allocator: it asks for bytes, returns a block, stores a byte.\<close>

datatype heap_op = Get u32 | Drop u32 | Store u32 u8

fun run_ops :: "(u32 \<Rightarrow> 'h \<Rightarrow> (u32 \<times> 'h) option) \<Rightarrow> (u32 \<Rightarrow> 'h \<Rightarrow> 'h option) \<Rightarrow> (u32 \<Rightarrow> u8 \<Rightarrow> 'h \<Rightarrow> 'h)
    \<Rightarrow> heap_op list \<Rightarrow> 'h \<Rightarrow> 'h option" where
  "run_ops alloc release store [] s = Some s"
| "run_ops alloc release store (Get n # ops) s =
     Option.bind (alloc n s) (\<lambda>(p, s). run_ops alloc release store ops s)"
| "run_ops alloc release store (Drop p # ops) s =
     Option.bind (release p s) (run_ops alloc release store ops)"
| "run_ops alloc release store (Store x v # ops) s = run_ops alloc release store ops (store x v s)"

text \<open>A client is well behaved if it returns and writes only what it holds.\<close>

fun legal_ops :: "(u32 \<Rightarrow> 'h \<Rightarrow> (u32 \<times> 'h) option) \<Rightarrow> (u32 \<Rightarrow> 'h \<Rightarrow> 'h option) \<Rightarrow> (u32 \<Rightarrow> u8 \<Rightarrow> 'h \<Rightarrow> 'h)
    \<Rightarrow> ('h \<Rightarrow> (u32 \<times> nat) set) \<Rightarrow> heap_op list \<Rightarrow> 'h \<Rightarrow> bool" where
  "legal_ops alloc release store owned [] s \<longleftrightarrow> True"
| "legal_ops alloc release store owned (Get n # ops) s \<longleftrightarrow>
     (\<forall>p s'. alloc n s = Some (p, s') \<longrightarrow> legal_ops alloc release store owned ops s')"
| "legal_ops alloc release store owned (Drop p # ops) s \<longleftrightarrow> p \<in> fst ` owned s \<and>
     (\<forall>s'. release p s = Some s' \<longrightarrow> legal_ops alloc release store owned ops s')"
| "legal_ops alloc release store owned (Store x v # ops) s \<longleftrightarrow>
     (\<exists>(p, k) \<in> owned s. x \<in> span p k) \<and> legal_ops alloc release store owned ops (store x v s)"

text \<open>The last byte stored at \<open>x\<close>, or the byte that was there.\<close>

fun last_store :: "heap_op list \<Rightarrow> u32 \<Rightarrow> u8 \<Rightarrow> u8" where
  "last_store [] x d = d"
| "last_store (Store y v # ops) x d = last_store ops x (if x = y then v else d)"
| "last_store (op # ops) x d = last_store ops x d"

locale byte_allocator =
  fixes alloc :: "u32 \<Rightarrow> 'h \<Rightarrow> (u32 \<times> 'h) option"
    and release :: "u32 \<Rightarrow> 'h \<Rightarrow> 'h option"
    and store :: "u32 \<Rightarrow> u8 \<Rightarrow> 'h \<Rightarrow> 'h"
    and contents :: "'h \<Rightarrow> mem"
    and inv :: "'h \<Rightarrow> bool"
    and owned :: "'h \<Rightarrow> (u32 \<times> nat) set"
  assumes alloc_returns: "inv s \<Longrightarrow> \<exists>p s'. alloc n s = Some (p, s')"
    and alloc_result: "inv s \<Longrightarrow> alloc n s = Some (p, s') \<Longrightarrow> inv s'
        \<and> (p = 0 \<longrightarrow> owned s' = owned s)
        \<and> (p \<noteq> 0 \<longrightarrow> (\<exists>k. owned s' = insert (p, k) (owned s) \<and> (p, k) \<notin> owned s
             \<and> (unat n \<le> 4294967288 \<longrightarrow> unat n \<le> k)))
        \<and> (\<forall>q k x. (q, k) \<in> owned s \<longrightarrow> x \<in> span q k \<longrightarrow> contents s' x = contents s x)"
    and release_result: "inv s \<Longrightarrow> (p, k) \<in> owned s \<Longrightarrow>
        \<exists>s'. release p s = Some s' \<and> inv s' \<and> owned s' = owned s - {(p, k)}
          \<and> (\<forall>q j x. (q, j) \<in> owned s - {(p, k)} \<longrightarrow> x \<in> span q j \<longrightarrow> contents s' x = contents s x)"
    and store_result: "inv s \<Longrightarrow> (p, k) \<in> owned s \<Longrightarrow> x \<in> span p k \<Longrightarrow>
        inv (store x v s) \<and> owned (store x v s) = owned s \<and> contents (store x v s) = (contents s)(x := v)"
    and owned_apart: "inv s \<Longrightarrow> (p, j) \<in> owned s \<Longrightarrow> (q, k) \<in> owned s \<Longrightarrow> (p, j) \<noteq> (q, k) \<Longrightarrow>
        span p j \<inter> span q k = {}"
    and owned_unique: "inv s \<Longrightarrow> (p, j) \<in> owned s \<Longrightarrow> (p, k) \<in> owned s \<Longrightarrow> j = k"
begin

abbreviation "run \<equiv> run_ops alloc release store"
abbreviation "legal \<equiv> legal_ops alloc release store owned"

text \<open>
  Whatever a well-behaved client does, every call returns, and a block it has not returned keeps its
  place and holds exactly what the client last wrote there.
\<close>

lemma run_keeps:
  assumes "inv s" "legal ops s"
  shows "\<exists>s'. run ops s = Some s' \<and> inv s' \<and>
    (\<forall>q k. (q, k) \<in> owned s \<longrightarrow> Drop q \<notin> set ops \<longrightarrow>
       (q, k) \<in> owned s' \<and> (\<forall>x \<in> span q k. contents s' x = last_store ops x (contents s x)))"
  using assms
proof (induction ops arbitrary: s)
  case Nil
  then show ?case by simp
next
  case (Cons op ops)
  show ?case
  proof (cases op)
    case (Get n)
    obtain p s1 where al: "alloc n s = Some (p, s1)" using alloc_returns Cons.prems(1) by blast
    note r = alloc_result [OF Cons.prems(1) al]
    have sub: "owned s \<subseteq> owned s1" using r by (cases "p = 0") auto
    have "inv s1" "legal ops s1" using r Cons.prems(2) al Get by auto
    from Cons.IH [OF this] obtain s' where s': "run ops s1 = Some s'" "inv s'"
      "\<And>q k. (q, k) \<in> owned s1 \<Longrightarrow> Drop q \<notin> set ops \<Longrightarrow>
        (q, k) \<in> owned s' \<and> (\<forall>x \<in> span q k. contents s' x = last_store ops x (contents s1 x))" by blast
    have "run (op # ops) s = Some s'" using al s'(1) Get by simp
    moreover have "(q, k) \<in> owned s' \<and> (\<forall>x \<in> span q k. contents s' x = last_store (op # ops) x (contents s x))"
      if "(q, k) \<in> owned s" "Drop q \<notin> set (op # ops)" for q k
      using s'(3) [of q k] that sub r Get by auto
    ultimately show ?thesis using s'(2) by blast
  next
    case (Drop p)
    obtain k where k: "(p, k) \<in> owned s" using Cons.prems(2) Drop by auto
    obtain s1 where s1: "release p s = Some s1" "inv s1" "owned s1 = owned s - {(p, k)}"
      "\<And>q j x. (q, j) \<in> owned s - {(p, k)} \<Longrightarrow> x \<in> span q j \<Longrightarrow> contents s1 x = contents s x"
      using release_result [OF Cons.prems(1) k] by blast
    have "legal ops s1" using Cons.prems(2) s1(1) Drop by simp
    from Cons.IH [OF s1(2) this] obtain s' where s': "run ops s1 = Some s'" "inv s'"
      "\<And>q k. (q, k) \<in> owned s1 \<Longrightarrow> Drop q \<notin> set ops \<Longrightarrow>
        (q, k) \<in> owned s' \<and> (\<forall>x \<in> span q k. contents s' x = last_store ops x (contents s1 x))" by blast
    have "run (op # ops) s = Some s'" using s1(1) s'(1) Drop by simp
    moreover have "(q, j) \<in> owned s' \<and> (\<forall>x \<in> span q j. contents s' x = last_store (op # ops) x (contents s x))"
      if "(q, j) \<in> owned s" "Drop q \<notin> set (op # ops)" for q j
      using s'(3) [of q j] s1(4) [of q j] that s1(3) Drop by auto
    ultimately show ?thesis using s'(2) by blast
  next
    case (Store x v)
    obtain p k where pk: "(p, k) \<in> owned s" "x \<in> span p k" using Cons.prems(2) Store by auto
    note st = store_result [OF Cons.prems(1) pk, of v]
    have "legal ops (store x v s)" using Cons.prems(2) Store by simp
    from Cons.IH [OF _ this] st show ?thesis using Store by auto
  qed
qed

end

section \<open>A bounded queue\<close>

text \<open>A producer and a consumer interleave their calls; a push to a full queue is dropped.\<close>

datatype 'a fifo_op = Push 'a | Pop

fun run_fifo :: "('a \<Rightarrow> 's \<Rightarrow> 's) \<Rightarrow> ('s \<Rightarrow> 'a option \<times> 's) \<Rightarrow> 'a fifo_op list \<Rightarrow> 's \<Rightarrow> 'a list \<times> 's" where
  "run_fifo push pop [] s = ([], s)"
| "run_fifo push pop (Push a # ops) s = run_fifo push pop ops (push a s)"
| "run_fifo push pop (Pop # ops) s =
     (let (r, s) = pop s; (outs, s) = run_fifo push pop ops s
      in (case r of None \<Rightarrow> outs | Some a \<Rightarrow> a # outs, s))"

text \<open>The reference: the same calls on a list of at most \<open>cap\<close> elements.\<close>

fun queue_run :: "nat \<Rightarrow> 'a fifo_op list \<Rightarrow> 'a list \<Rightarrow> 'a list \<times> 'a list" where
  "queue_run cap [] q = ([], q)"
| "queue_run cap (Push a # ops) q = queue_run cap ops (if length q < cap then q @ [a] else q)"
| "queue_run cap (Pop # ops) [] = queue_run cap ops []"
| "queue_run cap (Pop # ops) (a # q) = (let (outs, q') = queue_run cap ops q in (a # outs, q'))"

fun pushes :: "'a fifo_op list \<Rightarrow> 'a list" where
  "pushes [] = []"
| "pushes (Push a # ops) = a # pushes ops"
| "pushes (Pop # ops) = pushes ops"

text \<open>
  First in, first out: what is delivered and what is still queued is what was queued and a
  subsequence of what was pushed, in order; nothing is lost if the queue could not fill up.
\<close>

lemma queue_run_order:
  "queue_run cap ops q = (outs, q') \<Longrightarrow> \<exists>acc. subseq acc (pushes ops) \<and> outs @ q' = q @ acc"
proof (induction cap ops q arbitrary: outs rule: queue_run.induct)
  case (2 cap a ops q)
  show ?case
  proof (cases "length q < cap")
    case True
    with 2 obtain acc where "subseq acc (pushes ops)" "outs @ q' = (q @ [a]) @ acc" by auto
    then show ?thesis by (intro exI [of _ "a # acc"]) auto
  next
    case False
    with 2 obtain acc where "subseq acc (pushes ops)" "outs @ q' = q @ acc" by auto
    then show ?thesis by auto
  qed
qed (auto split: prod.splits)

lemma queue_run_complete:
  "queue_run cap ops q = (outs, q') \<Longrightarrow> length q + length (pushes ops) \<le> cap \<Longrightarrow> outs @ q' = q @ pushes ops"
  by (induction cap ops q arbitrary: outs rule: queue_run.induct) (auto split: prod.splits)

locale bounded_fifo =
  fixes push :: "'a \<Rightarrow> 's \<Rightarrow> 's"
    and pop :: "'s \<Rightarrow> 'a option \<times> 's"
    and contents :: "'s \<Rightarrow> 'a list"
    and inv :: "'s \<Rightarrow> bool"
    and cap :: nat
  assumes push_inv: "inv s \<Longrightarrow> inv (push a s)"
    and push_contents: "inv s \<Longrightarrow> contents (push a s) = (if length (contents s) < cap then contents s @ [a] else contents s)"
    and pop_inv: "inv s \<Longrightarrow> inv (snd (pop s))"
    and pop_empty: "inv s \<Longrightarrow> contents s = [] \<Longrightarrow> fst (pop s) = None \<and> contents (snd (pop s)) = []"
    and pop_next: "inv s \<Longrightarrow> contents s = a # q \<Longrightarrow> fst (pop s) = Some a \<and> contents (snd (pop s)) = q"
begin

lemma run_refines:
  "inv s \<Longrightarrow> run_fifo push pop ops s = (outs, s') \<Longrightarrow>
    inv s' \<and> queue_run cap ops (contents s) = (outs, contents s')"
proof (induction ops arbitrary: s outs)
  case Nil
  then show ?case by simp
next
  case (Cons op ops)
  show ?case
  proof (cases op)
    case (Push a)
    then show ?thesis
      using Cons.IH [OF push_inv [OF Cons.prems(1), of a]] push_contents [OF Cons.prems(1), of a] Cons.prems(2)
      by simp
  next
    case Pop
    obtain r t where rt: "pop s = (r, t)" by fastforce
    obtain os where os: "run_fifo push pop ops t = (os, s')" "outs = (case r of None \<Rightarrow> os | Some a \<Rightarrow> a # os)"
      using Cons.prems(2) Pop rt by (auto split: prod.splits)
    have "inv t" using pop_inv [OF Cons.prems(1)] rt by simp
    from Cons.IH [OF this os(1)] show ?thesis
      using pop_empty [OF Cons.prems(1)] pop_next [OF Cons.prems(1)] rt Pop os(2)
      by (cases "contents s") auto
  qed
qed

end

section \<open>A seekable byte stream\<close>

text \<open>
  The reference is a cursor on a list of bytes: a read delivers the bytes from the cursor on, as many
  as are asked for and there are, a seek to a place outside the list leaves the cursor alone.
\<close>

datatype stream_op = Rd u32 | Sk u32 u32

definition cursor_move :: "nat \<Rightarrow> u32 \<Rightarrow> u32 \<Rightarrow> nat \<Rightarrow> nat option" where
  "cursor_move len offset whence pos =
     (if whence > 2 then None
      else
        let target = (if whence = 0 then 0 else if whence = 1 then int pos else int len) + sint offset
        in if target < 0 \<or> target > int len then None else Some (nat target))"

fun cursor_run :: "u8 list \<Rightarrow> stream_op list \<Rightarrow> nat \<Rightarrow> u8 list list \<times> nat" where
  "cursor_run bytes [] pos = ([], pos)"
| "cursor_run bytes (Rd n # ops) pos =
     (let bs = take (unat n) (drop pos bytes); (outs, pos') = cursor_run bytes ops (pos + length bs)
      in (bs # outs, pos'))"
| "cursor_run bytes (Sk offset whence # ops) pos =
     cursor_run bytes ops (case cursor_move (length bytes) offset whence pos of None \<Rightarrow> pos | Some p \<Rightarrow> p)"

fun run_stream :: "(u32 \<Rightarrow> 's \<Rightarrow> u8 list \<times> 's) \<Rightarrow> (u32 \<Rightarrow> u32 \<Rightarrow> 's \<Rightarrow> 's) \<Rightarrow> stream_op list \<Rightarrow> 's \<Rightarrow> u8 list list \<times> 's" where
  "run_stream read seek [] s = ([], s)"
| "run_stream read seek (Rd n # ops) s =
     (let (bs, s) = read n s; (outs, s) = run_stream read seek ops s in (bs # outs, s))"
| "run_stream read seek (Sk offset whence # ops) s = run_stream read seek ops (seek offset whence s)"

text \<open>Reads alone deliver consecutive pieces of the bytes, and all of them once enough are asked for.\<close>

lemma cursor_run_reads:
  "cursor_run bytes (map Rd ns) pos = (outs, pos') \<Longrightarrow> concat outs = take (sum_list (map unat ns)) (drop pos bytes)"
proof (induction ns arbitrary: pos outs)
  case (Cons n ns)
  let ?b = "take (unat n) (drop pos bytes)"
  obtain os where os: "cursor_run bytes (map Rd ns) (pos + length ?b) = (os, pos')" "outs = ?b # os"
    using Cons.prems by (auto simp: Let_def split: prod.splits)
  have "drop (pos + length ?b) bytes = drop (unat n) (drop pos bytes)"
    by (cases "unat n \<le> length bytes - pos") (simp_all add: min_def add.commute)
  with Cons.IH [OF os(1)] os(2) show ?case by (simp add: take_add)
qed simp

locale byte_stream =
  fixes read :: "u32 \<Rightarrow> 's \<Rightarrow> u8 list \<times> 's"
    and seek :: "u32 \<Rightarrow> u32 \<Rightarrow> 's \<Rightarrow> 's"
    and bytes :: "'s \<Rightarrow> u8 list"
    and pos :: "'s \<Rightarrow> nat"
    and inv :: "'s \<Rightarrow> bool"
    and limit :: nat
  assumes read_law: "inv s \<Longrightarrow> unat n \<le> limit \<Longrightarrow> read n s = (bs, s') \<Longrightarrow>
      inv s' \<and> bytes s' = bytes s \<and> bs = take (unat n) (drop (pos s) (bytes s)) \<and> pos s' = pos s + length bs"
    and seek_law: "inv s \<Longrightarrow> inv (seek offset whence s) \<and> bytes (seek offset whence s) = bytes s
      \<and> pos (seek offset whence s) = (case cursor_move (length (bytes s)) offset whence (pos s) of None \<Rightarrow> pos s | Some p \<Rightarrow> p)"
begin

lemma run_refines:
  "inv s \<Longrightarrow> (\<And>n. Rd n \<in> set ops \<Longrightarrow> unat n \<le> limit) \<Longrightarrow> run_stream read seek ops s = (outs, s') \<Longrightarrow>
    inv s' \<and> bytes s' = bytes s \<and> cursor_run (bytes s) ops (pos s) = (outs, pos s')"
proof (induction ops arbitrary: s outs)
  case Nil
  then show ?case by simp
next
  case (Cons op ops)
  show ?case
  proof (cases op)
    case (Rd n)
    obtain bs t where rt: "read n s = (bs, t)" by fastforce
    obtain os where os: "run_stream read seek ops t = (os, s')" "outs = bs # os"
      using Cons.prems(3) Rd rt by (auto split: prod.splits)
    note law = read_law [OF Cons.prems(1) _ rt]
    then have "inv t" "bytes t = bytes s" using Cons.prems(2) Rd by auto
    with Cons.IH [OF _ _ os(1)] Cons.prems(2) law Rd os(2) show ?thesis by auto
  next
    case (Sk offset whence)
    then show ?thesis
      using Cons.IH [of "seek offset whence s" outs] seek_law [OF Cons.prems(1), of offset whence] Cons.prems(2,3) by auto
  qed
qed

end

end
