(* ===== verification/Pmm.thy ===== *)
theory Pmm
  imports Interfaces
begin

text \<open>
  The physical memory manager, \<open>memory/pmm.c\<close>: a bitmap with one bit per 4 KiB frame and a count
  of the free frames.
\<close>

section \<open>State and constants\<close>

definition PMM_FRAME_SIZE :: u32 where "PMM_FRAME_SIZE = 4096"

definition PMM_MAX_FRAMES :: u32 where "PMM_MAX_FRAMES = 1048576"

record pmm =
  pmm_bitmap :: "u32 \<Rightarrow> u8"
  pmm_total_frames :: u32
  pmm_free_frames :: u32

text \<open>The static initialisers.\<close>

definition pmm_boot :: pmm where
  "pmm_boot = \<lparr>pmm_bitmap = (\<lambda>_. 0), pmm_total_frames = PMM_MAX_FRAMES, pmm_free_frames = 0\<rparr>"

section \<open>Frame marking\<close>

definition pmm_bit_index :: "u32 \<Rightarrow> u32" where
  "pmm_bit_index frame = drop_bit 3 frame"

definition pmm_bit_mask :: "u32 \<Rightarrow> u8" where
  "pmm_bit_mask frame = ucast (push_bit (unat (frame AND 7)) (1 :: u32))"

definition pmm_mark_frame_used :: "u32 \<Rightarrow> pmm \<Rightarrow> pmm" where
  "pmm_mark_frame_used frame s =
     (if pmm_total_frames s \<le> frame then s
      else
        let byte_index = pmm_bit_index frame; mask = pmm_bit_mask frame
        in if pmm_bitmap s byte_index AND mask = 0
           then s\<lparr>pmm_bitmap := (pmm_bitmap s)(byte_index := pmm_bitmap s byte_index OR mask),
                  pmm_free_frames :=
                    (if 0 < pmm_free_frames s then pmm_free_frames s - 1 else pmm_free_frames s)\<rparr>
           else s)"

definition pmm_mark_frame_free :: "u32 \<Rightarrow> pmm \<Rightarrow> pmm" where
  "pmm_mark_frame_free frame s =
     (if pmm_total_frames s \<le> frame then s
      else
        let byte_index = pmm_bit_index frame; mask = pmm_bit_mask frame
        in if pmm_bitmap s byte_index AND mask \<noteq> 0
           then s\<lparr>pmm_bitmap := (pmm_bitmap s)(byte_index := pmm_bitmap s byte_index AND NOT mask),
                  pmm_free_frames := pmm_free_frames s + 1\<rparr>
           else s)"

definition pmm_mark_region :: "u32 \<Rightarrow> u32 \<Rightarrow> u8 \<Rightarrow> pmm \<Rightarrow> pmm" where
  "pmm_mark_region start len used s =
     (let start64 = ucast start :: u64;
          end64 = start64 + ucast len
      in if len = 0 then s
         else
           let end64 = (if end64 > 0x100000000 then 0x100000000 else end64);
               first_frame = (if used \<noteq> 0 then ucast (start64 div ucast PMM_FRAME_SIZE)
                 else ucast ((start64 + ucast PMM_FRAME_SIZE - 1) div ucast PMM_FRAME_SIZE)) :: u32;
               last_frame = (if used \<noteq> 0 then ucast ((end64 + ucast PMM_FRAME_SIZE - 1) div ucast PMM_FRAME_SIZE)
                 else ucast (end64 div ucast PMM_FRAME_SIZE)) :: u32;
               last_frame = (if last_frame > pmm_total_frames s then pmm_total_frames s else last_frame)
           in for_u32 first_frame last_frame
                (\<lambda>frame s. if used \<noteq> 0 then pmm_mark_frame_used frame s
                   else pmm_mark_frame_free frame s) s)"

section \<open>Multiboot structures\<close>

text \<open>
  The packed structures the boot loader leaves in memory, as loads at their field offsets:
  \<open>multiboot_info_t\<close> (52 bytes), \<open>multiboot_module_t\<close> (16 bytes), \<open>multiboot_mmap_entry_t\<close>.
\<close>

definition mbi_flags :: "mem \<Rightarrow> u32 \<Rightarrow> u32" where "mbi_flags m mbi = read_u32 m mbi"
definition mbi_mods_count :: "mem \<Rightarrow> u32 \<Rightarrow> u32" where "mbi_mods_count m mbi = read_u32 m (mbi + 20)"
definition mbi_mods_addr :: "mem \<Rightarrow> u32 \<Rightarrow> u32" where "mbi_mods_addr m mbi = read_u32 m (mbi + 24)"
definition mbi_mmap_length :: "mem \<Rightarrow> u32 \<Rightarrow> u32" where "mbi_mmap_length m mbi = read_u32 m (mbi + 44)"
definition mbi_mmap_addr :: "mem \<Rightarrow> u32 \<Rightarrow> u32" where "mbi_mmap_addr m mbi = read_u32 m (mbi + 48)"

definition sizeof_multiboot_info :: u32 where "sizeof_multiboot_info = 52"
definition sizeof_multiboot_module :: u32 where "sizeof_multiboot_module = 16"

definition mod_start :: "mem \<Rightarrow> u32 \<Rightarrow> u32 \<Rightarrow> u32" where
  "mod_start m mods i = read_u32 m (mods + sizeof_multiboot_module * i)"
definition mod_end :: "mem \<Rightarrow> u32 \<Rightarrow> u32 \<Rightarrow> u32" where
  "mod_end m mods i = read_u32 m (mods + sizeof_multiboot_module * i + 4)"

definition mmap_size :: "mem \<Rightarrow> u32 \<Rightarrow> u32" where "mmap_size m e = read_u32 m e"
definition mmap_base :: "mem \<Rightarrow> u32 \<Rightarrow> u64" where "mmap_base m e = read_u64 m (e + 4)"
definition mmap_len :: "mem \<Rightarrow> u32 \<Rightarrow> u64" where "mmap_len m e = read_u64 m (e + 12)"
definition mmap_type :: "mem \<Rightarrow> u32 \<Rightarrow> u32" where "mmap_type m e = read_u32 m (e + 20)"

section \<open>Initialisation\<close>

text \<open>The body of the memory-map loop: one available entry is marked free.\<close>

definition pmm_mmap_entry :: "mem \<Rightarrow> u32 \<Rightarrow> pmm \<Rightarrow> pmm" where
  "pmm_mmap_entry m entry s =
     (if mmap_type m entry = 1 then
        let region_addr = mmap_base m entry; region_len = mmap_len m entry
        in if region_addr < 0x100000000 then
             let free_start = ucast region_addr :: u32;
                 max_len = 0x100000000 - region_addr;
                 region_len = (if region_len > max_len then max_len else region_len)
             in pmm_mark_region free_start (ucast region_len) 0 s
           else s
      else s)"

text \<open>
  The loop over the memory map follows the sizes stored in the map, so it need not end (an entry
  whose size is \<open>-4\<close> is visited for ever): \<open>None\<close> is a loop that does not return.
\<close>

partial_function (option) pmm_mmap_loop :: "mem \<Rightarrow> u32 \<Rightarrow> u32 \<Rightarrow> pmm \<Rightarrow> pmm option" where
  "pmm_mmap_loop m entry mmap_end s =
     (if entry < mmap_end
      then pmm_mmap_loop m (entry + mmap_size m entry + 4) mmap_end (pmm_mmap_entry m entry s)
      else Some s)"

definition pmm_init_bitmap :: "pmm \<Rightarrow> pmm" where
  "pmm_init_bitmap s =
     s\<lparr>pmm_bitmap := for_u32 0 (PMM_MAX_FRAMES div 8) (\<lambda>i b. b(i := 0xFF)) (pmm_bitmap s),
       pmm_free_frames := 0\<rparr>"

definition pmm_mark_module :: "mem \<Rightarrow> u32 \<Rightarrow> u32 \<Rightarrow> pmm \<Rightarrow> pmm" where
  "pmm_mark_module m mods i s =
     (let module_start = mod_start m mods i; module_end = mod_end m mods i
      in if module_end > module_start
         then pmm_mark_region module_start (module_end - module_start) 1 s else s)"

definition pmm_reserve :: "mem \<Rightarrow> u32 \<Rightarrow> u32 \<Rightarrow> u32 \<Rightarrow> pmm \<Rightarrow> pmm" where
  "pmm_reserve m mbi kernel_start kernel_end s =
     (let s = pmm_mark_region 0 0x00100000 1 s;
          s = (if kernel_end > kernel_start
               then pmm_mark_region kernel_start (kernel_end - kernel_start) 1 s else s);
          s = pmm_mark_region mbi sizeof_multiboot_info 1 s;
          s = (if mbi_flags m mbi AND push_bit 3 1 \<noteq> 0
               then
                 let mods = mbi_mods_addr m mbi;
                     s = pmm_mark_region mods (mbi_mods_count m mbi * sizeof_multiboot_module) 1 s
                 in for_u32 0 (mbi_mods_count m mbi) (pmm_mark_module m mods) s
               else s)
      in if mbi_flags m mbi AND push_bit 6 1 \<noteq> 0
         then pmm_mark_region (mbi_mmap_addr m mbi) (mbi_mmap_length m mbi) 1 s else s)"

definition pmm_init :: "mem \<Rightarrow> u32 \<Rightarrow> u32 \<Rightarrow> u32 \<Rightarrow> pmm \<Rightarrow> pmm option" where
  "pmm_init m mbi kernel_start kernel_end s =
     do {
       let s = pmm_init_bitmap s;
       s \<leftarrow> (if mbi_flags m mbi AND push_bit 6 1 \<noteq> 0
             then pmm_mmap_loop m (mbi_mmap_addr m mbi) (mbi_mmap_addr m mbi + mbi_mmap_length m mbi) s
             else Some s);
       Some (pmm_reserve m mbi kernel_start kernel_end s)
     }"

section \<open>Allocation and release\<close>

function pmm_alloc_from :: "u32 \<Rightarrow> pmm \<Rightarrow> u32 \<times> pmm" where
  "pmm_alloc_from frame s =
     (if frame < pmm_total_frames s then
        if pmm_bitmap s (pmm_bit_index frame) AND pmm_bit_mask frame = 0
        then (frame * PMM_FRAME_SIZE, pmm_mark_frame_used frame s)
        else pmm_alloc_from (frame + 1) s
      else (0, s))"
  by pat_completeness auto
termination
  by (relation "measure (\<lambda>(frame, s). unat (pmm_total_frames s) - unat frame)")
    (auto simp: nat_of_word unat_suc_less)

declare pmm_alloc_from.simps [simp del]

definition pmm_alloc_frame :: "pmm \<Rightarrow> u32 \<times> pmm" where
  "pmm_alloc_frame s = pmm_alloc_from 0 s"

definition pmm_free_frame :: "u32 \<Rightarrow> pmm \<Rightarrow> pmm" where
  "pmm_free_frame frame_addr s = pmm_mark_frame_free (frame_addr div PMM_FRAME_SIZE) s"

definition pmm_get_total_frames :: "pmm \<Rightarrow> u32" where
  "pmm_get_total_frames s = pmm_total_frames s"

definition pmm_get_free_frames :: "pmm \<Rightarrow> u32" where
  "pmm_get_free_frames s = pmm_free_frames s"

section \<open>The bitmap as a set of used frames\<close>

definition frame_used :: "pmm \<Rightarrow> u32 \<Rightarrow> bool" where
  "frame_used s f \<longleftrightarrow> pmm_bitmap s (pmm_bit_index f) AND pmm_bit_mask f \<noteq> 0"

definition free_set :: "pmm \<Rightarrow> u32 set" where
  "free_set s = {f. f < pmm_total_frames s \<and> \<not> frame_used s f}"

text \<open>The invariant: the manager tracks the 4 GiB address space and its count is exact.\<close>

definition pmm_wf :: "pmm \<Rightarrow> bool" where
  "pmm_wf s \<longleftrightarrow> pmm_total_frames s = PMM_MAX_FRAMES \<and> unat (pmm_free_frames s) = card (free_set s)"

lemma unat_and_7: "unat ((f :: u32) AND 7) < 8"
proof -
  have "f AND 7 \<le> 7" by (rule word_and_le1)
  then show ?thesis by (simp add: word_le_nat_alt)
qed

lemma bit_pmm_bit_mask: "bit (pmm_bit_mask f) n \<longleftrightarrow> n = unat (f AND 7)"
  using unat_and_7 [of f] by (auto simp: pmm_bit_mask_def bit_simps)

lemma and_mask_eq_0: "(b :: u8) AND pmm_bit_mask f = 0 \<longleftrightarrow> \<not> bit b (unat (f AND 7))"
proof -
  have "b AND pmm_bit_mask f = 0 \<longleftrightarrow> (\<forall>n. \<not> (bit b n \<and> n = unat (f AND 7)))"
    using unat_and_7 [of f]
    by (simp only: bit_eq_iff [of "b AND pmm_bit_mask f"] bit_and_iff bit_pmm_bit_mask bit_0_eq bot_apply) auto
  then show ?thesis by blast
qed

lemma frame_used_bit: "frame_used s f \<longleftrightarrow> bit (pmm_bitmap s (pmm_bit_index f)) (unat (f AND 7))"
  by (simp add: frame_used_def and_mask_eq_0)

lemma frame_eqI:
  assumes "pmm_bit_index f = pmm_bit_index g" and "f AND 7 = g AND 7"
  shows "f = g"
proof (rule bit_word_eqI)
  fix n assume "n < LENGTH(32)"
  show "bit f n = bit g n"
  proof (cases "n < 3")
    case True
    have "bit (f AND 7) n = bit (g AND 7) n" using assms(2) by simp
    moreover have "bit (7 :: u32) n"
    proof -
      have "(7 :: u32) = mask 3" by (simp add: mask_eq_decr_exp)
      then have "bit (7 :: u32) n = bit (mask 3 :: u32) n" by simp
      with True show ?thesis by (simp only: bit_mask_iff) simp
    qed
    ultimately show ?thesis by (simp add: bit_and_iff)
  next
    case False
    have "bit (drop_bit 3 f) (n - 3) = bit (drop_bit 3 g) (n - 3)"
      using assms(1) by (simp add: pmm_bit_index_def)
    with False show ?thesis by (simp add: bit_drop_bit_eq)
  qed
qed

lemma frame_neqD:
  assumes "g \<noteq> f" and "pmm_bit_index g = pmm_bit_index f"
  shows "unat (g AND 7) \<noteq> unat (f AND 7)"
proof
  assume "unat (g AND 7) = unat (f AND 7)"
  then have "g AND 7 = f AND 7" by (simp only: word_unat_eq_iff)
  with assms frame_eqI show False by blast
qed

lemma total_mark [simp]:
  "pmm_total_frames (pmm_mark_frame_used f s) = pmm_total_frames s"
  "pmm_total_frames (pmm_mark_frame_free f s) = pmm_total_frames s"
  by (simp_all add: pmm_mark_frame_used_def pmm_mark_frame_free_def Let_def)

lemma used_mark_used:
  "frame_used (pmm_mark_frame_used f s) g \<longleftrightarrow> frame_used s g \<or> (g = f \<and> f < pmm_total_frames s)"
  using frame_neqD [of g f]
  by (auto simp: pmm_mark_frame_used_def frame_used_bit Let_def bit_or_iff bit_pmm_bit_mask and_mask_eq_0)

lemma used_mark_free:
  "frame_used (pmm_mark_frame_free f s) g \<longleftrightarrow> frame_used s g \<and> \<not> (g = f \<and> f < pmm_total_frames s)"
  using frame_neqD [of g f] unat_and_7 [of g]
  by (auto simp: pmm_mark_frame_free_def frame_used_bit Let_def bit_and_iff bit_not_iff
      bit_pmm_bit_mask and_mask_eq_0)

lemma finite_free_set [simp]: "finite (free_set s)"
  by (rule finite_subset [of _ UNIV]) auto

lemma card_free_set_less: "card (free_set s) \<le> unat (pmm_total_frames s)"
proof -
  have "free_set s \<subseteq> {f. f < pmm_total_frames s}" by (auto simp: free_set_def)
  moreover have "{f. f < pmm_total_frames s} \<subseteq> of_nat ` {..<unat (pmm_total_frames s)}"
  proof
    fix f assume "f \<in> {f. f < pmm_total_frames s}"
    then have "f = of_nat (unat f)" "unat f \<in> {..<unat (pmm_total_frames s)}"
      by (simp_all add: nat_of_word)
    then show "f \<in> of_nat ` {..<unat (pmm_total_frames s)}" by blast
  qed
  ultimately have "free_set s \<subseteq> of_nat ` {..<unat (pmm_total_frames s)}" by blast
  then have "card (free_set s) \<le> card (of_nat ` {..<unat (pmm_total_frames s)} :: u32 set)"
    by (rule card_mono [rotated]) simp
  also have "\<dots> \<le> card {..<unat (pmm_total_frames s)}" by (rule card_image_le) simp
  finally show ?thesis by simp
qed

lemma free_set_mark_used: "free_set (pmm_mark_frame_used f s) = free_set s - {f}"
  by (auto simp: free_set_def used_mark_used)

lemma free_set_mark_free:
  "free_set (pmm_mark_frame_free f s) = (if f < pmm_total_frames s then insert f (free_set s) else free_set s)"
  by (auto simp: free_set_def used_mark_free)

lemma pmm_wf_mark_used [intro]: "pmm_wf s \<Longrightarrow> pmm_wf (pmm_mark_frame_used f s)"
proof -
  assume wf: "pmm_wf s"
  show ?thesis
  proof (cases "f \<in> free_set s")
    case True
    then have "0 < card (free_set s)" by (metis card_gt_0_iff empty_iff finite_free_set)
    with wf have "0 < unat (pmm_free_frames s)" by (simp add: pmm_wf_def)
    then have "0 < pmm_free_frames s" by (simp add: nat_of_word)
    moreover from True have "pmm_free_frames (pmm_mark_frame_used f s)
        = (if 0 < pmm_free_frames s then pmm_free_frames s - 1 else pmm_free_frames s)"
      by (auto simp: pmm_mark_frame_used_def free_set_def frame_used_def Let_def)
    ultimately have "unat (pmm_free_frames (pmm_mark_frame_used f s)) = card (free_set s) - 1"
      using wf by (simp add: pmm_wf_def unat_sub_le nat_of_word)
    with True wf show ?thesis by (simp add: pmm_wf_def free_set_mark_used)
  next
    case False
    then have "pmm_mark_frame_used f s = s"
      by (auto simp: pmm_mark_frame_used_def free_set_def frame_used_def Let_def)
    with wf show ?thesis by simp
  qed
qed

lemma pmm_wf_mark_free [intro]: "pmm_wf s \<Longrightarrow> pmm_wf (pmm_mark_frame_free f s)"
proof -
  assume wf: "pmm_wf s"
  show ?thesis
  proof (cases "f < pmm_total_frames s \<and> frame_used s f")
    case True
    then have notin: "f \<notin> free_set s" by (simp add: free_set_def)
    from True have "pmm_free_frames (pmm_mark_frame_free f s) = pmm_free_frames s + 1"
      by (auto simp: pmm_mark_frame_free_def frame_used_def Let_def)
    moreover have "unat (pmm_free_frames s) \<le> 1048576"
      using wf card_free_set_less [of s] by (simp add: pmm_wf_def PMM_MAX_FRAMES_def)
    ultimately have "unat (pmm_free_frames (pmm_mark_frame_free f s)) = Suc (card (free_set s))"
      using wf by (simp add: unat_add_nowrap pmm_wf_def)
    with True notin wf show ?thesis by (simp add: pmm_wf_def free_set_mark_free)
  next
    case False
    then have "pmm_mark_frame_free f s = s"
      by (auto simp: pmm_mark_frame_free_def frame_used_def Let_def)
    with wf show ?thesis by simp
  qed
qed

section \<open>Regions\<close>

text \<open>
  The two roundings of \<open>pmm_mark_region\<close>: a reserved region takes every frame it touches, an
  available one gives only the frames it covers completely.
\<close>

definition region_touches :: "nat \<Rightarrow> nat \<Rightarrow> u32 \<Rightarrow> bool" where
  "region_touches start len f \<longleftrightarrow>
     0 < len \<and> start < (unat f + 1) * 4096 \<and> unat f * 4096 < start + len"

definition region_covers :: "nat \<Rightarrow> nat \<Rightarrow> u32 \<Rightarrow> bool" where
  "region_covers start len f \<longleftrightarrow> start \<le> unat f * 4096 \<and> (unat f + 1) * 4096 \<le> start + len"

lemma for_mark_used:
  assumes "hi \<le> pmm_total_frames s"
  shows "frame_used (for_u32 lo hi pmm_mark_frame_used s) g \<longleftrightarrow> frame_used s g \<or> (lo \<le> g \<and> g < hi)"
proof (cases "lo \<le> hi")
  case True
  let ?P = "\<lambda>i t. pmm_total_frames t = pmm_total_frames s \<and>
    (\<forall>g. frame_used t g \<longleftrightarrow> frame_used s g \<or> (lo \<le> g \<and> g < i))"
  have "?P hi (for_u32 lo hi pmm_mark_frame_used s)"
  proof (rule for_u32_invariant [where P = ?P])
    fix i t
    assume i: "lo \<le> i" "i < hi" and P: "?P i t"
    then have "i < pmm_total_frames t" using assms by simp
    moreover have "lo \<le> g \<and> g < i + 1 \<longleftrightarrow> lo \<le> g \<and> g < i \<or> g = i" for g
      using i by (simp only: less_suc_iff) blast
    ultimately show "?P (i + 1) (pmm_mark_frame_used i t)"
      using P by (simp add: used_mark_used)
  qed (use True in auto)
  then show ?thesis by simp
qed auto

lemma for_mark_free:
  assumes "hi \<le> pmm_total_frames s"
  shows "frame_used (for_u32 lo hi pmm_mark_frame_free s) g \<longleftrightarrow> frame_used s g \<and> \<not> (lo \<le> g \<and> g < hi)"
proof (cases "lo \<le> hi")
  case True
  let ?P = "\<lambda>i t. pmm_total_frames t = pmm_total_frames s \<and>
    (\<forall>g. frame_used t g \<longleftrightarrow> frame_used s g \<and> \<not> (lo \<le> g \<and> g < i))"
  have "?P hi (for_u32 lo hi pmm_mark_frame_free s)"
  proof (rule for_u32_invariant [where P = ?P])
    fix i t
    assume i: "lo \<le> i" "i < hi" and P: "?P i t"
    then have "i < pmm_total_frames t" using assms by simp
    moreover have "lo \<le> g \<and> g < i + 1 \<longleftrightarrow> lo \<le> g \<and> g < i \<or> g = i" for g
      using i by (simp only: less_suc_iff) blast
    ultimately show "?P (i + 1) (pmm_mark_frame_free i t)"
      using P by (simp add: used_mark_free)
  qed (use True in auto)
  then show ?thesis by simp
qed auto

text \<open>The frame bounds that \<open>pmm_mark_region\<close> computes in 64 bits, as naturals.\<close>

lemma region_end64:
  fixes start len :: u32
  defines "e \<equiv> (ucast start :: u64) + ucast len"
  shows "unat (if e > 0x100000000 then 0x100000000 else e) = min (unat start + unat len) 4294967296"
proof -
  have "unat e = unat start + unat len"
    using unat_less_2p32 [of start] unat_less_2p32 [of len]
    by (simp add: e_def unat_word_ariths)
  then show ?thesis by (auto simp: word_less_nat_alt)
qed

lemma unat_frame_div:
  fixes x :: u64
  assumes "unat x \<le> 4294967296 + 4095"
  shows "unat (ucast (x div ucast PMM_FRAME_SIZE) :: u32) = unat x div 4096"
proof -
  have "unat (x div ucast PMM_FRAME_SIZE) = unat x div 4096"
    by (simp add: unat_div PMM_FRAME_SIZE_def)
  moreover have "unat x div 4096 < 4294967296" using assms by simp
  ultimately show ?thesis by (simp add: unat_ucast_u32)
qed

lemma unat_round_up:
  fixes x :: u64
  assumes "unat x \<le> 4294967296"
  shows "unat (x + ucast PMM_FRAME_SIZE - 1) = unat x + 4095"
proof -
  have "x + ucast PMM_FRAME_SIZE - 1 = x + 4095" by (simp add: PMM_FRAME_SIZE_def)
  then show ?thesis using assms by (simp add: unat_word_ariths)
qed

lemma used_mark_region:
  assumes "pmm_total_frames s = PMM_MAX_FRAMES" and "f < PMM_MAX_FRAMES" and "used \<noteq> 0"
  shows "frame_used (pmm_mark_region start len used s) f
    \<longleftrightarrow> frame_used s f \<or> region_touches (unat start) (unat len) f"
proof (cases "len = 0")
  case True
  then show ?thesis by (simp add: pmm_mark_region_def region_touches_def)
next
  case False
  define e where "e = (let e = (ucast start :: u64) + ucast len in if e > 0x100000000 then 0x100000000 else e)"
  define first where "first = (ucast ((ucast start :: u64) div ucast PMM_FRAME_SIZE) :: u32)"
  define last where "last = (ucast ((e + ucast PMM_FRAME_SIZE - 1) div ucast PMM_FRAME_SIZE) :: u32)"
  have e: "unat e = min (unat start + unat len) 4294967296"
    unfolding e_def Let_def by (rule region_end64)
  have first: "unat first = unat start div 4096"
    unfolding first_def using unat_less_2p32 [of start] by (subst unat_frame_div) simp_all
  have last: "unat last = (min (unat start + unat len) 4294967296 + 4095) div 4096"
    unfolding last_def using e by (subst unat_frame_div) (simp_all add: unat_round_up)
  have "pmm_mark_region start len used s =
      for_u32 first (if last > PMM_MAX_FRAMES then PMM_MAX_FRAMES else last) pmm_mark_frame_used s"
    using assms False by (simp add: pmm_mark_region_def Let_def e_def first_def last_def)
  then have "frame_used (pmm_mark_region start len used s) f \<longleftrightarrow>
      frame_used s f \<or> (first \<le> f \<and> f < (if last > PMM_MAX_FRAMES then PMM_MAX_FRAMES else last))"
    using assms by (simp add: for_mark_used)
  also have "(first \<le> f \<and> f < (if last > PMM_MAX_FRAMES then PMM_MAX_FRAMES else last))
      \<longleftrightarrow> unat start div 4096 \<le> unat f \<and> unat f < (min (unat start + unat len) 4294967296 + 4095) div 4096"
    using assms(2) by (auto simp: nat_of_word first last)
  also have "\<dots> \<longleftrightarrow> region_touches (unat start) (unat len) f"
    using False assms(2)
    by (auto simp: region_touches_def nat_of_word PMM_MAX_FRAMES_def unat_gt_0 min_def)
  finally show ?thesis .
qed

lemma free_mark_region:
  assumes "pmm_total_frames s = PMM_MAX_FRAMES" and "f < PMM_MAX_FRAMES"
  shows "frame_used (pmm_mark_region start len 0 s) f
    \<longleftrightarrow> frame_used s f \<and> \<not> region_covers (unat start) (unat len) f"
proof (cases "len = 0")
  case True
  then show ?thesis by (simp add: pmm_mark_region_def region_covers_def)
next
  case False
  define e where "e = (let e = (ucast start :: u64) + ucast len in if e > 0x100000000 then 0x100000000 else e)"
  define first where "first = (ucast (((ucast start :: u64) + ucast PMM_FRAME_SIZE - 1) div ucast PMM_FRAME_SIZE) :: u32)"
  define last where "last = (ucast (e div ucast PMM_FRAME_SIZE) :: u32)"
  have e: "unat e = min (unat start + unat len) 4294967296"
    unfolding e_def Let_def by (rule region_end64)
  have first: "unat first = (unat start + 4095) div 4096"
    unfolding first_def using unat_less_2p32 [of start]
    by (subst unat_frame_div) (simp_all add: unat_round_up)
  have last: "unat last = min (unat start + unat len) 4294967296 div 4096"
    unfolding last_def using e by (subst unat_frame_div) simp_all
  have "pmm_mark_region start len 0 s =
      for_u32 first (if last > PMM_MAX_FRAMES then PMM_MAX_FRAMES else last) pmm_mark_frame_free s"
    using assms False by (simp add: pmm_mark_region_def Let_def e_def first_def last_def)
  then have "frame_used (pmm_mark_region start len 0 s) f \<longleftrightarrow>
      frame_used s f \<and> \<not> (first \<le> f \<and> f < (if last > PMM_MAX_FRAMES then PMM_MAX_FRAMES else last))"
    using assms by (simp add: for_mark_free)
  also have "(first \<le> f \<and> f < (if last > PMM_MAX_FRAMES then PMM_MAX_FRAMES else last))
      \<longleftrightarrow> (unat start + 4095) div 4096 \<le> unat f \<and> unat f < min (unat start + unat len) 4294967296 div 4096"
    using assms(2) by (auto simp: nat_of_word first last)
  also have "\<dots> \<longleftrightarrow> region_covers (unat start) (unat len) f"
    using False assms(2) by (auto simp: region_covers_def nat_of_word PMM_MAX_FRAMES_def min_def)
  finally show ?thesis .
qed

lemma total_mark_region [simp]: "pmm_total_frames (pmm_mark_region start len used s) = pmm_total_frames s"
  unfolding pmm_mark_region_def Let_def
  by (auto intro: for_u32_preserves [where P = "\<lambda>t. pmm_total_frames t = pmm_total_frames s"])

lemma pmm_wf_mark_region [intro]: "pmm_wf s \<Longrightarrow> pmm_wf (pmm_mark_region start len used s)"
  unfolding pmm_mark_region_def Let_def
  by (auto intro!: for_u32_preserves [where P = pmm_wf])

section \<open>Initialisation\<close>

text \<open>The entries the memory-map loop visits, in order; no such list exists when it never ends.\<close>

fun mmap_chain :: "mem \<Rightarrow> u32 \<Rightarrow> u32 \<Rightarrow> u32 list \<Rightarrow> bool" where
  "mmap_chain m e mmap_end [] \<longleftrightarrow> \<not> e < mmap_end"
| "mmap_chain m e mmap_end (x # xs) \<longleftrightarrow>
     e < mmap_end \<and> x = e \<and> mmap_chain m (e + mmap_size m e + 4) mmap_end xs"

text \<open>The frames an entry makes available.\<close>

definition entry_frees :: "mem \<Rightarrow> u32 \<Rightarrow> u32 \<Rightarrow> bool" where
  "entry_frees m e f \<longleftrightarrow> mmap_type m e = 1 \<and> unat (mmap_base m e) < 4294967296
     \<and> \<not> (mmap_base m e = 0 \<and> 4294967296 \<le> unat (mmap_len m e))
     \<and> region_covers (unat (mmap_base m e)) (unat (mmap_len m e)) f"

text \<open>The frames that hold what the boot loader and the kernel already use.\<close>

definition reserved :: "mem \<Rightarrow> u32 \<Rightarrow> u32 \<Rightarrow> u32 \<Rightarrow> u32 \<Rightarrow> bool" where
  "reserved m mbi kernel_start kernel_end f \<longleftrightarrow>
     unat f < 256
     \<or> region_touches (unat kernel_start) (unat kernel_end - unat kernel_start) f
     \<or> region_touches (unat mbi) 52 f
     \<or> (bit (mbi_flags m mbi) 3
        \<and> (region_touches (unat (mbi_mods_addr m mbi)) (unat (mbi_mods_count m mbi * 16)) f
          \<or> (\<exists>i < mbi_mods_count m mbi.
               region_touches (unat (mod_start m (mbi_mods_addr m mbi) i))
                 (unat (mod_end m (mbi_mods_addr m mbi) i) - unat (mod_start m (mbi_mods_addr m mbi) i)) f)))
     \<or> (bit (mbi_flags m mbi) 6
        \<and> region_touches (unat (mbi_mmap_addr m mbi)) (unat (mbi_mmap_length m mbi)) f)"

lemma mmap_loop_chain:
  "mmap_chain m e mmap_end es \<Longrightarrow> pmm_mmap_loop m e mmap_end s = Some (fold (pmm_mmap_entry m) es s)"
  by (induction m e mmap_end es arbitrary: s rule: mmap_chain.induct)
    (simp_all add: pmm_mmap_loop.simps)

lemma mmap_loop_returns:
  assumes "pmm_mmap_loop m e mmap_end s = Some s'"
  shows "\<exists>es. mmap_chain m e mmap_end es"
proof (rule pmm_mmap_loop.raw_induct [where P = "\<lambda>m e mmap_end s s'. \<exists>es. mmap_chain m e mmap_end es", OF _ assms])
  fix loop m e mmap_end s s'
  assume IH: "\<And>m e mmap_end s s'. loop m e mmap_end s = Some s' \<Longrightarrow> \<exists>es. mmap_chain m e mmap_end es"
    and eq: "(if e < mmap_end then loop m (e + mmap_size m e + 4) mmap_end (pmm_mmap_entry m e s) else Some s) = Some s'"
  show "\<exists>es. mmap_chain m e mmap_end es"
  proof (cases "e < mmap_end")
    case True
    with eq IH obtain es where "mmap_chain m (e + mmap_size m e + 4) mmap_end es" by (metis (full_types))
    with True have "mmap_chain m e mmap_end (e # es)" by simp
    then show ?thesis by blast
  next
    case False
    then have "mmap_chain m e mmap_end []" by simp
    then show ?thesis by blast
  qed
qed

lemma total_mmap_entry [simp]: "pmm_total_frames (pmm_mmap_entry m e s) = pmm_total_frames s"
  by (simp add: pmm_mmap_entry_def Let_def)

lemma pmm_wf_mmap_entry [intro]: "pmm_wf s \<Longrightarrow> pmm_wf (pmm_mmap_entry m e s)"
  by (auto simp: pmm_mmap_entry_def Let_def)

lemma used_mmap_entry:
  assumes "pmm_total_frames s = PMM_MAX_FRAMES" and "f < PMM_MAX_FRAMES"
  shows "frame_used (pmm_mmap_entry m e s) f \<longleftrightarrow> frame_used s f \<and> \<not> entry_frees m e f"
proof (cases "mmap_type m e = 1 \<and> mmap_base m e < 0x100000000")
  case False
  then show ?thesis by (auto simp: pmm_mmap_entry_def entry_frees_def Let_def word_less_nat_alt)
next
  case True
  define b where "b = unat (mmap_base m e)"
  define l where "l = unat (mmap_len m e)"
  define len where "len = (let r = mmap_len m e; mx = 0x100000000 - mmap_base m e in if r > mx then mx else r)"
  have b: "b < 4294967296" using True by (simp add: b_def word_less_nat_alt)
  then have "unat (0x100000000 - mmap_base m e) = 4294967296 - b"
    by (simp add: unat_sub word_le_nat_alt b_def)
  then have len: "unat len = min l (4294967296 - b)"
    by (simp add: len_def Let_def l_def word_less_nat_alt)
  have "pmm_mmap_entry m e s = pmm_mark_region (ucast (mmap_base m e)) (ucast len) 0 s"
    using True by (simp add: pmm_mmap_entry_def Let_def len_def)
  then have "frame_used (pmm_mmap_entry m e s) f \<longleftrightarrow>
      frame_used s f \<and> \<not> region_covers b (min l (4294967296 - b) mod 4294967296) f"
    using assms b by (simp add: free_mark_region unat_ucast_u32 len flip: b_def)
  moreover have "region_covers b (min l (4294967296 - b) mod 4294967296) f \<longleftrightarrow> entry_frees m e f"
  proof (cases "b = 0 \<and> 4294967296 \<le> l")
    case True
    then have "mmap_base m e = 0" by (simp add: b_def unat_eq_zero)
    with True show ?thesis by (simp add: entry_frees_def region_covers_def l_def)
  next
    case False
    then have "min l (4294967296 - b) < 4294967296" by (auto simp: min_def)
    moreover have "\<not> (mmap_base m e = 0 \<and> 4294967296 \<le> unat (mmap_len m e))"
      using False by (auto simp: b_def l_def)
    ultimately show ?thesis
      using True b assms(2)
      by (auto simp: entry_frees_def region_covers_def b_def [symmetric] l_def [symmetric]
          nat_of_word PMM_MAX_FRAMES_def)
  qed
  ultimately show ?thesis by simp
qed

lemma fold_mmap_entries:
  assumes "pmm_total_frames s = PMM_MAX_FRAMES" and "f < PMM_MAX_FRAMES"
  shows "frame_used (fold (pmm_mmap_entry m) es s) f \<longleftrightarrow> frame_used s f \<and> \<not> (\<exists>e\<in>set es. entry_frees m e f)"
  using assms by (induction es arbitrary: s) (auto simp: used_mmap_entry)

lemma fold_mmap_wf [intro]: "pmm_wf s \<Longrightarrow> pmm_wf (fold (pmm_mmap_entry m) es s)"
  by (induction es arbitrary: s) auto

lemma fold_mmap_total [simp]: "pmm_total_frames (fold (pmm_mmap_entry m) es s) = pmm_total_frames s"
  by (induction es arbitrary: s) auto

lemma bit_flags:
  "bit (x :: u32) 3 \<longleftrightarrow> x AND 8 \<noteq> 0"
  "bit (x :: u32) 6 \<longleftrightarrow> x AND 64 \<noteq> 0"
  by (simp_all add: bit_iff_and_push_bit_not_eq_0)

lemma used_init_bitmap:
  assumes "f < PMM_MAX_FRAMES"
  shows "frame_used (pmm_init_bitmap s) f"
proof -
  have fill: "for_u32 0 131072 (\<lambda>i b. b(i := 255)) b x = (if unat x < 131072 then 255 else b x)"
    for b :: "u32 \<Rightarrow> u8" and x
    using for_u32_fill [of 0 131072 0 "\<lambda>_. 255" b x] by simp
  have "unat (pmm_bit_index f) < 131072"
    using assms by (simp add: pmm_bit_index_def drop_bit_eq_div unat_div nat_of_word PMM_MAX_FRAMES_def)
  then have "pmm_bitmap (pmm_init_bitmap s) (pmm_bit_index f) = 255"
    by (simp add: pmm_init_bitmap_def PMM_MAX_FRAMES_def fill)
  moreover have "bit (255 :: u8) n" if "n < 8" for n
  proof -
    have "(255 :: u8) = mask 8" by (simp add: mask_eq_decr_exp)
    then have "bit (255 :: u8) n = bit (mask 8 :: u8) n" by simp
    with that show ?thesis by (simp only: bit_mask_iff) simp
  qed
  ultimately show ?thesis using unat_and_7 [of f] by (simp add: frame_used_bit)
qed

lemma total_init_bitmap [simp]: "pmm_total_frames (pmm_init_bitmap s) = pmm_total_frames s"
  by (simp add: pmm_init_bitmap_def)

lemma pmm_wf_init_bitmap:
  assumes "pmm_total_frames s = PMM_MAX_FRAMES"
  shows "pmm_wf (pmm_init_bitmap s)"
proof -
  have "free_set (pmm_init_bitmap s) = {}"
    using assms by (auto simp: free_set_def used_init_bitmap)
  moreover have "pmm_free_frames (pmm_init_bitmap s) = 0" by (simp add: pmm_init_bitmap_def)
  ultimately show ?thesis using assms by (simp add: pmm_wf_def)
qed

lemma total_mark_module [simp]: "pmm_total_frames (pmm_mark_module m mods i s) = pmm_total_frames s"
  by (simp add: pmm_mark_module_def Let_def)

lemma pmm_wf_mark_module [intro]: "pmm_wf s \<Longrightarrow> pmm_wf (pmm_mark_module m mods i s)"
  by (auto simp: pmm_mark_module_def Let_def)

lemma used_mark_range:
  assumes "pmm_total_frames s = PMM_MAX_FRAMES" and "f < PMM_MAX_FRAMES"
  shows "frame_used (if b > a then pmm_mark_region a (b - a) 1 s else s) f
    \<longleftrightarrow> frame_used s f \<or> region_touches (unat a) (unat b - unat a) f"
proof (cases "b > a")
  case True
  then have "unat (b - a) = unat b - unat a" by (simp add: unat_sub_le nat_of_word)
  with True assms show ?thesis by (simp add: used_mark_region)
next
  case False
  then have "unat b - unat a = 0" by (simp add: nat_of_word)
  with False show ?thesis by (auto simp: region_touches_def)
qed

lemma used_mark_modules:
  assumes "pmm_total_frames s = PMM_MAX_FRAMES" and "f < PMM_MAX_FRAMES"
  shows "frame_used (for_u32 0 n (pmm_mark_module m mods) s) f \<longleftrightarrow> frame_used s f \<or>
    (\<exists>i < n. region_touches (unat (mod_start m mods i)) (unat (mod_end m mods i) - unat (mod_start m mods i)) f)"
proof -
  let ?T = "\<lambda>i. region_touches (unat (mod_start m mods i)) (unat (mod_end m mods i) - unat (mod_start m mods i)) f"
  let ?P = "\<lambda>n t. pmm_total_frames t = PMM_MAX_FRAMES \<and> (frame_used t f \<longleftrightarrow> frame_used s f \<or> (\<exists>i < n. ?T i))"
  have "?P n (for_u32 0 n (pmm_mark_module m mods) s)"
  proof (rule for_u32_invariant [where P = ?P])
    fix i t
    assume i: "i < n" and P: "?P i t"
    then have "frame_used (pmm_mark_module m mods i t) f \<longleftrightarrow> frame_used t f \<or> ?T i"
      using assms by (simp add: pmm_mark_module_def Let_def used_mark_range)
    with P i show "?P (i + 1) (pmm_mark_module m mods i t)"
      by (auto simp: less_suc_iff)
  qed (use assms in auto)
  then show ?thesis by simp
qed

lemma total_for_modules [simp]:
  "pmm_total_frames (for_u32 0 n (pmm_mark_module m mods) s) = pmm_total_frames s"
  by (rule for_u32_preserves [where P = "\<lambda>t. pmm_total_frames t = pmm_total_frames s"]) simp_all

lemma used_reserve:
  assumes "pmm_total_frames s = PMM_MAX_FRAMES" and "f < PMM_MAX_FRAMES"
  shows "frame_used (pmm_reserve m mbi ks ke s) f \<longleftrightarrow> frame_used s f \<or> reserved m mbi ks ke f"
proof -
  have low: "region_touches 0 1048576 f \<longleftrightarrow> unat f < 256"
    by (auto simp: region_touches_def)
  show ?thesis
    using assms
    by (simp add: pmm_reserve_def Let_def bit_flags reserved_def used_mark_region used_mark_range
        used_mark_modules low sizeof_multiboot_info_def sizeof_multiboot_module_def)
qed

lemma pmm_wf_for_modules [intro]: "pmm_wf s \<Longrightarrow> pmm_wf (for_u32 0 n (pmm_mark_module m mods) s)"
  by (rule for_u32_preserves [where P = pmm_wf]) auto

lemma pmm_wf_reserve [intro]: "pmm_wf s \<Longrightarrow> pmm_wf (pmm_reserve m mbi ks ke s)"
  by (simp add: pmm_reserve_def Let_def pmm_wf_mark_region pmm_wf_for_modules)

text \<open>
  What \<open>pmm_init\<close> computes, when the memory map is a finite chain of entries: a frame is left free
  exactly when some available entry covers it and nothing reserved touches it.
\<close>

definition mmap_entries :: "mem \<Rightarrow> u32 \<Rightarrow> u32 list \<Rightarrow> bool" where
  "mmap_entries m mbi es \<longleftrightarrow>
     (if bit (mbi_flags m mbi) 6
      then mmap_chain m (mbi_mmap_addr m mbi) (mbi_mmap_addr m mbi + mbi_mmap_length m mbi) es
      else es = [])"

lemma pmm_init_eq:
  assumes "mmap_entries m mbi es"
  shows "pmm_init m mbi ks ke s =
    Some (pmm_reserve m mbi ks ke (fold (pmm_mmap_entry m) es (pmm_init_bitmap s)))"
  using assms
  by (simp add: pmm_init_def mmap_entries_def bit_flags mmap_loop_chain split: if_splits)

lemma pmm_init_wf:
  assumes "pmm_total_frames s = PMM_MAX_FRAMES" and "mmap_entries m mbi es"
    and "pmm_init m mbi ks ke s = Some s'"
  shows "pmm_wf s'"
  using assms pmm_wf_init_bitmap [OF assms(1)] by (auto simp: pmm_init_eq)

lemma pmm_init_used:
  assumes "pmm_total_frames s = PMM_MAX_FRAMES" and "mmap_entries m mbi es"
    and "pmm_init m mbi ks ke s = Some s'" and "f < PMM_MAX_FRAMES"
  shows "frame_used s' f \<longleftrightarrow> \<not> (\<exists>e\<in>set es. entry_frees m e f) \<or> reserved m mbi ks ke f"
  using assms
  by (auto simp: pmm_init_eq used_reserve fold_mmap_entries used_init_bitmap)

section \<open>Allocation\<close>

lemma alloc_from_spec:
  assumes "pmm_alloc_from frame s = (a, s')" and "pmm_total_frames s \<le> PMM_MAX_FRAMES"
  shows "(\<exists>f. f \<in> free_set s \<and> frame \<le> f \<and> (\<forall>g \<in> free_set s. frame \<le> g \<longrightarrow> f \<le> g)
          \<and> a = f * PMM_FRAME_SIZE \<and> s' = pmm_mark_frame_used f s)
       \<or> (a = 0 \<and> s' = s \<and> (\<forall>g \<in> free_set s. \<not> frame \<le> g))"
  using assms
proof (induction frame s rule: pmm_alloc_from.induct)
  case (1 frame s)
  show ?case
  proof (cases "frame < pmm_total_frames s")
    case False
    with "1.prems" show ?thesis by (auto simp: pmm_alloc_from.simps [of frame s] free_set_def)
  next
    case True
    show ?thesis
    proof (cases "frame_used s frame")
      case False
      with True "1.prems" show ?thesis
        by (auto simp: pmm_alloc_from.simps [of frame s] frame_used_def free_set_def)
    next
      case used: True
      have step: "frame + 1 \<le> g \<longleftrightarrow> frame \<le> g" if "g \<in> free_set s" for g
      proof -
        have "g \<noteq> frame" using used that by (auto simp: free_set_def)
        then have "unat g \<noteq> unat frame" by (simp add: word_unat_eq_iff)
        with True show ?thesis by (auto simp: nat_of_word unat_suc_less)
      qed
      have "pmm_alloc_from (frame + 1) s = (a, s')"
        using True used "1.prems" by (simp add: pmm_alloc_from.simps [of frame s] frame_used_def)
      then have "(\<exists>f. f \<in> free_set s \<and> frame + 1 \<le> f \<and> (\<forall>g \<in> free_set s. frame + 1 \<le> g \<longrightarrow> f \<le> g)
          \<and> a = f * PMM_FRAME_SIZE \<and> s' = pmm_mark_frame_used f s)
         \<or> (a = 0 \<and> s' = s \<and> (\<forall>g \<in> free_set s. \<not> frame + 1 \<le> g))"
        using True used "1.prems" "1.IH" by (simp add: frame_used_def)
      with step show ?thesis by metis
    qed
  qed
qed

text \<open>The allocator hands out the lowest free frame, or fails and changes nothing.\<close>

lemma alloc_frame_cases:
  assumes "pmm_wf s"
  obtains f where "f \<in> free_set s" "\<forall>g \<in> free_set s. f \<le> g"
      "pmm_alloc_frame s = (f * PMM_FRAME_SIZE, pmm_mark_frame_used f s)"
    | "free_set s = {}" "pmm_alloc_frame s = (0, s)"
proof -
  obtain a s' where a: "pmm_alloc_from 0 s = (a, s')" by fastforce
  have "pmm_total_frames s \<le> PMM_MAX_FRAMES" using assms by (simp add: pmm_wf_def)
  from alloc_from_spec [OF a this] a that show ?thesis
    by (fastforce simp: pmm_alloc_frame_def)
qed

lemma alloc_from_fewer:
  "pmm_alloc_from frame s = (a, s') \<Longrightarrow> a \<noteq> 0 \<Longrightarrow> card (free_set s') < card (free_set s)"
proof (induction frame s rule: pmm_alloc_from.induct)
  case (1 frame s)
  show ?case
  proof (cases "frame < pmm_total_frames s \<and> \<not> frame_used s frame")
    case True
    then have "frame \<in> free_set s" by (simp add: free_set_def)
    moreover have "s' = pmm_mark_frame_used frame s"
      using True "1.prems" by (simp add: pmm_alloc_from.simps [of frame s] frame_used_def)
    ultimately show ?thesis by (simp add: free_set_mark_used card_Diff1_less del: card_Diff_insert)
  next
    case False
    with "1.prems" "1.IH" show ?thesis
      by (auto simp: pmm_alloc_from.simps [of frame s] frame_used_def split: if_splits)
  qed
qed

lemma alloc_frame_fewer:
  "pmm_alloc_frame s = (a, s') \<Longrightarrow> a \<noteq> 0 \<Longrightarrow> card (free_set s') < card (free_set s)"
  unfolding pmm_alloc_frame_def by (rule alloc_from_fewer)

lemma free_set_bound: "pmm_wf s \<Longrightarrow> f \<in> free_set s \<Longrightarrow> unat f < 1048576"
  by (simp add: pmm_wf_def free_set_def nat_of_word PMM_MAX_FRAMES_def)

lemma unat_frame_addr:
  "unat f < 1048576 \<Longrightarrow> unat (f * PMM_FRAME_SIZE) = unat f * 4096"
  by (simp add: unat_word_ariths PMM_FRAME_SIZE_def)

lemma frame_of_addr: "unat f < 1048576 \<Longrightarrow> f * PMM_FRAME_SIZE div 4096 = f"
  by (simp add: word_unat_eq_iff unat_div unat_frame_addr)

text \<open>The manager provides the frame-source contract.\<close>

interpretation pf: frame_source pmm_alloc_frame free_set pmm_wf
proof
  fix p a q
  assume wf: "pmm_wf p" and al: "pmm_alloc_frame p = (a, q)"
  from wf consider f where "f \<in> free_set p" "a = f * PMM_FRAME_SIZE" "q = pmm_mark_frame_used f p"
      "unat f < 1048576"
    | "free_set p = {}" "a = 0" "q = p"
    using al free_set_bound [OF wf] by (cases rule: alloc_frame_cases) auto
  note alloc = this
  show "pmm_wf q" using alloc wf by cases auto
  show "unat a mod 4096 = 0" using alloc by cases (simp_all add: unat_frame_addr)
  show "a div 4096 \<in> free_set p" if "a \<noteq> 0"
    using alloc that by cases (simp_all add: frame_of_addr)
  show "free_set q = free_set p - {a div 4096}"
    using alloc by cases (simp_all add: frame_of_addr free_set_mark_used)
next
  fix p q
  assume wf: "pmm_wf p" and al: "pmm_alloc_frame p = (0, q)"
  from wf show "free_set p = {} \<or> 0 \<in> free_set p"
  proof (cases rule: alloc_frame_cases)
    case (1 f)
    then have "unat f < 1048576" using wf by (auto dest: free_set_bound)
    moreover have "f * PMM_FRAME_SIZE = 0" using 1 al by simp
    ultimately have "f = 0" using frame_of_addr [of f] by simp
    with 1 show ?thesis by simp
  qed simp
qed

section \<open>A sample state and memory map\<close>

text \<open>A manager with the single free frame 256, and a boot record whose map has one entry.\<close>

definition pmm_sample :: pmm where
  "pmm_sample = pmm_mark_frame_free 256 (pmm_init_bitmap pmm_boot)"

definition mbi_sample :: mem where
  "mbi_sample a =
     (if a = 0x9000 then 0x40 else if a = 0x902C then 24 else if a = 0x9031 then 0x91
      else if a = 0x9100 then 20 else if a = 0x9106 then 0x10 else if a = 0x910F then 1
      else if a = 0x9114 then 1 else 0)"

lemma wf_init_boot: "pmm_wf (pmm_init_bitmap pmm_boot)"
  by (rule pmm_wf_init_bitmap) (simp add: pmm_boot_def)

lemma free_init_boot: "free_set (pmm_init_bitmap pmm_boot) = {}"
  using used_init_bitmap [of _ pmm_boot] by (auto simp: free_set_def pmm_boot_def)

lemma pmm_sample_wf: "pmm_wf pmm_sample" and pmm_sample_free: "free_set pmm_sample = {256}"
  using wf_init_boot free_init_boot
  by (auto simp: pmm_sample_def free_set_mark_free pmm_boot_def PMM_MAX_FRAMES_def)

lemma mbi_sample_entries: "mmap_entries mbi_sample 0x9000 [0x9100]"
  by (simp add: mmap_entries_def bit_flags mbi_flags_def mbi_mmap_addr_def mbi_mmap_length_def
      mmap_size_def read_u32_def mbi_sample_def)

section \<open>Properties\<close>



text \<open>
  C30. \<open>pmm_init\<close> returns exactly when the memory map it is given is a finite
  chain: the loop follows the entry sizes stored in the map and has no other bound.
\<close>

theorem pmm_init_returns_iff:
  "(\<exists>s'. pmm_init m mbi ks ke s = Some s') \<longleftrightarrow> (\<exists>es. mmap_entries m mbi es)"
proof
  assume "\<exists>s'. pmm_init m mbi ks ke s = Some s'"
  then show "\<exists>es. mmap_entries m mbi es"
  proof (cases "bit (mbi_flags m mbi) 6")
    case True
    with \<open>\<exists>s'. pmm_init m mbi ks ke s = Some s'\<close>
    obtain t where "pmm_mmap_loop m (mbi_mmap_addr m mbi) (mbi_mmap_addr m mbi + mbi_mmap_length m mbi)
        (pmm_init_bitmap s) = Some t"
      by (auto simp: pmm_init_def bit_flags bind_eq_Some_conv)
    with True show ?thesis by (simp add: mmap_entries_def mmap_loop_returns)
  qed (simp add: mmap_entries_def)
qed (auto simp: pmm_init_eq)

text \<open>
  C29. The allocator hands out the lowest free frame, takes it and only it out of
  the free set and keeps the count exact; with no free frame it returns 0 and changes nothing.
\<close>

theorem pmm_alloc_lowest:
  assumes "pmm_wf s"
  shows "if free_set s = {} then pmm_alloc_frame s = (0, s)
    else \<exists>f s'. f \<in> free_set s \<and> (\<forall>g \<in> free_set s. f \<le> g) \<and> pmm_alloc_frame s = (f * PMM_FRAME_SIZE, s')
      \<and> unat (f * PMM_FRAME_SIZE) = unat f * 4096 \<and> pmm_wf s' \<and> free_set s' = free_set s - {f}
      \<and> unat (pmm_get_free_frames s') = unat (pmm_get_free_frames s) - 1"
  using assms
proof (cases rule: alloc_frame_cases)
  case (1 f)
  let ?s' = "pmm_mark_frame_used f s"
  have "unat f < 1048576" using 1 free_set_bound [OF assms] by blast
  moreover have "pmm_wf ?s'" using assms by blast
  moreover from this have "unat (pmm_get_free_frames ?s') = unat (pmm_get_free_frames s) - 1"
    using assms 1(1) by (simp add: pmm_wf_def pmm_get_free_frames_def free_set_mark_used)
  ultimately show ?thesis using 1 by (auto simp: unat_frame_addr free_set_mark_used)
qed simp

theorem pmm_alloc_lowest_witness:
  "pmm_wf pmm_sample \<and> (\<exists>f s'. f \<in> free_set pmm_sample \<and> (\<forall>g \<in> free_set pmm_sample. f \<le> g)
      \<and> pmm_alloc_frame pmm_sample = (f * PMM_FRAME_SIZE, s')
      \<and> unat (f * PMM_FRAME_SIZE) = unat f * 4096 \<and> pmm_wf s' \<and> free_set s' = free_set pmm_sample - {f}
      \<and> unat (pmm_get_free_frames s') = unat (pmm_get_free_frames pmm_sample) - 1)"
  using pmm_alloc_lowest [OF pmm_sample_wf] pmm_sample_wf pmm_sample_free by simp

text \<open>
  Returning a frame makes it and only it available; returning it twice changes
  nothing more; and the frame is what the next call hands out when it is below every other free one.
\<close>

theorem pmm_free_reuse:
  assumes wf: "pmm_wf s" and al: "unat a mod 4096 = 0"
  shows "pmm_wf (pmm_free_frame a s) \<and> free_set (pmm_free_frame a s) = insert (a div 4096) (free_set s)
    \<and> pmm_free_frame a (pmm_free_frame a s) = pmm_free_frame a s
    \<and> ((\<forall>g \<in> free_set s. a div 4096 \<le> g) \<longrightarrow> fst (pmm_alloc_frame (pmm_free_frame a s)) = a)"
proof -
  have f: "unat (a div 4096) < 1048576" using unat_less_2p32 [of a] by (simp add: unat_div)
  then have tot: "a div 4096 < pmm_total_frames s" using wf by (simp add: pmm_wf_def nat_of_word PMM_MAX_FRAMES_def)
  have wf': "pmm_wf (pmm_free_frame a s)" using wf by (auto simp: pmm_free_frame_def)
  have free: "free_set (pmm_free_frame a s) = insert (a div 4096) (free_set s)"
    using tot by (simp add: pmm_free_frame_def PMM_FRAME_SIZE_def free_set_mark_free)
  have "\<not> frame_used (pmm_free_frame a s) (a div 4096)" using free by (auto simp: free_set_def)
  then have twice: "pmm_free_frame a (pmm_free_frame a s) = pmm_free_frame a s"
    by (simp add: pmm_free_frame_def [of _ "pmm_free_frame a s"] pmm_mark_frame_free_def frame_used_def
        PMM_FRAME_SIZE_def Let_def)
  have "unat (a div 4096 * PMM_FRAME_SIZE) = unat a"
    using al unat_frame_addr [OF f] mult_div_mod_eq [of 4096 "unat a"] by (simp add: unat_div)
  then have ret: "a div 4096 * PMM_FRAME_SIZE = a" by (simp add: word_unat_eq_iff)
  have "fst (pmm_alloc_frame (pmm_free_frame a s)) = a" if "\<forall>g \<in> free_set s. a div 4096 \<le> g"
    using wf'
  proof (cases rule: alloc_frame_cases)
    case (1 g)
    with that free have "g = a div 4096" by (metis insert_iff order_antisym)
    with 1 ret show ?thesis by simp
  qed (use free in simp)
  with wf' free twice show ?thesis by blast
qed

theorem pmm_free_reuse_witness:
  "pmm_wf pmm_sample \<and> pmm_wf (pmm_free_frame 0x5000 pmm_sample)
    \<and> free_set (pmm_free_frame 0x5000 pmm_sample) = insert (0x5000 div 4096) (free_set pmm_sample)
    \<and> pmm_free_frame 0x5000 (pmm_free_frame 0x5000 pmm_sample) = pmm_free_frame 0x5000 pmm_sample
    \<and> fst (pmm_alloc_frame (pmm_free_frame 0x5000 pmm_sample)) = 0x5000"
  using pmm_free_reuse [OF pmm_sample_wf, of "0x5000"] pmm_sample_wf pmm_sample_free by simp

end
