(* ===== verification/Kheap.thy ===== *)
theory Kheap
  imports Pmm
begin

text \<open>
  The kernel heap, \<open>memory/heap.c\<close>: a singly linked list of blocks whose headers lie in the frames
  obtained from the physical memory manager, just before the bytes they describe.
\<close>

section \<open>State and block headers\<close>

text \<open>The memory the blocks live in, the frame allocator and the static \<open>heap_head\<close>.\<close>

record heap =
  hmem :: mem
  hpmm :: pmm
  heap_head :: u32

text \<open>
  \<open>struct heap_block { uint32_t size; uint8_t free; struct heap_block* next; }\<close>: on i386 the fields
  are at offsets 0, 4 and 8 and the structure has 12 bytes.
\<close>

definition sizeof_heap_block :: u32 where "sizeof_heap_block = 12"

definition hb_size :: "mem \<Rightarrow> u32 \<Rightarrow> u32" where "hb_size m b = read_u32 m b"
definition hb_free :: "mem \<Rightarrow> u32 \<Rightarrow> u8" where "hb_free m b = m (b + 4)"
definition hb_next :: "mem \<Rightarrow> u32 \<Rightarrow> u32" where "hb_next m b = read_u32 m (b + 8)"

definition hb_set_size :: "u32 \<Rightarrow> u32 \<Rightarrow> mem \<Rightarrow> mem" where "hb_set_size b v m = write_u32 m b v"
definition hb_set_free :: "u32 \<Rightarrow> u8 \<Rightarrow> mem \<Rightarrow> mem" where "hb_set_free b v m = m(b + 4 := v)"
definition hb_set_next :: "u32 \<Rightarrow> u32 \<Rightarrow> mem \<Rightarrow> mem" where "hb_set_next b v m = write_u32 m (b + 8) v"

section \<open>Helpers\<close>

definition align8 :: "u32 \<Rightarrow> u32" where
  "align8 sz = (sz + 7) AND NOT 7"

definition mem_zero :: "u32 \<Rightarrow> u32 \<Rightarrow> mem \<Rightarrow> mem" where
  "mem_zero ptr sz m = for_u32 0 sz (\<lambda>i m. m(ptr + i := 0)) m"

definition mem_copy :: "u32 \<Rightarrow> u32 \<Rightarrow> u32 \<Rightarrow> mem \<Rightarrow> mem" where
  "mem_copy dst src sz m = for_u32 0 sz (\<lambda>i m. m(dst + i := m (src + i))) m"

text \<open>
  The list walks end only if the list in memory does: \<open>None\<close> is a walk that goes on for ever.
\<close>

partial_function (option) last_block_from :: "mem \<Rightarrow> u32 \<Rightarrow> u32 option" where
  "last_block_from m current =
     (if hb_next m current \<noteq> 0 then last_block_from m (hb_next m current) else Some current)"

definition heap_last_block :: "heap \<Rightarrow> u32 option" where
  "heap_last_block s =
     (let current = heap_head s
      in if current = 0 then Some 0 else last_block_from (hmem s) current)"

section \<open>Growing the heap\<close>

text \<open>The three stores that turn a fresh frame into one free block.\<close>

definition init_block :: "u32 \<Rightarrow> mem \<Rightarrow> mem" where
  "init_block block m =
     hb_set_next block 0 (hb_set_free block 1 (hb_set_size block (PMM_FRAME_SIZE - sizeof_heap_block) m))"

text \<open>The loop takes one frame per round, so the number of free frames bounds it.\<close>

function heap_grow_loop :: "u32 \<Rightarrow> u32 \<Rightarrow> heap \<Rightarrow> heap" where
  "heap_grow_loop min_payload block s =
     (if hb_size (hmem s) block < min_payload then
        let (next_frame, p) = pmm_alloc_frame (hpmm s); s = s\<lparr>hpmm := p\<rparr>
        in if next_frame = 0 then s
           else heap_grow_loop min_payload next_frame
                  (s\<lparr>hmem := hb_set_next block next_frame (init_block next_frame (hmem s))\<rparr>)
      else s)"
  by pat_completeness auto
termination
  by (relation "measure (\<lambda>(_, _, s). card (free_set (hpmm s)))")
    (auto dest: alloc_frame_fewer [OF sym])

declare heap_grow_loop.simps [simp del]

definition heap_grow :: "u32 \<Rightarrow> heap \<Rightarrow> u32 \<times> heap" where
  "heap_grow min_payload s =
     (let (frame_addr, p) = pmm_alloc_frame (hpmm s); s = s\<lparr>hpmm := p\<rparr>
      in if frame_addr = 0 then (0, s)
         else (frame_addr,
               heap_grow_loop min_payload frame_addr (s\<lparr>hmem := init_block frame_addr (hmem s)\<rparr>)))"

section \<open>Splitting and coalescing\<close>

definition split_block :: "u32 \<Rightarrow> u32 \<Rightarrow> mem \<Rightarrow> mem" where
  "split_block block wanted_size m =
     (if block = 0 then m
      else if hb_size m block \<le> wanted_size + sizeof_heap_block + 8 then m
      else
        let remaining = hb_size m block - wanted_size - sizeof_heap_block;
            new_block = block + sizeof_heap_block + wanted_size;
            m = hb_set_size new_block remaining m;
            m = hb_set_free new_block 1 m;
            m = hb_set_next new_block (hb_next m block) m;
            m = hb_set_size block wanted_size m
        in hb_set_next block new_block m)"

partial_function (option) coalesce_from :: "u32 \<Rightarrow> mem \<Rightarrow> mem option" where
  "coalesce_from current m =
     (if current \<noteq> 0 \<and> hb_next m current \<noteq> 0 then
        let current_end = current + sizeof_heap_block + hb_size m current
        in if hb_free m current \<noteq> 0 \<and> hb_free m (hb_next m current) \<noteq> 0 \<and> current_end = hb_next m current
           then
             let m = hb_set_size current
                       (hb_size m current + (sizeof_heap_block + hb_size m (hb_next m current))) m;
                 m = hb_set_next current (hb_next m (hb_next m current)) m
             in coalesce_from current m
           else coalesce_from (hb_next m current) m
      else Some m)"

definition coalesce_blocks :: "heap \<Rightarrow> heap option" where
  "coalesce_blocks s =
     do {
       m \<leftarrow> coalesce_from (heap_head s) (hmem s);
       Some (s\<lparr>hmem := m\<rparr>)
     }"

section \<open>The allocation interface\<close>

definition heap_init :: "heap \<Rightarrow> heap" where
  "heap_init s =
     (if heap_head s \<noteq> 0 then s
      else let (h, s) = heap_grow 64 s in s\<lparr>heap_head := h\<rparr>)"

text \<open>The first-fit search of \<open>kmalloc\<close>: the block it stops at, or 0 when the list has no fit.\<close>

partial_function (option) find_fit :: "mem \<Rightarrow> u32 \<Rightarrow> u32 \<Rightarrow> u32 option" where
  "find_fit m wanted_size current =
     (if current \<noteq> 0 then
        if hb_free m current \<noteq> 0 \<and> wanted_size \<le> hb_size m current then Some current
        else if hb_next m current = 0 then Some 0
        else find_fit m wanted_size (hb_next m current)
      else Some 0)"

partial_function (option) kmalloc :: "u32 \<Rightarrow> heap \<Rightarrow> (u32 \<times> heap) option" where
  "kmalloc sz s =
     (if sz = 0 then Some (0, s)
      else
        let wanted_size = align8 sz;
            s = (if heap_head s = 0 then heap_init s else s)
        in if heap_head s = 0 then Some (0, s)
           else
             Option.bind (find_fit (hmem s) wanted_size (heap_head s)) (\<lambda>current.
               if current \<noteq> 0
               then Some (current + sizeof_heap_block,
                      s\<lparr>hmem := hb_set_free current 0 (split_block current wanted_size (hmem s))\<rparr>)
               else
                 let (new_chunk, s) = heap_grow wanted_size s
                 in Option.bind (heap_last_block s) (\<lambda>tail.
                      if new_chunk = 0 then Some (0, s)
                      else kmalloc wanted_size
                             (if tail = 0 then s\<lparr>heap_head := new_chunk\<rparr>
                              else s\<lparr>hmem := hb_set_next tail new_chunk (hmem s)\<rparr>))))"

definition kcalloc :: "u32 \<Rightarrow> u32 \<Rightarrow> heap \<Rightarrow> (u32 \<times> heap) option" where
  "kcalloc count sz s =
     (if count = 0 \<or> sz = 0 then Some (0, s)
      else
        let total = count * sz
        in if sz \<noteq> 0 \<and> total div sz \<noteq> count then Some (0, s)
           else
             do {
               (ptr, s) \<leftarrow> kmalloc total s;
               Some (ptr, if ptr \<noteq> 0 then s\<lparr>hmem := mem_zero ptr total (hmem s)\<rparr> else s)
             })"

definition kfree :: "u32 \<Rightarrow> heap \<Rightarrow> heap option" where
  "kfree ptr s =
     (if ptr = 0 then Some s
      else coalesce_blocks (s\<lparr>hmem := hb_set_free (ptr - sizeof_heap_block) 1 (hmem s)\<rparr>))"

definition krealloc :: "u32 \<Rightarrow> u32 \<Rightarrow> heap \<Rightarrow> (u32 \<times> heap) option" where
  "krealloc ptr sz s =
     (if ptr = 0 then kmalloc sz s
      else if sz = 0 then do { s \<leftarrow> kfree ptr s; Some (0, s) }
      else
        let block = ptr - sizeof_heap_block
        in if sz \<le> hb_size (hmem s) block then Some (ptr, s)
           else
             do {
               (new_ptr, s) \<leftarrow> kmalloc sz s;
               if new_ptr = 0 then Some (0, s)
               else
                 do {
                   s \<leftarrow> kfree ptr (s\<lparr>hmem := mem_copy new_ptr ptr (hb_size (hmem s) block) (hmem s)\<rparr>);
                   Some (new_ptr, s)
                 }
             })"

end
