(* ===== verification/Kheap_Inv.thy ===== *)
theory Kheap_Inv
  imports Kheap
begin

text \<open>
  The heap invariant and its preservation: the list of blocks in memory as an abstract list, the
  block headers and payloads as disjoint address ranges inside frames the manager has handed out,
  and what every operation of \<open>memory/heap.c\<close> does to that list.
\<close>

section \<open>The block list\<close>

text \<open>The blocks as the list in memory describes them.\<close>

datatype blk = Blk (addr: u32) (bsize: u32) (bfree: bool)

fun hseg :: "mem \<Rightarrow> u32 \<Rightarrow> blk list \<Rightarrow> u32 \<Rightarrow> bool" where
  "hseg m p [] q \<longleftrightarrow> p = q"
| "hseg m p (b # bs) q \<longleftrightarrow>
     p \<noteq> 0 \<and> b = Blk p (hb_size m p) (hb_free m p \<noteq> 0) \<and> hseg m (hb_next m p) bs q"

definition header :: "blk \<Rightarrow> u32 set" where "header b = span (addr b) 12"
definition extent :: "blk \<Rightarrow> u32 set" where "extent b = span (addr b) (12 + unat (bsize b))"
definition payload :: "blk \<Rightarrow> u32 set" where "payload b = span (addr b + 12) (unat (bsize b))"

text \<open>
  A block lies above the first frame, its payload starts at a non-null address and it does not
  reach past the top of memory.
\<close>

definition blk_ok :: "blk \<Rightarrow> bool" where
  "blk_ok b \<longleftrightarrow> 4096 \<le> unat (addr b) \<and> unat (addr b) + 12 < 4294967296
     \<and> unat (addr b) + 12 + unat (bsize b) \<le> 4294967296"

fun apart :: "blk list \<Rightarrow> bool" where
  "apart [] \<longleftrightarrow> True"
| "apart (b # bs) \<longleftrightarrow> (\<forall>c \<in> set bs. extent b \<inter> extent c = {}) \<and> apart bs"

text \<open>Every byte of every block lies in a frame that the manager does not consider free.\<close>

definition frames_held :: "pmm \<Rightarrow> blk list \<Rightarrow> bool" where
  "frames_held p bs \<longleftrightarrow> (\<forall>b \<in> set bs. \<forall>x \<in> extent b. x div 4096 \<notin> free_set p)"

definition blks_ok :: "blk list \<Rightarrow> bool" where
  "blks_ok bs \<longleftrightarrow> (\<forall>b \<in> set bs. blk_ok b) \<and> apart bs"

definition heap_inv :: "heap \<Rightarrow> blk list \<Rightarrow> bool" where
  "heap_inv s bs \<longleftrightarrow> hseg (hmem s) (heap_head s) bs 0 \<and> blks_ok bs
     \<and> pmm_wf (hpmm s) \<and> frames_held (hpmm s) bs"

text \<open>The blocks in use.\<close>

definition live :: "blk list \<Rightarrow> blk set" where
  "live bs = {b \<in> set bs. \<not> bfree b}"

section \<open>Header loads and stores\<close>

lemma span_offset: "unat i < n \<Longrightarrow> a + i \<in> span a n"
  by (simp add: span_def)

lemma header_bytes:
  "span b 4 \<subseteq> span b 12" "b + 4 \<in> span b 12" "span (b + 8) 4 \<subseteq> span b 12"
  by (auto simp: span_4 add.assoc intro: span_offset)

lemma hb_cong:
  assumes "\<And>x. x \<in> span b 12 \<Longrightarrow> m' x = m x"
  shows "hb_size m' b = hb_size m b" "hb_free m' b = hb_free m b" "hb_next m' b = hb_next m b"
  using assms header_bytes [of b]
  by (auto simp: hb_size_def hb_free_def hb_next_def intro!: read_u32_cong)

lemma hb_set_outside [simp]:
  assumes "x \<notin> span b 12"
  shows "hb_set_size b v m x = m x" "hb_set_free b w m x = m x" "hb_set_next b v m x = m x"
  using assms header_bytes [of b]
  by (auto simp: hb_set_size_def hb_set_free_def hb_set_next_def intro!: write_u32_outside)

lemma hb_get_set [simp]:
  "hb_size (hb_set_size b v m) b = v" "hb_free (hb_set_size b v m) b = hb_free m b"
  "hb_next (hb_set_size b v m) b = hb_next m b"
  "hb_size (hb_set_free b w m) b = hb_size m b" "hb_free (hb_set_free b w m) b = w"
  "hb_next (hb_set_free b w m) b = hb_next m b"
  "hb_size (hb_set_next b v m) b = hb_size m b" "hb_free (hb_set_next b v m) b = hb_free m b"
  "hb_next (hb_set_next b v m) b = v"
  by (simp_all add: hb_size_def hb_free_def hb_next_def hb_set_size_def hb_set_free_def
      hb_set_next_def read_u32_def write_u32_def add.assoc bytes_u32)

section \<open>Segments of the list\<close>

lemma hseg_append: "hseg m p (xs @ ys) q \<longleftrightarrow> (\<exists>r. hseg m p xs r \<and> hseg m r ys q)"
  by (induction xs arbitrary: p) auto

lemma hseg_cong:
  assumes "hseg m p bs q" and "\<And>b x. b \<in> set bs \<Longrightarrow> x \<in> header b \<Longrightarrow> m' x = m x"
  shows "hseg m' p bs q"
  using assms
proof (induction bs arbitrary: p)
  case Nil
  then show ?case by simp
next
  case (Cons b bs)
  then have "header b = span p 12" by (simp add: header_def)
  with Cons.prems(2) have "hb_size m' p = hb_size m p" "hb_free m' p = hb_free m p" "hb_next m' p = hb_next m p"
    by (auto intro: hb_cong)
  moreover have "hseg m' (hb_next m p) bs q"
    by (rule Cons.IH) (use Cons.prems in auto)
  ultimately show ?case using Cons.prems by simp
qed

lemma header_extent: "header b \<subseteq> extent b"
  unfolding header_def extent_def by (rule span_mono) simp

lemma extent_nowrap:
  "blk_ok b \<Longrightarrow> x \<in> extent b \<longleftrightarrow> unat (addr b) \<le> unat x \<and> unat x < unat (addr b) + 12 + unat (bsize b)"
  by (simp add: extent_def blk_ok_def span_nowrap add.assoc)

lemma header_nowrap:
  "blk_ok b \<Longrightarrow> x \<in> header b \<longleftrightarrow> unat (addr b) \<le> unat x \<and> unat x < unat (addr b) + 12"
  by (simp add: header_def blk_ok_def span_nowrap)

lemma payload_nowrap:
  assumes "blk_ok b"
  shows "x \<in> payload b \<longleftrightarrow> unat (addr b) + 12 \<le> unat x \<and> unat x < unat (addr b) + 12 + unat (bsize b)"
proof (cases "bsize b = 0")
  case True
  then show ?thesis by (simp add: payload_def)
next
  case False
  then have "0 < unat (bsize b)" by (simp add: unat_gt_0)
  with assms have "unat (addr b + 12) = unat (addr b) + 12"
    by (simp add: unat_add_nowrap blk_ok_def)
  with assms show ?thesis by (simp add: payload_def span_nowrap blk_ok_def)
qed

lemma payload_extent: "blk_ok b \<Longrightarrow> payload b \<subseteq> extent b - header b"
  by (auto simp: payload_nowrap extent_nowrap header_nowrap)

lemma addr_in_header: "addr b \<in> header b"
  by (simp add: header_def)

lemma apart_append:
  "apart (xs @ ys) \<longleftrightarrow> apart xs \<and> apart ys \<and> (\<forall>x \<in> set xs. \<forall>y \<in> set ys. extent x \<inter> extent y = {})"
  by (induction xs) auto

lemma apart_same:
  assumes "apart bs" "b \<in> set bs" "c \<in> set bs" "x \<in> extent b" "x \<in> extent c"
  shows "b = c"
  using assms by (induction bs) auto

lemma apart_distinct: "apart bs \<Longrightarrow> distinct bs"
  using header_extent addr_in_header by (induction bs) (auto, blast)

text \<open>
  Replacing one block by others inside its extent: the shape of every change the operations make.
\<close>

lemma hseg_replace:
  assumes seg: "hseg m p (xs @ b # ys) 0" and ap: "apart (xs @ b # ys)"
    and same: "\<And>x. x \<notin> extent b \<Longrightarrow> m' x = m x"
    and new: "hseg m' (addr b) zs (hb_next m (addr b))"
  shows "hseg m' p (xs @ zs @ ys) 0"
proof -
  from seg have "hseg m p xs (addr b)" and "hseg m (hb_next m (addr b)) ys 0"
    by (auto simp: hseg_append)
  moreover have "m' x = m x" if "c \<in> set xs \<or> c \<in> set ys" "x \<in> header c" for c x
  proof -
    from ap that(1) have "extent b \<inter> extent c = {}" by (auto simp: apart_append)
    with that(2) header_extent have "x \<notin> extent b" by blast
    then show ?thesis by (rule same)
  qed
  ultimately have "hseg m' p xs (addr b)" and "hseg m' (hb_next m (addr b)) ys 0"
    by (auto elim!: hseg_cong)
  with new show ?thesis by (auto simp: hseg_append)
qed

lemma blks_ok_replace:
  assumes "blks_ok (xs @ b # ys)" and "blks_ok zs" and "\<And>z. z \<in> set zs \<Longrightarrow> extent z \<subseteq> extent b"
  shows "blks_ok (xs @ zs @ ys)"
  using assms unfolding blks_ok_def apart_append by (simp add: apart_append) blast

lemma frames_held_replace:
  assumes "frames_held p (xs @ b # ys)" and "\<And>z. z \<in> set zs \<Longrightarrow> extent z \<subseteq> extent b"
  shows "frames_held p (xs @ zs @ ys)"
  using assms unfolding frames_held_def by (simp add: ball_Un) blast

section \<open>Walks\<close>

lemma last_block_from_eq:
  "hseg m p bs 0 \<Longrightarrow> bs \<noteq> [] \<Longrightarrow> last_block_from m p = Some (addr (last bs))"
proof (induction bs arbitrary: p)
  case Nil
  then show ?case by simp
next
  case (Cons b bs)
  then have b: "addr b = p" and tl: "hseg m (hb_next m p) bs 0" by auto
  show ?case
  proof (cases bs)
    case Nil
    with b tl show ?thesis by (simp add: last_block_from.simps)
  next
    case (Cons c cs)
    with tl have "hb_next m p \<noteq> 0" by auto
    moreover have "last_block_from m (hb_next m p) = Some (addr (last bs))"
      using Cons.IH tl Cons by simp
    ultimately show ?thesis using Cons by (simp add: last_block_from.simps [of m p])
  qed
qed

lemma heap_last_block_eq:
  "hseg (hmem s) (heap_head s) bs 0 \<Longrightarrow>
    heap_last_block s = Some (if bs = [] then 0 else addr (last bs))"
  using last_block_from_eq [of "hmem s" "heap_head s" bs]
  by (cases bs) (auto simp: heap_last_block_def Let_def)

text \<open>The search stops at the first free block that is large enough.\<close>

definition fits :: "u32 \<Rightarrow> blk \<Rightarrow> bool" where
  "fits w b \<longleftrightarrow> bfree b \<and> w \<le> bsize b"

lemma find_fit_some:
  "hseg m p (xs @ b # ys) 0 \<Longrightarrow> fits w b \<Longrightarrow> (\<forall>c \<in> set xs. \<not> fits w c) \<Longrightarrow>
    find_fit m w p = Some (addr b)"
proof (induction xs arbitrary: p)
  case Nil
  then show ?case by (simp add: find_fit.simps [of m w p] fits_def)
next
  case (Cons c xs)
  then have tl: "hseg m (hb_next m p) (xs @ b # ys) 0" and "p \<noteq> 0" "\<not> fits w c"
    "c = Blk p (hb_size m p) (hb_free m p \<noteq> 0)" by auto
  moreover have "hb_next m p \<noteq> 0" using tl by (cases xs) auto
  moreover have "find_fit m w (hb_next m p) = Some (addr b)"
    using Cons tl by simp
  ultimately show ?case by (auto simp: find_fit.simps [of m w p] fits_def)
qed

lemma find_fit_none:
  "hseg m p bs 0 \<Longrightarrow> (\<forall>c \<in> set bs. \<not> fits w c) \<Longrightarrow> find_fit m w p = Some 0"
proof (induction bs arbitrary: p)
  case Nil
  then show ?case by (simp add: find_fit.simps [of m w 0])
next
  case (Cons c bs)
  then have "p \<noteq> 0" "\<not> fits w c" "c = Blk p (hb_size m p) (hb_free m p \<noteq> 0)" by auto
  moreover have "find_fit m w (hb_next m p) = Some 0" using Cons by simp
  ultimately show ?case by (simp add: find_fit.simps [of m w p] fits_def)
qed

section \<open>Splitting a block\<close>

text \<open>The blocks that take the place of a free block from which \<open>w\<close> bytes are taken.\<close>

definition take_from :: "u32 \<Rightarrow> blk \<Rightarrow> blk list" where
  "take_from w b =
     (if unat (bsize b) \<le> unat w + 20 then [Blk (addr b) (bsize b) False]
      else [Blk (addr b) w False, Blk (addr b + 12 + w) (bsize b - w - 12) True])"

lemma split_guard:
  assumes "blk_ok b" and "w \<le> bsize b"
  shows "bsize b \<le> w + sizeof_heap_block + 8 \<longleftrightarrow> unat (bsize b) \<le> unat w + 20"
proof -
  have "unat w + 20 < 4294967296" using assms by (simp add: blk_ok_def nat_of_word)
  then have "unat (w + 20) = unat w + 20" by (simp add: unat_add_nowrap)
  moreover have "w + sizeof_heap_block + 8 = w + 20" by (simp add: sizeof_heap_block_def add.assoc)
  ultimately show ?thesis by (simp only: word_le_nat_alt)
qed

lemma split_arith:
  assumes "blk_ok b" and "\<not> unat (bsize b) \<le> unat w + 20"
  shows "unat (addr b + 12 + w) = unat (addr b) + 12 + unat w"
    and "unat (bsize b - w - 12) = unat (bsize b) - unat w - 12"
proof -
  have "unat (addr b + 12) = unat (addr b) + 12"
    using assms by (simp add: blk_ok_def unat_add_nowrap)
  then show "unat (addr b + 12 + w) = unat (addr b) + 12 + unat w"
    using assms by (subst unat_add_nowrap) (simp_all add: blk_ok_def)
  have "unat (bsize b - w) = unat (bsize b) - unat w"
    using assms by (simp add: unat_sub_le)
  then show "unat (bsize b - w - 12) = unat (bsize b) - unat w - 12"
    using assms by (subst unat_sub_le) simp_all
qed

lemma take_from_blks:
  assumes "blk_ok b" and "w \<le> bsize b"
  shows "blks_ok (take_from w b)" and "z \<in> set (take_from w b) \<Longrightarrow> extent z \<subseteq> extent b"
proof -
  have "blk_ok z \<and> extent z \<subseteq> extent b" if "z \<in> set (take_from w b)" for z
  proof (cases "unat (bsize b) \<le> unat w + 20")
    case True
    with that assms show ?thesis by (simp add: take_from_def extent_def blk_ok_def)
  next
    case False
    with that assms split_arith [OF assms(1) False] have "blk_ok z"
      by (auto simp: take_from_def blk_ok_def)
    with that assms False split_arith [OF assms(1) False] show ?thesis
      by (auto simp: take_from_def extent_nowrap)
  qed
  note z = this
  then show "z \<in> set (take_from w b) \<Longrightarrow> extent z \<subseteq> extent b" by blast
  have "apart (take_from w b)"
  proof (cases "unat (bsize b) \<le> unat w + 20")
    case True
    then show ?thesis by (simp add: take_from_def)
  next
    case False
    with z split_arith [OF assms(1) False] show ?thesis
      by (auto simp: take_from_def extent_nowrap)
  qed
  with z show "blks_ok (take_from w b)" by (simp add: blks_ok_def)
qed

lemma hb_other:
  assumes "span b 12 \<inter> span c 12 = {}"
  shows "hb_size (hb_set_size b v m) c = hb_size m c" "hb_free (hb_set_size b v m) c = hb_free m c"
    "hb_next (hb_set_size b v m) c = hb_next m c"
    "hb_size (hb_set_free b w m) c = hb_size m c" "hb_free (hb_set_free b w m) c = hb_free m c"
    "hb_next (hb_set_free b w m) c = hb_next m c"
    "hb_size (hb_set_next b v m) c = hb_size m c" "hb_free (hb_set_next b v m) c = hb_free m c"
    "hb_next (hb_set_next b v m) c = hb_next m c"
  by (rule hb_cong, rule hb_set_outside, use assms in blast)+

text \<open>Taking \<open>w\<close> bytes from a free block: \<open>split_block\<close>, then the block is marked used.\<close>

lemma take_block:
  assumes b: "blk_ok b" "w \<le> bsize b" "hb_size m (addr b) = bsize b"
  shows "hseg (hb_set_free (addr b) 0 (split_block (addr b) w m)) (addr b) (take_from w b) (hb_next m (addr b))"
    and "x \<notin> extent b \<Longrightarrow> hb_set_free (addr b) 0 (split_block (addr b) w m) x = m x"
proof -
  let ?m' = "hb_set_free (addr b) 0 (split_block (addr b) w m)"
  have nz: "addr b \<noteq> 0" using b(1) by (auto simp: blk_ok_def)
  note guard = split_guard [OF b(1,2)]
  have *: "hseg ?m' (addr b) (take_from w b) (hb_next m (addr b)) \<and> (x \<notin> extent b \<longrightarrow> ?m' x = m x)"
  proof (cases "unat (bsize b) \<le> unat w + 20")
    case True
    then have "split_block (addr b) w m = m"
      using guard b(3) nz by (simp add: split_block_def)
    moreover have "x \<notin> extent b \<Longrightarrow> x \<notin> span (addr b) 12"
      using header_extent [of b] by (auto simp: header_def)
    ultimately show ?thesis using True b nz by (simp add: take_from_def)
  next
    case False
    define n where "n = addr b + 12 + w"
    note ar = split_arith [OF b(1) False]
    have sub: "span n 12 \<subseteq> extent b" "span (addr b) 12 \<subseteq> extent b"
      using b(1) False ar(1) by (auto simp: extent_nowrap span_nowrap n_def blk_ok_def)
    have dis: "span n 12 \<inter> span (addr b) 12 = {}"
      using b(1) False ar(1) by (auto simp: span_nowrap n_def blk_ok_def)
    then have dis': "span (addr b) 12 \<inter> span n 12 = {}" by blast
    have "n \<noteq> 0" using ar(1) by (auto simp: n_def)
    have split: "split_block (addr b) w m =
        hb_set_next (addr b) n (hb_set_size (addr b) w
          (hb_set_next n (hb_next m (addr b)) (hb_set_free n 1 (hb_set_size n (bsize b - w - 12) m))))"
      using False guard b(3) nz dis
      by (simp add: split_block_def Let_def n_def hb_other sizeof_heap_block_def)
    have "hseg ?m' (addr b) (take_from w b) (hb_next m (addr b))"
      using False nz \<open>n \<noteq> 0\<close> dis dis'
      by (simp add: take_from_def split hb_other flip: n_def)
    moreover have "?m' x = m x" if "x \<notin> extent b"
    proof -
      have "x \<notin> span n 12" "x \<notin> span (addr b) 12" using that sub by auto
      then show ?thesis by (simp add: split)
    qed
    ultimately show ?thesis by blast
  qed
  then show "hseg ?m' (addr b) (take_from w b) (hb_next m (addr b))" by blast
  from * show "x \<notin> extent b \<Longrightarrow> ?m' x = m x" by blast
qed

section \<open>Coalescing\<close>

text \<open>What \<open>coalesce_blocks\<close> does to the list of blocks.\<close>

definition merges :: "blk \<Rightarrow> blk \<Rightarrow> bool" where
  "merges b c \<longleftrightarrow> bfree b \<and> bfree c \<and> addr b + 12 + bsize b = addr c"

fun coalesce_blks :: "blk list \<Rightarrow> blk list" where
  "coalesce_blks [] = []"
| "coalesce_blks [b] = [b]"
| "coalesce_blks (b # c # bs) =
     (if merges b c then coalesce_blks (Blk (addr b) (bsize b + (12 + bsize c)) True # bs)
      else b # coalesce_blks (c # bs))"

text \<open>No free block is directly followed by a free block it touches.\<close>

fun coalesced :: "blk list \<Rightarrow> bool" where
  "coalesced (b # c # bs) \<longleftrightarrow> \<not> merges b c \<and> coalesced (c # bs)"
| "coalesced bs \<longleftrightarrow> True"

lemma merge_size:
  assumes "blk_ok b" "blk_ok c" "merges b c"
  shows "unat (addr c) = unat (addr b) + 12 + unat (bsize b)"
    and "unat (bsize b + (12 + bsize c)) = unat (bsize b) + 12 + unat (bsize c)"
proof -
  have "addr c = addr b + 12 + bsize b" using assms by (simp add: merges_def)
  then have "unat (addr c) = (unat (addr b) + 12 + unat (bsize b)) mod 4294967296"
    by (simp add: unat_word_ariths mod_simps)
  moreover have "unat (addr b) + 12 + unat (bsize b) \<noteq> 4294967296"
  proof
    assume "unat (addr b) + 12 + unat (bsize b) = 4294967296"
    with calculation have "unat (addr c) = 0" by simp
    with assms(2) show False by (simp add: blk_ok_def)
  qed
  ultimately show s: "unat (addr c) = unat (addr b) + 12 + unat (bsize b)"
    using assms(1) by (simp add: blk_ok_def)
  have "unat (12 + bsize c) = 12 + unat (bsize c)"
    using assms(2) by (subst unat_add_nowrap) (auto simp: blk_ok_def)
  then show "unat (bsize b + (12 + bsize c)) = unat (bsize b) + 12 + unat (bsize c)"
    using assms(1,2) s by (subst unat_add_nowrap) (auto simp: blk_ok_def)
qed

lemma merge_extent:
  assumes "blk_ok b" "blk_ok c" "merges b c"
  defines "d \<equiv> Blk (addr b) (bsize b + (12 + bsize c)) True"
  shows "blk_ok d" and "extent d = extent b \<union> extent c"
proof -
  note ms = merge_size [OF assms(1-3)]
  show ok: "blk_ok d" using assms(1,2) ms by (simp add: d_def blk_ok_def)
  have "x \<in> extent d \<longleftrightarrow> x \<in> extent b \<union> extent c" for x
    using ms by (simp add: extent_nowrap ok assms(1,2)) (auto simp: d_def)
  then show "extent d = extent b \<union> extent c" by blast
qed

lemma blks_ok_append:
  "blks_ok (xs @ ys) \<longleftrightarrow> blks_ok xs \<and> blks_ok ys \<and> (\<forall>x \<in> set xs. \<forall>y \<in> set ys. extent x \<inter> extent y = {})"
  by (auto simp: blks_ok_def apart_append)

lemma blks_ok_merge:
  assumes "blks_ok (xs @ b # c # ys)" and "merges b c"
  shows "blks_ok (xs @ Blk (addr b) (bsize b + (12 + bsize c)) True # ys)"
proof -
  have "blk_ok b" "blk_ok c" using assms by (auto simp: blks_ok_def)
  from merge_extent [OF this assms(2)] assms(1) show ?thesis
    by (auto simp: blks_ok_def apart_append)
qed

text \<open>One merge in memory.\<close>

lemma merge_in_memory:
  assumes seg: "hseg m p (xs @ b # c # ys) 0" and ok: "blks_ok (xs @ b # c # ys)"
  defines "m1 \<equiv> hb_set_size (addr b) (hb_size m (addr b) + (12 + hb_size m (addr c))) m"
  defines "m' \<equiv> hb_set_next (addr b) (hb_next m1 (addr c)) m1"
  shows "merges b c \<Longrightarrow> hseg m' p (xs @ Blk (addr b) (bsize b + (12 + bsize c)) True # ys) 0"
    and "x \<notin> header b \<Longrightarrow> m' x = m x"
    and "hb_next m1 (addr b) = addr c"
proof -
  have dis: "extent b \<inter> extent d = {}" if "d \<in> set xs \<or> d \<in> set (c # ys)" for d
    using ok that by (auto simp: blks_ok_def apart_append)
  then have hdis: "header b \<inter> header d = {}" if "d \<in> set xs \<or> d \<in> set (c # ys)" for d
    using that header_extent by blast
  have out: "m' x = m x" if "x \<notin> header b" for x
    using that by (simp add: m'_def m1_def header_def)
  then show "x \<notin> header b \<Longrightarrow> m' x = m x" by blast
  from seg have b: "hseg m p xs (addr b)" "addr b \<noteq> 0" "bsize b = hb_size m (addr b)"
      "bfree b \<longleftrightarrow> hb_free m (addr b) \<noteq> 0" "hb_next m (addr b) = addr c"
    and c: "bsize c = hb_size m (addr c)" "hseg m (hb_next m (addr c)) ys 0"
    by (auto simp: hseg_append)
  show "hb_next m1 (addr b) = addr c" using b by (simp add: m1_def)
  have "span (addr b) 12 \<inter> span (addr c) 12 = {}" using hdis [of c] by (simp add: header_def)
  then have nx: "hb_next m1 (addr c) = hb_next m (addr c)" by (simp add: m1_def hb_other)
  have "hseg m' p xs (addr b)" using b(1) by (rule hseg_cong) (use hdis out in blast)
  moreover have "hseg m' (hb_next m (addr c)) ys 0" using c(2) by (rule hseg_cong) (use hdis out in \<open>auto; blast\<close>)
  ultimately show "hseg m' p (xs @ Blk (addr b) (bsize b + (12 + bsize c)) True # ys) 0" if "merges b c"
    using that b c nx by (auto simp: hseg_append merges_def m'_def m1_def)
qed

definition free_headers :: "blk list \<Rightarrow> u32 set" where
  "free_headers bs = (\<Union>b \<in> {b \<in> set bs. bfree b}. header b)"

lemma coalesce_from_spec:
  assumes "hseg m p (xs @ ys) 0" and "blks_ok (xs @ ys)" and "hseg m cur ys 0"
  shows "\<exists>m'. coalesce_from cur m = Some m' \<and> hseg m' p (xs @ coalesce_blks ys) 0
    \<and> blks_ok (xs @ coalesce_blks ys) \<and> (\<forall>x. x \<notin> free_headers ys \<longrightarrow> m' x = m x)"
  using assms
proof (induction ys arbitrary: xs m cur rule: coalesce_blks.induct)
  case 1
  then show ?case by (simp add: coalesce_from.simps [of 0])
next
  case (2 b)
  then show ?case by (simp add: coalesce_from.simps [of cur])
next
  case (3 b c bs)
  have ok: "blk_ok b" "blk_ok c" using "3.prems"(2) by (auto simp: blks_ok_def)
  from "3.prems"(3) have cur: "cur = addr b" "cur \<noteq> 0" "hb_next m cur = addr c" "addr c \<noteq> 0"
    "bsize b = hb_size m cur" "bfree b \<longleftrightarrow> hb_free m cur \<noteq> 0"
    "bsize c = hb_size m (addr c)" "bfree c \<longleftrightarrow> hb_free m (addr c) \<noteq> 0"
    by auto
  have guard: "merges b c \<longleftrightarrow> hb_free m cur \<noteq> 0 \<and> hb_free m (hb_next m cur) \<noteq> 0
      \<and> cur + sizeof_heap_block + hb_size m cur = hb_next m cur"
    using cur by (auto simp: merges_def sizeof_heap_block_def)
  show ?case
  proof (cases "merges b c")
    case True
    define m1 where "m1 = hb_set_size (addr b) (hb_size m (addr b) + (12 + hb_size m (addr c))) m"
    define m2 where "m2 = hb_set_next (addr b) (hb_next m1 (addr c)) m1"
    let ?d = "Blk (addr b) (bsize b + (12 + bsize c)) True"
    note mm = merge_in_memory [OF "3.prems"(1,2), folded m1_def, folded m2_def]
    have seg: "hseg m2 p (xs @ ?d # bs) 0" using mm(1) True by blast
    have cur2: "hseg m2 cur (?d # bs) 0"
      using seg cur by (auto simp: hseg_append)
    have okd: "blks_ok (xs @ ?d # bs)" using "3.prems"(2) True by (rule blks_ok_merge)
    have "coalesce_from cur m = coalesce_from cur m2"
      using cur guard True mm(3)
      by (subst coalesce_from.simps) (simp add: Let_def m2_def m1_def sizeof_heap_block_def)
    moreover obtain m' where m': "coalesce_from cur m2 = Some m'"
      "hseg m' p (xs @ coalesce_blks (?d # bs)) 0" "blks_ok (xs @ coalesce_blks (?d # bs))"
      "\<forall>x. x \<notin> free_headers (?d # bs) \<longrightarrow> m' x = m2 x"
      using "3.IH"(1) [OF True seg okd cur2] by blast
    moreover have "free_headers (?d # bs) \<subseteq> free_headers (b # c # bs)" "header b \<subseteq> free_headers (b # c # bs)"
      using True by (auto simp: free_headers_def header_def merges_def)
    ultimately have "m' x = m x" if "x \<notin> free_headers (b # c # bs)" for x
    proof -
      have "m2 x = m x" by (rule mm(2)) (use that \<open>header b \<subseteq> _\<close> in blast)
      moreover have "m' x = m2 x" using m'(4) that \<open>free_headers (?d # bs) \<subseteq> _\<close> by blast
      ultimately show ?thesis by simp
    qed
    with m' \<open>coalesce_from cur m = _\<close> True show ?thesis by simp
  next
    case False
    have "hseg m p ((xs @ [b]) @ c # bs) 0" "blks_ok ((xs @ [b]) @ c # bs)"
      using "3.prems" by simp_all
    moreover have "hseg m (hb_next m cur) (c # bs) 0" using "3.prems"(3) by simp
    ultimately obtain m' where m': "coalesce_from (hb_next m cur) m = Some m'"
      "hseg m' p ((xs @ [b]) @ coalesce_blks (c # bs)) 0" "blks_ok ((xs @ [b]) @ coalesce_blks (c # bs))"
      "\<forall>x. x \<notin> free_headers (c # bs) \<longrightarrow> m' x = m x"
      using "3.IH"(2) [OF False] by metis
    have "coalesce_from cur m = coalesce_from (hb_next m cur) m"
      using cur guard False by (subst coalesce_from.simps) (auto simp: Let_def)
    moreover have "free_headers (c # bs) \<subseteq> free_headers (b # c # bs)"
      by (auto simp: free_headers_def)
    ultimately show ?thesis using m' False by auto
  qed
qed

lemma live_simps [simp]:
  "live [] = {}"
  "live (b # bs) = (if bfree b then live bs else insert b (live bs))"
  "live (xs @ ys) = live xs \<union> live ys"
  by (auto simp: live_def)

lemma live_coalesce: "live (coalesce_blks bs) = live bs"
  by (induction bs rule: coalesce_blks.induct) (simp_all add: merges_def)

lemma hd_coalesce: "\<exists>d ds. coalesce_blks (b # bs) = d # ds \<and> addr d = addr b \<and> bfree d = bfree b"
proof (induction bs arbitrary: b)
  case (Cons c bs)
  then show ?case using Cons [of "Blk (addr b) (bsize b + (12 + bsize c)) True"]
    by (auto simp: merges_def)
qed simp

lemma coalesced_coalesce: "coalesced (coalesce_blks bs)"
proof (induction bs rule: coalesce_blks.induct)
  case (3 b c bs)
  show ?case
  proof (cases "merges b c")
    case False
    obtain d ds where d: "coalesce_blks (c # bs) = d # ds" "addr d = addr c" "bfree d = bfree c"
      using hd_coalesce by blast
    with False have "\<not> merges b d" by (simp add: merges_def)
    with False d 3 show ?thesis by simp
  qed (use 3 in simp)
qed simp_all

lemma extents_coalesce:
  "\<forall>b \<in> set bs. blk_ok b \<Longrightarrow> (\<Union>b \<in> set (coalesce_blks bs). extent b) = (\<Union>b \<in> set bs. extent b)"
proof (induction bs rule: coalesce_blks.induct)
  case (3 b c bs)
  then show ?case by (auto simp: merge_extent)
qed simp_all

lemma frames_held_extents:
  "frames_held p bs \<longleftrightarrow> (\<forall>x \<in> (\<Union>b \<in> set bs. extent b). x div 4096 \<notin> free_set p)"
  by (auto simp: frames_held_def)

end
