(* ===== verification/Kheap_Alloc.thy ===== *)
theory Kheap_Alloc
  imports Kheap_Inv
begin

text \<open>
  What the allocation interface of \<open>memory/heap.c\<close> guarantees: growing, allocating and releasing
  keep the heap invariant, return storage that no other live block shares, and leave the contents
  of live blocks alone.
\<close>

section \<open>Growing the heap\<close>

definition frame_of :: "u32 \<Rightarrow> u32" where "frame_of a = a div 4096"

definition fresh :: "u32 \<Rightarrow> blk" where "fresh a = Blk a 4084 True"

definition frame_addr :: "u32 \<Rightarrow> bool" where "frame_addr a \<longleftrightarrow> unat a mod 4096 = 0 \<and> a \<noteq> 0"

lemma frame_addr_bounds:
  assumes "frame_addr a"
  shows "4096 \<le> unat a" and "unat a + 4096 \<le> 4294967296"
proof -
  have nz: "unat a \<noteq> 0" and m: "unat a mod 4096 = 0"
    using assms by (auto simp: frame_addr_def unat_eq_zero)
  from m obtain k where k: "unat a = 4096 * k" by (auto simp: mod_eq_0_iff_dvd)
  with nz show "4096 \<le> unat a" by simp
  have "k < 1048576" using k unat_less_2p32 [of a] by simp
  then show "unat a + 4096 \<le> 4294967296" using k by simp
qed

lemma span_frame:
  assumes "frame_addr a"
  shows "x \<in> span a 4096 \<longleftrightarrow> frame_of x = frame_of a"
proof -
  from assms obtain k where k: "unat a = 4096 * k" by (auto simp: frame_addr_def mod_eq_0_iff_dvd)
  have "x \<in> span a 4096 \<longleftrightarrow> unat a \<le> unat x \<and> unat x < unat a + 4096"
    using frame_addr_bounds [OF assms] by (simp add: span_nowrap)
  also have "\<dots> \<longleftrightarrow> unat x div 4096 = unat a div 4096" using k by auto
  also have "\<dots> \<longleftrightarrow> frame_of x = frame_of a" by (simp add: frame_of_def word_unat_eq_iff unat_div)
  finally show ?thesis .
qed

lemma fresh_ok: "frame_addr a \<Longrightarrow> blk_ok (fresh a)"
  using frame_addr_bounds [of a] by (simp add: fresh_def blk_ok_def)

lemma fresh_extent: "frame_addr a \<Longrightarrow> x \<in> extent (fresh a) \<longleftrightarrow> frame_of x = frame_of a"
  using span_frame [of a x] by (simp add: fresh_def extent_def)

lemma header_in_frame: "frame_addr a \<Longrightarrow> x \<in> span a 12 \<Longrightarrow> frame_of x = frame_of a"
  using span_frame [of a x] span_mono [of 12 4096 a] by auto

lemma headers_apart:
  "frame_addr a \<Longrightarrow> frame_addr b \<Longrightarrow> frame_of a \<noteq> frame_of b \<Longrightarrow> span a 12 \<inter> span b 12 = {}"
  by (metis header_in_frame disjoint_iff)

lemma init_block_header [simp]:
  "hb_size (init_block a m) a = 4084" "hb_free (init_block a m) a = 1" "hb_next (init_block a m) a = 0"
  by (simp_all add: init_block_def PMM_FRAME_SIZE_def sizeof_heap_block_def)

lemma init_block_outside [simp]: "x \<notin> span a 12 \<Longrightarrow> init_block a m x = m x"
  by (simp add: init_block_def)

lemma fresh_blks_ok:
  assumes "\<And>a. a \<in> set as \<Longrightarrow> frame_addr a" and "distinct (map frame_of as)"
  shows "blks_ok (map fresh as)"
proof -
  have "apart (map fresh as)"
    using assms by (induction as) (auto simp: fresh_extent)
  with assms show ?thesis by (simp add: blks_ok_def fresh_ok)
qed

lemma alloc_frame_addr:
  "pmm_wf p \<Longrightarrow> pmm_alloc_frame p = (a, q) \<Longrightarrow> a \<noteq> 0 \<Longrightarrow>
    frame_addr a \<and> frame_of a \<in> free_set p \<and> free_set q = free_set p - {frame_of a} \<and> pmm_wf q"
  by (auto simp: frame_addr_def frame_of_def
      dest: pf.alloc_aligned pf.alloc_avail pf.alloc_takes pf.alloc_inv)

text \<open>
  The state after the growing loop has run from the fresh block \<open>block\<close>: \<open>as\<close> are the frames it
  took, \<open>q\<close> the manager after the last success. The loop never sees a block larger than one frame,
  so a request beyond 4084 bytes runs until an allocation fails.
\<close>

definition grown :: "u32 \<Rightarrow> u32 \<Rightarrow> heap \<Rightarrow> u32 list \<Rightarrow> pmm \<Rightarrow> heap \<Rightarrow> bool" where
  "grown mn block s as q s' \<longleftrightarrow> pf.alloc_run (hpmm s) as q
    \<and> (if unat mn \<le> 4084 then as = [] \<and> hpmm s' = q else pmm_alloc_frame q = (0, hpmm s'))
    \<and> heap_head s' = heap_head s
    \<and> hseg (hmem s') block (map fresh (block # as)) 0
    \<and> (\<forall>x. frame_of x \<notin> frame_of ` set (block # as) \<longrightarrow> hmem s' x = hmem s x)"

definition fresh_at :: "u32 \<Rightarrow> heap \<Rightarrow> bool" where
  "fresh_at block s \<longleftrightarrow> pmm_wf (hpmm s) \<and> frame_addr block \<and> frame_of block \<notin> free_set (hpmm s)
     \<and> hb_size (hmem s) block = 4084 \<and> hb_free (hmem s) block = 1 \<and> hb_next (hmem s) block = 0"

lemma fresh_at_link:
  assumes "fresh_at block s" and "pmm_alloc_frame (hpmm s) = (a, p)" and "a \<noteq> 0"
  defines "s2 \<equiv> s\<lparr>hpmm := p, hmem := hb_set_next block a (init_block a (hmem s))\<rparr>"
  shows "fresh_at a s2" and "hseg (hmem s2) block [fresh block] a" and "frame_of block \<noteq> frame_of a"
    and "frame_of x \<noteq> frame_of block \<Longrightarrow> frame_of x \<noteq> frame_of a \<Longrightarrow> hmem s2 x = hmem s x"
proof -
  from assms(1) have b: "pmm_wf (hpmm s)" "frame_addr block" "frame_of block \<notin> free_set (hpmm s)"
    by (auto simp: fresh_at_def)
  from alloc_frame_addr [OF b(1) assms(2,3)] have a: "frame_addr a" "frame_of a \<in> free_set (hpmm s)"
    "free_set p = free_set (hpmm s) - {frame_of a}" "pmm_wf p" by auto
  from a(2) b(3) show ne: "frame_of block \<noteq> frame_of a" by metis
  have dis: "span block 12 \<inter> span a 12 = {}" "span a 12 \<inter> span block 12 = {}"
    using ne headers_apart [OF b(2) a(1)] headers_apart [OF a(1) b(2)] by metis+
  then show "fresh_at a s2" using a by (simp add: fresh_at_def s2_def hb_other)
  have "init_block a (hmem s) x = hmem s x" if "x \<in> span block 12" for x
    using that dis by (intro init_block_outside) blast
  then have "hb_size (init_block a (hmem s)) block = 4084" "hb_free (init_block a (hmem s)) block = 1"
    using hb_cong [of block "init_block a (hmem s)" "hmem s"] assms(1) by (auto simp: fresh_at_def)
  then show "hseg (hmem s2) block [fresh block] a"
    using b by (simp add: s2_def fresh_def frame_addr_def)
  show "hmem s2 x = hmem s x" if "frame_of x \<noteq> frame_of block" "frame_of x \<noteq> frame_of a"
  proof -
    have "x \<notin> span block 12" "x \<notin> span a 12"
      using that header_in_frame [OF b(2)] header_in_frame [OF a(1)] by blast+
    then show ?thesis by (simp add: s2_def)
  qed
qed

lemma grown_link:
  assumes "fresh_at block s" and al: "pmm_alloc_frame (hpmm s) = (a, p)" "a \<noteq> 0" and big: "4084 < unat mn"
    and gr: "grown mn a (s\<lparr>hpmm := p, hmem := hb_set_next block a (init_block a (hmem s))\<rparr>) as q s'"
  shows "grown mn block s (a # as) q s'"
proof -
  let ?s2 = "s\<lparr>hpmm := p, hmem := hb_set_next block a (init_block a (hmem s))\<rparr>"
  note ln = fresh_at_link [OF assms(1-3)]
  from gr have run: "pf.alloc_run p as q" and seg: "hseg (hmem s') a (map fresh (a # as)) 0"
    and same: "\<And>x. frame_of x \<notin> frame_of ` set (a # as) \<Longrightarrow> hmem s' x = hmem ?s2 x"
    by (auto simp: grown_def)
  have "frame_of ` set as \<subseteq> free_set p" "free_set p \<subseteq> free_set (hpmm s)"
    using pf.alloc_run_avail [of p as q] run ln(1) alloc_frame_addr [of "hpmm s" a p] al assms(1)
    by (auto simp: fresh_at_def frame_of_def)
  then have out: "frame_of block \<notin> frame_of ` set (a # as)"
    using assms(1) ln(3) by (auto simp: fresh_at_def)
  have "hseg (hmem s') block [fresh block] a"
  proof (rule hseg_cong [OF ln(2)])
    fix b x assume "b \<in> set [fresh block]" "x \<in> header b"
    then have "frame_of x = frame_of block"
      using assms(1) header_in_frame [of block x] by (simp add: header_def fresh_def fresh_at_def)
    with out same [of x] show "hmem s' x = hmem ?s2 x" by simp
  qed
  with seg have "hseg (hmem s') block (map fresh (block # a # as)) 0"
    using hseg_append [of "hmem s'" block "[fresh block]" "map fresh (a # as)" 0] by auto
  moreover have "hmem s' x = hmem s x" if "frame_of x \<notin> frame_of ` set (block # a # as)" for x
    using that same [of x] ln(4) [of x] by simp
  ultimately show ?thesis using gr al big run by (simp add: grown_def)
qed

lemma grow_loop_spec: "fresh_at block s \<Longrightarrow> \<exists>as q. grown mn block s as q (heap_grow_loop mn block s)"
proof (induction mn block s rule: heap_grow_loop.induct)
  case (1 mn block s)
  have seg: "hseg (hmem s) block (map fresh [block]) 0"
    using "1.prems" by (simp add: fresh_def fresh_at_def frame_addr_def)
  obtain a p where al: "pmm_alloc_frame (hpmm s) = (a, p)" by fastforce
  consider "unat mn \<le> 4084" | "4084 < unat mn" "a = 0" | "4084 < unat mn" "a \<noteq> 0" by linarith
  then show ?case
  proof cases
    case 1
    then have "heap_grow_loop mn block s = s"
      using "1.prems" by (simp add: heap_grow_loop.simps [of mn block s] nat_of_word fresh_at_def)
    with 1 seg have "grown mn block s [] (hpmm s) (heap_grow_loop mn block s)" by (simp add: grown_def)
    then show ?thesis by blast
  next
    case 2
    then have "heap_grow_loop mn block s = s\<lparr>hpmm := p\<rparr>"
      using al "1.prems" by (simp add: heap_grow_loop.simps [of mn block s] nat_of_word fresh_at_def)
    with 2 al seg have "grown mn block s [] (hpmm s) (heap_grow_loop mn block s)" by (simp add: grown_def)
    then show ?thesis by blast
  next
    case 3
    let ?s2 = "s\<lparr>hpmm := p, hmem := hb_set_next block a (init_block a (hmem s))\<rparr>"
    have big: "hb_size (hmem s) block < mn" using 3 "1.prems" by (simp add: nat_of_word fresh_at_def)
    have "heap_grow_loop mn block s = heap_grow_loop mn a ?s2"
      using big al 3 by (simp add: heap_grow_loop.simps [of mn block s])
    moreover have "\<exists>as q. grown mn a ?s2 as q (heap_grow_loop mn a ?s2)"
      using "1.IH" [of "(a, p)" a p "s\<lparr>hpmm := p\<rparr>"] big al 3 fresh_at_link(1) [OF "1.prems" al] by simp
    ultimately show ?thesis using grown_link [OF "1.prems" al] 3 by metis
  qed
qed

text \<open>
  The memory the heap may touch: its blocks and the frames the manager still has. An operation that
  respects \<open>heap_frame\<close> writes nothing else and takes over nothing else.
\<close>

definition managed :: "pmm \<Rightarrow> blk list \<Rightarrow> u32 set" where
  "managed p bs = {x. frame_of x \<in> free_set p} \<union> (\<Union>b \<in> set bs. extent b)"

definition heap_frame :: "heap \<Rightarrow> blk list \<Rightarrow> heap \<Rightarrow> blk list \<Rightarrow> bool" where
  "heap_frame s bs s' bs' \<longleftrightarrow> managed (hpmm s') bs' \<subseteq> managed (hpmm s) bs
     \<and> (\<forall>x. x \<notin> managed (hpmm s) bs \<longrightarrow> hmem s' x = hmem s x)"

lemma heap_frame_refl: "heap_frame s bs s bs"
  by (simp add: heap_frame_def)

lemma heap_frame_trans: "heap_frame s bs t cs \<Longrightarrow> heap_frame t cs u ds \<Longrightarrow> heap_frame s bs u ds"
  unfolding heap_frame_def by (metis subset_trans subsetD)

lemma heap_frame_fewer:
  "hmem s' = hmem s \<Longrightarrow> free_set (hpmm s') \<subseteq> free_set (hpmm s) \<Longrightarrow> heap_frame s bs s' bs"
  by (auto simp: heap_frame_def managed_def)

text \<open>A chunk of fresh blocks that is not yet linked into the list.\<close>

definition chunk :: "u32 \<Rightarrow> heap \<Rightarrow> blk list \<Rightarrow> u32 list \<Rightarrow> heap \<Rightarrow> bool" where
  "chunk mn s bs as s' \<longleftrightarrow> heap_head s' = heap_head s \<and> as \<noteq> []
    \<and> hseg (hmem s') (hd as) (map fresh as) 0 \<and> blks_ok (bs @ map fresh as)
    \<and> pmm_wf (hpmm s') \<and> frames_held (hpmm s') (bs @ map fresh as)
    \<and> (\<forall>b \<in> set bs. \<forall>x \<in> extent b. hmem s' x = hmem s x)
    \<and> free_set (hpmm s') \<subset> free_set (hpmm s) \<and> heap_frame s bs s' (bs @ map fresh as)
    \<and> (if unat mn \<le> 4084 then length as = 1
       else 0 \<notin> free_set (hpmm s) \<longrightarrow> free_set (hpmm s') = {})"

lemma alloc_fail_subset:
  "pmm_wf p \<Longrightarrow> pmm_alloc_frame p = (0, q) \<Longrightarrow> pmm_wf q \<and> free_set q = free_set p - {0}"
  using pf.alloc_takes [of p 0 q] pf.alloc_inv [of p 0 q] by simp

lemma grown_pmm:
  assumes "grown mn block s as q s'" and "pmm_wf (hpmm s)"
  shows "pmm_wf (hpmm s')" and "free_set (hpmm s') \<subseteq> free_set (hpmm s) - frame_of ` set as"
    and "frame_of ` set as \<subseteq> free_set (hpmm s)" and "distinct (map frame_of as)"
    and "\<And>a. a \<in> set as \<Longrightarrow> frame_addr a"
    and "\<not> unat mn \<le> 4084 \<Longrightarrow> 0 \<notin> free_set (hpmm s) \<Longrightarrow> free_set (hpmm s') = {}"
proof -
  have run: "pf.alloc_run (hpmm s) as q" using assms by (simp add: grown_def)
  note inv = pf.alloc_run_inv [OF assms(2) run]
  have av: "free_set q = free_set (hpmm s) - frame_of ` set as" "frame_of ` set as \<subseteq> free_set (hpmm s)"
    using pf.alloc_run_avail [OF assms(2) run] by (simp_all add: frame_of_def)
  then show "frame_of ` set as \<subseteq> free_set (hpmm s)" by simp
  show "distinct (map frame_of as)"
    using pf.alloc_run_distinct [OF assms(2) run] by (simp add: frame_of_def [abs_def])
  show "\<And>a. a \<in> set as \<Longrightarrow> frame_addr a"
    using pf.alloc_run_aligned [OF assms(2) run] by (simp add: frame_addr_def)
  have last: "hpmm s' = q \<or> pmm_alloc_frame q = (0, hpmm s')"
    using assms by (auto simp: grown_def split: if_splits)
  then have "pmm_wf (hpmm s') \<and> free_set (hpmm s') \<subseteq> free_set q"
    using inv alloc_fail_subset [OF inv] by fastforce
  with av show "pmm_wf (hpmm s')" "free_set (hpmm s') \<subseteq> free_set (hpmm s) - frame_of ` set as" by auto
  assume "\<not> unat mn \<le> 4084" and nz: "0 \<notin> free_set (hpmm s)"
  then have al: "pmm_alloc_frame q = (0, hpmm s')" using assms by (simp add: grown_def)
  have "free_set q = {}" using pf.alloc_fails [OF inv al] nz av by auto
  with alloc_fail_subset [OF inv al] show "free_set (hpmm s') = {}" by simp
qed

lemma heap_grow_fail:
  assumes "pmm_wf (hpmm s)" and "heap_grow mn s = (0, s')"
  shows "hmem s' = hmem s" "heap_head s' = heap_head s" "pmm_wf (hpmm s')"
    "free_set (hpmm s') = free_set (hpmm s) - {0}" "free_set (hpmm s) = {} \<or> 0 \<in> free_set (hpmm s)"
proof -
  obtain a p where al: "pmm_alloc_frame (hpmm s) = (a, p)" by fastforce
  with assms have "a = 0" "s' = s\<lparr>hpmm := p\<rparr>" by (auto simp: heap_grow_def Let_def split: if_splits)
  with al assms pf.alloc_fails alloc_fail_subset
  show "hmem s' = hmem s" "heap_head s' = heap_head s" "pmm_wf (hpmm s')"
    "free_set (hpmm s') = free_set (hpmm s) - {0}" "free_set (hpmm s) = {} \<or> 0 \<in> free_set (hpmm s)"
    by auto
qed

lemma heap_grow_chunk:
  assumes inv: "heap_inv s bs" and gr: "heap_grow mn s = (h, s')" and nz: "h \<noteq> 0"
  shows "\<exists>as. hd as = h \<and> chunk mn s bs as s'"
proof -
  obtain p where al: "pmm_alloc_frame (hpmm s) = (h, p)"
    and s': "s' = heap_grow_loop mn h (s\<lparr>hpmm := p, hmem := init_block h (hmem s)\<rparr>)"
    using gr nz by (auto simp: heap_grow_def Let_def split: prod.splits if_splits)
  let ?s1 = "s\<lparr>hpmm := p, hmem := init_block h (hmem s)\<rparr>"
  have wf: "pmm_wf (hpmm s)" and held: "frames_held (hpmm s) bs" and ok: "blks_ok bs"
    using inv by (auto simp: heap_inv_def)
  from alloc_frame_addr [OF wf al nz] have h: "frame_addr h" "frame_of h \<in> free_set (hpmm s)"
    "free_set p = free_set (hpmm s) - {frame_of h}" "pmm_wf p" by blast+
  then have "fresh_at h ?s1" by (simp add: fresh_at_def)
  then obtain as q where g: "grown mn h ?s1 as q s'" using grow_loop_spec s' by blast
  note gp = grown_pmm [OF g, simplified, OF h(4)]
  have new: "frame_of ` set (h # as) \<subseteq> free_set (hpmm s)" using gp(3) h(2,3) by auto
  have dist: "distinct (map frame_of (h # as))" using gp(3,4) h(3) by auto
  have fa: "\<And>a. a \<in> set (h # as) \<Longrightarrow> frame_addr a" using gp(5) h(1) by auto
  have out: "frame_of x \<notin> frame_of ` set (h # as)" if "b \<in> set bs" "x \<in> extent b" for b x
  proof -
    have "frame_of x \<notin> free_set (hpmm s)" using that held by (simp add: frames_held_def frame_of_def)
    with new show ?thesis by blast
  qed
  have "hmem s' x = hmem s x" if "b \<in> set bs" "x \<in> extent b" for b x
  proof -
    have "frame_of x \<noteq> frame_of h" using out [OF that] by auto
    then have "x \<notin> span h 12" using header_in_frame [OF h(1)] by blast
    then show ?thesis using g out [OF that] by (simp add: grown_def)
  qed
  moreover have "blks_ok (bs @ map fresh (h # as))"
  proof -
    have "extent b \<inter> extent (fresh a) = {}" if "b \<in> set bs" "a \<in> set (h # as)" for a b
      using that out fresh_extent fa by fastforce
    then show ?thesis using ok fresh_blks_ok [OF fa dist] by (auto simp: blks_ok_append)
  qed
  moreover have "frames_held (hpmm s') (bs @ map fresh (h # as))"
  proof -
    have sub: "free_set (hpmm s') \<subseteq> free_set (hpmm s) - frame_of ` set (h # as)" using gp(2) h(3) by auto
    then have "x div 4096 \<notin> free_set (hpmm s')" if "a \<in> set (h # as)" "x \<in> extent (fresh a)" for a x
      using that fresh_extent [OF fa] by (fastforce simp: frame_of_def)
    with sub held show ?thesis unfolding frames_held_def by (simp add: ball_Un) blast
  qed
  moreover have "free_set (hpmm s') \<subset> free_set (hpmm s)" using gp(2) h(2,3) by blast
  moreover have "heap_frame s bs s' (bs @ map fresh (h # as))"
  proof -
    have "hmem s' x = hmem s x" if "x \<notin> managed (hpmm s) bs" for x
    proof -
      have o: "frame_of x \<notin> frame_of ` set (h # as)" using that new by (auto simp: managed_def)
      then have "x \<notin> span h 12" using header_in_frame [OF h(1), of x] by auto
      then show ?thesis using g o by (simp add: grown_def)
    qed
    moreover have "extent (fresh a) \<subseteq> managed (hpmm s) bs" if "a \<in> set (h # as)" for a
    proof
      fix x assume "x \<in> extent (fresh a)"
      then have "frame_of x = frame_of a" using fresh_extent [OF fa [OF that]] by blast
      moreover have "frame_of a \<in> free_set (hpmm s)" using new that by blast
      ultimately show "x \<in> managed (hpmm s) bs" by (simp add: managed_def)
    qed
    moreover have "free_set (hpmm s') \<subseteq> free_set (hpmm s)" using gp(2) h(3) by blast
    ultimately show ?thesis unfolding heap_frame_def managed_def by (simp add: Un_assoc) blast
  qed
  ultimately have "chunk mn s bs (h # as) s'"
    using g gp(1,6) h(3) by (auto simp: chunk_def grown_def split: if_splits)
  then show ?thesis by force
qed

text \<open>Linking the chunk behind the last block.\<close>

definition link_chunk :: "u32 \<Rightarrow> u32 \<Rightarrow> heap \<Rightarrow> heap" where
  "link_chunk tail h s = (if tail = 0 then s\<lparr>heap_head := h\<rparr> else s\<lparr>hmem := hb_set_next tail h (hmem s)\<rparr>)"

lemma link_chunk_inv:
  assumes inv: "heap_inv s bs" and ch: "chunk mn s bs as s'"
  shows "heap_last_block s' = Some (if bs = [] then 0 else addr (last bs))"
    and "heap_inv (link_chunk (if bs = [] then 0 else addr (last bs)) (hd as) s') (bs @ map fresh as)"
    and "b \<in> set bs \<Longrightarrow> x \<in> payload b \<Longrightarrow>
      hmem (link_chunk (if bs = [] then 0 else addr (last bs)) (hd as) s') x = hmem s x"
    and "heap_frame s bs (link_chunk (if bs = [] then 0 else addr (last bs)) (hd as) s') (bs @ map fresh as)"
proof -
  let ?t = "if bs = [] then 0 else addr (last bs)"
  have same: "\<And>b x. b \<in> set bs \<Longrightarrow> x \<in> extent b \<Longrightarrow> hmem s' x = hmem s x"
    and seg': "hseg (hmem s') (hd as) (map fresh as) 0" and ok: "blks_ok (bs @ map fresh as)"
    and hd: "heap_head s' = heap_head s"
    using ch by (auto simp: chunk_def)
  have seg: "hseg (hmem s') (heap_head s') bs 0"
    using inv same header_extent hd unfolding heap_inv_def by (metis hseg_cong subsetD)
  then show "heap_last_block s' = Some ?t" by (rule heap_last_block_eq)
  have "hseg (hmem (link_chunk ?t (hd as) s')) (heap_head (link_chunk ?t (hd as) s')) (bs @ map fresh as) 0
      \<and> (\<forall>b \<in> set bs. \<forall>x \<in> payload b. hmem (link_chunk ?t (hd as) s') x = hmem s' x)"
  proof (cases bs rule: rev_cases)
    case Nil
    then show ?thesis using seg' by (simp add: link_chunk_def)
  next
    case (snoc ys c)
    have c: "hseg (hmem s') (heap_head s') ys (addr c)" "addr c \<noteq> 0"
      "c = Blk (addr c) (hb_size (hmem s') (addr c)) (hb_free (hmem s') (addr c) \<noteq> 0)"
      using seg snoc by (auto simp: hseg_append)
    let ?m = "hb_set_next (addr c) (hd as) (hmem s')"
    have out: "?m x = hmem s' x" if "x \<notin> header c" for x using that by (simp add: header_def)
    have dis: "header c \<inter> extent d = {}" if "d \<in> set ys \<or> d \<in> set (map fresh as)" for d
    proof -
      have "extent c \<inter> extent d = {}"
        using ok that unfolding snoc blks_ok_def by (simp add: apart_append) blast
      then show ?thesis using header_extent [of c] by blast
    qed
    have o1: "x \<in> header d \<Longrightarrow> x \<notin> header c" if "d \<in> set ys \<or> d \<in> set (map fresh as)" for d x
      using dis [OF that] header_extent [of d] by blast
    have "hseg ?m (heap_head s') ys (addr c)" using c(1) by (rule hseg_cong) (use out o1 in blast)
    moreover have "hseg ?m (hd as) (map fresh as) 0" using seg' by (rule hseg_cong) (use out o1 in blast)
    moreover have "hseg ?m (addr c) [c] (hd as)" using c(2,3) by simp
    ultimately have "hseg ?m (heap_head s') (bs @ map fresh as) 0"
      unfolding snoc by (auto simp: hseg_append)
    moreover have "?m x = hmem s' x" if "b \<in> set bs" "x \<in> payload b" for b x
    proof (rule out)
      have "blk_ok b" using ok that by (simp add: blks_ok_def)
      with that(2) have "x \<in> extent b" "x \<notin> header b" using payload_extent by blast+
      then show "x \<notin> header c" using that(1) dis [of b] snoc by auto
    qed
    ultimately show ?thesis using snoc c(2) by (simp add: link_chunk_def)
  qed
  moreover have "hpmm (link_chunk ?t (hd as) s') = hpmm s'" by (simp add: link_chunk_def)
  ultimately show "heap_inv (link_chunk ?t (hd as) s') (bs @ map fresh as)"
    and "b \<in> set bs \<Longrightarrow> x \<in> payload b \<Longrightarrow> hmem (link_chunk ?t (hd as) s') x = hmem s x"
    using ch same payload_extent by (auto simp: heap_inv_def chunk_def blks_ok_def; blast)+
  have "hmem (link_chunk ?t (hd as) s') x = hmem s' x" if "x \<notin> managed (hpmm s) bs" for x
  proof (cases bs rule: rev_cases)
    case (snoc ys c)
    then have "x \<notin> span (addr c) 12" using that header_extent [of c] by (auto simp: managed_def header_def)
    then show ?thesis using snoc by (simp add: link_chunk_def)
  qed (simp add: link_chunk_def)
  moreover have "hpmm (link_chunk ?t (hd as) s') = hpmm s'" by (simp add: link_chunk_def)
  ultimately show "heap_frame s bs (link_chunk ?t (hd as) s') (bs @ map fresh as)"
    using ch by (simp add: chunk_def heap_frame_def)
qed

section \<open>Rounding a request\<close>

lemma unat_and_not_7: "unat ((x :: u32) AND - 8) = unat x div 8 * 8"
  using unat_and_not_mask [of x 3] by (simp add: mask_eq_decr_exp)

lemma unat_align8:
  "unat (align8 sz) = (if unat sz \<le> 4294967288 then (unat sz + 7) div 8 * 8 else 0)"
proof -
  have "unat (sz + 7) = (unat sz + 7) mod 4294967296" by (simp add: unat_word_ariths)
  also have "\<dots> = (if unat sz \<le> 4294967288 then unat sz + 7 else unat sz - 4294967289)"
    using unat_less_2p32 [of sz] by (simp add: mod_if)
  finally show ?thesis
    using unat_less_2p32 [of sz] by (simp add: align8_def unat_and_not_7)
qed

lemma align8_idem: "align8 (align8 sz) = align8 sz"
proof -
  have "unat (align8 sz) \<le> 4294967288" and "unat (align8 sz) mod 8 = 0"
    by (auto simp: unat_align8)
  then have "unat (align8 (align8 sz)) = unat (align8 sz)"
    by (subst unat_align8) auto
  then show ?thesis by (simp add: word_unat_eq_iff)
qed
section \<open>Allocation\<close>

text \<open>Taking storage from a block that fits.\<close>

lemma take_inv:
  assumes inv: "heap_inv s (xs @ b # ys)" and fit: "fits w b"
  defines "s' \<equiv> s\<lparr>hmem := hb_set_free (addr b) 0 (split_block (addr b) w (hmem s))\<rparr>"
  shows "heap_inv s' (xs @ take_from w b @ ys)" and "x \<notin> extent b \<Longrightarrow> hmem s' x = hmem s x"
proof -
  have b: "blk_ok b" "w \<le> bsize b" and seg: "hseg (hmem s) (heap_head s) (xs @ b # ys) 0"
    and ok: "blks_ok (xs @ b # ys)"
    using inv fit by (auto simp: heap_inv_def blks_ok_def fits_def)
  have "hb_size (hmem s) (addr b) = bsize b" using seg by (auto simp: hseg_append)
  note tk = take_block [OF b this]
  note tb = take_from_blks [OF b]
  show "x \<notin> extent b \<Longrightarrow> hmem s' x = hmem s x" using tk(2) by (simp add: s'_def)
  have "hseg (hmem s') (heap_head s') (xs @ take_from w b @ ys) 0"
    unfolding s'_def using hseg_replace [OF seg _ tk(2) tk(1)] ok by (simp add: blks_ok_def)
  moreover have "blks_ok (xs @ take_from w b @ ys)" using ok tb by (rule blks_ok_replace)
  moreover have "frames_held (hpmm s') (xs @ take_from w b @ ys)"
    using frames_held_replace [OF _ tb(2)] inv by (simp add: heap_inv_def s'_def)
  ultimately show "heap_inv s' (xs @ take_from w b @ ys)"
    using inv by (simp add: heap_inv_def s'_def)
qed

text \<open>
  The result of an allocation: no live block changes or moves, and a non-null pointer is the
  payload of one new live block of at least the rounded size.
\<close>

definition alloc_result :: "u32 \<Rightarrow> heap \<Rightarrow> blk list \<Rightarrow> u32 \<Rightarrow> heap \<Rightarrow> blk list \<Rightarrow> bool" where
  "alloc_result w s bs p s' bs' \<longleftrightarrow> heap_inv s' bs' \<and> heap_frame s bs s' bs'
     \<and> (\<forall>c \<in> live bs. \<forall>x \<in> payload c. hmem s' x = hmem s x)
     \<and> (if p = 0 then live bs' = live bs
        else \<exists>b. b \<notin> live bs \<and> live bs' = insert b (live bs) \<and> p = addr b + 12 \<and> w \<le> bsize b)"

lemma live_ok: "heap_inv s bs \<Longrightarrow> c \<in> live bs \<Longrightarrow> blk_ok c \<and> payload c \<subseteq> extent c"
  using payload_extent by (auto simp: heap_inv_def blks_ok_def live_def)

lemma take_result:
  assumes inv: "heap_inv s (xs @ b # ys)" and fit: "fits w b"
  defines "s' \<equiv> s\<lparr>hmem := hb_set_free (addr b) 0 (split_block (addr b) w (hmem s))\<rparr>"
  shows "alloc_result w s (xs @ b # ys) (addr b + 12) s' (xs @ take_from w b @ ys)"
proof -
  note tk = take_inv [OF inv fit, folded s'_def]
  have ap: "apart (xs @ b # ys)" and bok: "blk_ok b" using inv by (auto simp: heap_inv_def blks_ok_def)
  have fr: "bfree b" using fit by (simp add: fits_def)
  define c where "c = Blk (addr b) (if unat (bsize b) \<le> unat w + 20 then bsize b else w) False"
  have live_take: "live (take_from w b) = {c}" by (auto simp: take_from_def c_def)
  have "c \<notin> live (xs @ b # ys)"
  proof
    assume "c \<in> live (xs @ b # ys)"
    then have "c \<in> set (xs @ b # ys)" by (simp add: live_def)
    moreover have "addr b \<in> extent b" "addr b \<in> extent c" by (simp_all add: extent_def c_def)
    ultimately have "c = b" using ap apart_same [of "xs @ b # ys" c b "addr b"] by simp
    then have "bfree b = False" by (metis c_def blk.sel(3))
    then show False using fr by simp
  qed
  moreover have "live (xs @ take_from w b @ ys) = insert c (live (xs @ b # ys))"
    using fr by (simp add: live_take)
  moreover have "hmem s' x = hmem s x" if "d \<in> live (xs @ b # ys)" "x \<in> payload d" for d x
  proof (rule tk(2))
    have "d \<in> set (xs @ b # ys)" "d \<noteq> b" using that(1) fr by (auto simp: live_def)
    then show "x \<notin> extent b"
      using apart_same [OF ap, of d b x] that(2) live_ok [OF inv that(1)] by auto
  qed
  moreover have "w \<le> bsize c" using fit by (simp add: c_def fits_def)
  moreover have "addr b + 12 \<noteq> 0"
    using bok unat_add_nowrap [of "addr b" 12] by (auto simp: blk_ok_def simp flip: unat_eq_zero)
  moreover have "heap_frame s (xs @ b # ys) s' (xs @ take_from w b @ ys)"
    using take_from_blks(2) [OF bok, of w] fit tk(2) by (auto simp: heap_frame_def managed_def fits_def s'_def)
  ultimately show ?thesis using tk(1) by (auto simp: alloc_result_def c_def)
qed

text \<open>The state in which \<open>kmalloc\<close> searches: the heap, grown by one block if it was empty.\<close>

definition ready :: "heap \<Rightarrow> heap" where
  "ready s = (if heap_head s = 0 then heap_init s else s)"

lemma heap_inv_head: "heap_inv s bs \<Longrightarrow> heap_head s = 0 \<longleftrightarrow> bs = []"
  by (cases bs) (auto simp: heap_inv_def)

lemma live_fresh [simp]: "live (map fresh as) = {}"
  by (induction as) (simp_all add: fresh_def)

lemma heap_init_fresh:
  assumes inv: "heap_inv s []" and gr: "heap_grow 64 s = (h, s1)"
  shows "if h = 0 then heap_inv (s1\<lparr>heap_head := h\<rparr>) [] else heap_inv (s1\<lparr>heap_head := h\<rparr>) [fresh h]"
    and "free_set (hpmm s1) \<subseteq> free_set (hpmm s)"
    and "heap_frame s [] (s1\<lparr>heap_head := h\<rparr>) (if h = 0 then [] else [fresh h])"
proof -
  have "(if h = 0 then heap_inv (s1\<lparr>heap_head := h\<rparr>) [] else heap_inv (s1\<lparr>heap_head := h\<rparr>) [fresh h])
      \<and> free_set (hpmm s1) \<subseteq> free_set (hpmm s)
      \<and> heap_frame s [] (s1\<lparr>heap_head := h\<rparr>) (if h = 0 then [] else [fresh h])"
  proof (cases "h = 0")
    case True
    have wf: "pmm_wf (hpmm s)" using inv by (simp add: heap_inv_def)
    note gf = heap_grow_fail [OF wf gr [unfolded True]]
    have sub: "free_set (hpmm s1) \<subseteq> free_set (hpmm s)" using gf(4) by blast
    then have "heap_frame s [] (s1\<lparr>heap_head := h\<rparr>) []" using gf(1) by (intro heap_frame_fewer) simp_all
    moreover have "heap_inv (s1\<lparr>heap_head := h\<rparr>) []"
      using True gf(3) by (simp add: heap_inv_def frames_held_def blks_ok_def)
    ultimately show ?thesis using True sub by simp
  next
    case False
    then obtain as where as: "hd as = h" "chunk 64 s [] as s1"
      using heap_grow_chunk [OF inv gr] by blast
    then have "as = [h]" by (cases as) (auto simp: chunk_def)
    moreover have "heap_inv (s1\<lparr>heap_head := h\<rparr>) (map fresh as)"
      using link_chunk_inv(2) [OF inv as(2)] as(1) by (simp add: link_chunk_def)
    moreover have "heap_frame s [] (s1\<lparr>heap_head := h\<rparr>) (map fresh as)"
      using link_chunk_inv(4) [OF inv as(2)] as(1) by (simp add: link_chunk_def)
    ultimately show ?thesis using False as by (auto simp: chunk_def)
  qed
  then show "if h = 0 then heap_inv (s1\<lparr>heap_head := h\<rparr>) [] else heap_inv (s1\<lparr>heap_head := h\<rparr>) [fresh h]"
    and "free_set (hpmm s1) \<subseteq> free_set (hpmm s)"
    and "heap_frame s [] (s1\<lparr>heap_head := h\<rparr>) (if h = 0 then [] else [fresh h])" by blast+
qed

lemma ready_inv:
  assumes inv: "heap_inv s bs"
  shows "\<exists>bs1. heap_inv (ready s) bs1 \<and> live bs1 = live bs \<and> free_set (hpmm (ready s)) \<subseteq> free_set (hpmm s)
    \<and> (bs \<noteq> [] \<longrightarrow> bs1 = bs \<and> ready s = s) \<and> (bs = [] \<longrightarrow> bs1 = [] \<or> bs1 = [fresh (heap_head (ready s))])
    \<and> heap_frame s bs (ready s) bs1"
proof (cases "bs = []")
  case False
  with heap_inv_head [OF inv] have "ready s = s" by (simp add: ready_def)
  with inv False show ?thesis by (auto intro: heap_frame_refl)
next
  case True
  obtain h s1 where gr: "heap_grow 64 s = (h, s1)" by fastforce
  have "heap_head s = 0" using inv True heap_inv_head by blast
  then have "ready s = s1\<lparr>heap_head := h\<rparr>" using gr by (simp add: ready_def heap_init_def)
  moreover have "heap_inv s []" using inv True by simp
  note heap_init_fresh [OF this gr]
  ultimately show ?thesis using True by (cases "h = 0") (auto simp: fresh_def)
qed

text \<open>The four ways one round of \<open>kmalloc\<close> can go.\<close>

lemma kmalloc_zero: "kmalloc 0 s = Some (0, s)"
  by (simp add: kmalloc.simps)

lemma kmalloc_empty: "sz \<noteq> 0 \<Longrightarrow> heap_head (ready s) = 0 \<Longrightarrow> kmalloc sz s = Some (0, ready s)"
  by (simp add: kmalloc.simps [of sz s] ready_def Let_def split: if_splits)

lemma kmalloc_hit:
  assumes "sz \<noteq> 0" and "heap_inv (ready s) (xs @ b # ys)" and "fits (align8 sz) b"
    and "\<forall>c \<in> set xs. \<not> fits (align8 sz) c"
  shows "kmalloc sz s = Some (addr b + 12, ready s\<lparr>hmem :=
    hb_set_free (addr b) 0 (split_block (addr b) (align8 sz) (hmem (ready s)))\<rparr>)"
proof -
  have "find_fit (hmem (ready s)) (align8 sz) (heap_head (ready s)) = Some (addr b)"
    using assms by (intro find_fit_some) (auto simp: heap_inv_def)
  moreover have "addr b \<noteq> 0" using assms by (auto simp: heap_inv_def hseg_append)
  moreover have "heap_head (ready s) \<noteq> 0" using assms(2) heap_inv_head by blast
  ultimately show ?thesis
    using assms(1) by (simp add: kmalloc.simps [of sz s] ready_def [symmetric] sizeof_heap_block_def Let_def)
qed

lemma kmalloc_miss:
  assumes "sz \<noteq> 0" and inv: "heap_inv (ready s) bs" and "bs \<noteq> []" and "\<forall>c \<in> set bs. \<not> fits (align8 sz) c"
    and gr: "heap_grow (align8 sz) (ready s) = (h, s1)" and lb: "heap_last_block s1 = Some t"
  shows "kmalloc sz s = (if h = 0 then Some (0, s1) else kmalloc (align8 sz) (link_chunk t h s1))"
proof -
  have "find_fit (hmem (ready s)) (align8 sz) (heap_head (ready s)) = Some 0"
    using assms by (intro find_fit_none) (auto simp: heap_inv_def)
  moreover have "heap_head (ready s) \<noteq> 0" using assms(2,3) heap_inv_head by blast
  ultimately show ?thesis
    using assms(1) gr lb
    by (subst kmalloc.simps) (simp add: ready_def [symmetric] link_chunk_def)
qed

lemma live_subset: "live bs \<subseteq> set bs"
  by (auto simp: live_def)

lemma alloc_result_lift:
  assumes "alloc_result w s2 bs2 p s' bs'" and "live bs2 = live bs" and "heap_frame s bs s2 bs2"
    and "\<And>c x. c \<in> live bs \<Longrightarrow> x \<in> payload c \<Longrightarrow> hmem s2 x = hmem s x"
  shows "alloc_result w s bs p s' bs'"
  using assms heap_frame_trans [OF assms(3), of s' bs'] unfolding alloc_result_def by (cases "p = 0") simp_all

text \<open>
  A round that finds no block: either the manager has no frame and the call fails, or the grown
  heap is searched again with fewer frames left.
\<close>

lemma miss_fails:
  assumes r: "heap_inv (ready s) bs" and "bs \<noteq> []" "sz \<noteq> 0" "\<forall>c \<in> set bs. \<not> fits (align8 sz) c"
    and gr: "heap_grow (align8 sz) (ready s) = (0, s1)"
  shows "kmalloc sz s = Some (0, s1)" and "alloc_result (align8 sz) (ready s) bs 0 s1 bs"
proof -
  have wf: "pmm_wf (hpmm (ready s))" using r by (simp add: heap_inv_def)
  note gf = heap_grow_fail [OF wf gr]
  have inv1: "heap_inv s1 bs" using r gf(1-4) by (auto simp: heap_inv_def frames_held_def)
  then have "\<exists>t. heap_last_block s1 = Some t" using heap_last_block_eq by (simp add: heap_inv_def) blast
  then show "kmalloc sz s = Some (0, s1)" using kmalloc_miss [OF assms(3) r assms(2,4) gr] by auto
  show "alloc_result (align8 sz) (ready s) bs 0 s1 bs" 
    using inv1 gf(1,4) by (auto simp: alloc_result_def intro: heap_frame_fewer)
qed

lemma miss_grows:
  assumes r: "heap_inv (ready s) bs" and "bs \<noteq> []" "sz \<noteq> 0" "\<forall>c \<in> set bs. \<not> fits (align8 sz) c"
    and gr: "heap_grow (align8 sz) (ready s) = (h, s1)" "h \<noteq> 0"
  obtains as s2 where "kmalloc sz s = kmalloc (align8 sz) s2" and "heap_inv s2 (bs @ map fresh as)"
    and "free_set (hpmm s2) \<subset> free_set (hpmm (ready s))" and "as \<noteq> []"
    and "if unat (align8 sz) \<le> 4084 then length as = 1
         else 0 \<notin> free_set (hpmm (ready s)) \<longrightarrow> free_set (hpmm s2) = {}"
    and "\<And>w p s' bs'. alloc_result w s2 (bs @ map fresh as) p s' bs' \<Longrightarrow> alloc_result w (ready s) bs p s' bs'"
proof -
  obtain as where as: "hd as = h" "chunk (align8 sz) (ready s) bs as s1"
    using heap_grow_chunk [OF r gr(1)] gr(2) by blast
  let ?t = "if bs = [] then 0 else addr (last bs)"
  let ?s2 = "link_chunk ?t h s1"
  note lk = link_chunk_inv [OF r as(2), unfolded as(1)]
  have "kmalloc sz s = kmalloc (align8 sz) ?s2"
    using kmalloc_miss [OF assms(3) r assms(2,4) gr(1) lk(1)] gr(2) by simp
  moreover have "free_set (hpmm ?s2) \<subset> free_set (hpmm (ready s))" "as \<noteq> []"
      "if unat (align8 sz) \<le> 4084 then length as = 1
       else 0 \<notin> free_set (hpmm (ready s)) \<longrightarrow> free_set (hpmm ?s2) = {}"
    using as(2) by (simp_all add: chunk_def link_chunk_def)
  moreover have "alloc_result w (ready s) bs p s' bs'"
    if "alloc_result w ?s2 (bs @ map fresh as) p s' bs'" for w p s' bs'
  proof (rule alloc_result_lift [OF that])
    show "live (bs @ map fresh as) = live bs" by simp
    show "heap_frame (ready s) bs ?s2 (bs @ map fresh as)" using lk(4) .
    show "\<And>c x. c \<in> live bs \<Longrightarrow> x \<in> payload c \<Longrightarrow> hmem ?s2 x = hmem (ready s) x"
      using lk(3) live_subset [of bs] by blast
  qed
  ultimately show thesis using that lk(2) by blast
qed

text \<open>From an intact heap \<open>kmalloc\<close> returns: each round that fails to find a block takes a frame.\<close>

lemma kmalloc_spec:
  "heap_inv s bs \<Longrightarrow> \<exists>p s' bs'. kmalloc sz s = Some (p, s') \<and> alloc_result (align8 sz) s bs p s' bs'"
proof (induction "card (free_set (hpmm s))" arbitrary: sz s bs rule: less_induct)
  case less
  note inv = less.prems
  obtain bs1 where r: "heap_inv (ready s) bs1" "live bs1 = live bs"
    "free_set (hpmm (ready s)) \<subseteq> free_set (hpmm s)" "bs \<noteq> [] \<longrightarrow> bs1 = bs \<and> ready s = s"
    "heap_frame s bs (ready s) bs1"
    using ready_inv [OF inv] by blast
  have lift: "alloc_result w s bs p s' bs'" if "alloc_result w (ready s) bs1 p s' bs'" for w p s' bs'
    using that r(2,5) by (rule alloc_result_lift) (use r(4) in \<open>auto simp: live_def\<close>)
  consider "sz = 0" | "sz \<noteq> 0" "bs1 = []" | "sz \<noteq> 0" "\<exists>c \<in> set bs1. fits (align8 sz) c"
    | "sz \<noteq> 0" "bs1 \<noteq> []" "\<forall>c \<in> set bs1. \<not> fits (align8 sz) c" by blast
  then show ?case
  proof cases
    case 1
    have "alloc_result (align8 0) s bs 0 s bs" using inv by (simp add: alloc_result_def heap_frame_refl)
    with 1 kmalloc_zero show ?thesis by auto
  next
    case 2
    then have "heap_head (ready s) = 0" using r(1) heap_inv_head by blast
    then have "kmalloc sz s = Some (0, ready s)" using 2 by (intro kmalloc_empty)
    moreover have "alloc_result (align8 sz) s bs 0 (ready s) bs1"
      by (rule lift) (use r(1) in \<open>simp add: alloc_result_def heap_frame_refl\<close>)
    ultimately show ?thesis by blast
  next
    case 3
    then obtain xs b ys where bs1: "bs1 = xs @ b # ys" "fits (align8 sz) b" "\<forall>c \<in> set xs. \<not> fits (align8 sz) c"
      using split_list_first_prop [of bs1 "fits (align8 sz)"] by auto
    show ?thesis
      using kmalloc_hit [of sz s xs b ys] take_result [of "ready s" xs b ys "align8 sz"] lift 3 r(1) bs1
      by blast
  next
    case 4
    obtain h s1 where gr: "heap_grow (align8 sz) (ready s) = (h, s1)" by fastforce
    show ?thesis
    proof (cases "h = 0")
      case True
      with miss_fails [OF r(1) 4(2,1,3)] gr lift show ?thesis by blast
    next
      case False
      obtain as s2 where g: "kmalloc sz s = kmalloc (align8 sz) s2" "heap_inv s2 (bs1 @ map fresh as)"
        "free_set (hpmm s2) \<subset> free_set (hpmm (ready s))"
        "\<And>w p s' bs'. alloc_result w s2 (bs1 @ map fresh as) p s' bs' \<Longrightarrow> alloc_result w (ready s) bs1 p s' bs'"
        using miss_grows [OF r(1) 4(2,1,3) gr False] by metis
      have "card (free_set (hpmm s2)) < card (free_set (hpmm s))"
        using g(3) r(3) by (intro psubset_card_mono) auto
      from less.hyps [OF this g(2), of "align8 sz"] g(1,4) lift show ?thesis
        by (metis align8_idem)
    qed
  qed
qed

end
