(* ===== verification/Kheap_Ops.thy ===== *)
theory Kheap_Ops
  imports Kheap_Alloc
begin

text \<open>
  Releasing, zero-filled allocation and resizing, and the contract the heap offers its clients.
\<close>

section \<open>Client stores\<close>

lemma hseg_unique: "hseg m p bs 0 \<Longrightarrow> hseg m p cs 0 \<Longrightarrow> bs = cs"
proof (induction bs arbitrary: p cs)
  case Nil
  then show ?case by (cases cs) auto
next
  case (Cons b bs)
  then show ?case by (cases cs) auto
qed

lemma heap_inv_unique: "heap_inv s bs \<Longrightarrow> heap_inv s cs \<Longrightarrow> bs = cs"
  by (auto simp: heap_inv_def dest: hseg_unique)

text \<open>A client that writes only the payload of a block keeps the heap intact.\<close>

lemma payload_header_apart:
  assumes "blks_ok bs" "b \<in> set bs" "c \<in> set bs" "x \<in> payload b"
  shows "x \<notin> header c"
proof
  assume "x \<in> header c"
  have "blk_ok b" "apart bs" using assms by (auto simp: blks_ok_def)
  then have "x \<in> extent b" "x \<notin> header b" using payload_extent assms(4) by blast+
  moreover have "x \<in> extent c" using \<open>x \<in> header c\<close> header_extent by blast
  ultimately have "b = c" using apart_same \<open>apart bs\<close> assms(2,3) by blast
  with \<open>x \<notin> header b\<close> \<open>x \<in> header c\<close> show False by blast
qed

lemma heap_inv_store:
  assumes inv: "heap_inv s bs" and b: "b \<in> set bs" and same: "\<And>x. x \<notin> payload b \<Longrightarrow> m' x = hmem s x"
  shows "heap_inv (s\<lparr>hmem := m'\<rparr>) bs"
proof -
  have "hseg m' (heap_head s) bs 0"
  proof (rule hseg_cong)
    show "hseg (hmem s) (heap_head s) bs 0" using inv by (simp add: heap_inv_def)
    fix c x assume "c \<in> set bs" "x \<in> header c"
    with inv b have "x \<notin> payload b" using payload_header_apart by (auto simp: heap_inv_def)
    then show "m' x = hmem s x" by (rule same)
  qed
  then show ?thesis using inv by (simp add: heap_inv_def)
qed

lemma payload_apart:
  assumes "heap_inv s bs" "b \<in> live bs" "c \<in> live bs" "x \<in> payload b" "x \<in> payload c"
  shows "b = c"
proof -
  have "x \<in> extent b" "x \<in> extent c" using assms live_ok [OF assms(1)] by blast+
  with assms(1-3) show ?thesis using apart_same [of bs b c x] by (auto simp: heap_inv_def blks_ok_def live_def)
qed

lemma mem_zero_at: "mem_zero p n m x = (if x \<in> span p (unat n) then 0 else m x)"
  by (simp add: mem_zero_def for_u32_fill span_def)

lemma mem_copy_at:
  "span d (unat n) \<inter> span q (unat n) = {} \<Longrightarrow>
    mem_copy d q n m x = (if x \<in> span d (unat n) then m (q + (x - d)) else m x)"
  by (simp add: mem_copy_def for_u32_copy)

section \<open>Releasing\<close>

lemma free_headers_apart:
  assumes "blks_ok bs" "c \<in> live bs" "x \<in> payload c"
  shows "x \<notin> free_headers bs"
  using assms payload_header_apart [of bs c _ x] by (auto simp: free_headers_def live_def)

lemma release_block:
  assumes inv: "heap_inv s (xs @ b # ys)"
  defines "s1 \<equiv> s\<lparr>hmem := hb_set_free (addr b) 1 (hmem s)\<rparr>"
  shows "heap_inv s1 (xs @ Blk (addr b) (bsize b) True # ys)"
    and "x \<notin> header b \<Longrightarrow> hmem s1 x = hmem s x"
proof -
  let ?b = "Blk (addr b) (bsize b) True"
  have seg: "hseg (hmem s) (heap_head s) (xs @ b # ys) 0" and ok: "blks_ok (xs @ b # ys)"
    using inv by (auto simp: heap_inv_def)
  show out: "x \<notin> header b \<Longrightarrow> hmem s1 x = hmem s x" for x by (simp add: s1_def header_def)
  have ext: "extent ?b = extent b" by (simp add: extent_def)
  have "hb_size (hmem s) (addr b) = bsize b" "addr b \<noteq> 0" using seg by (auto simp: hseg_append)
  then have "hseg (hmem s1) (addr b) [?b] (hb_next (hmem s) (addr b))" by (simp add: s1_def)
  moreover have "x \<notin> extent b \<Longrightarrow> hmem s1 x = hmem s x" for x using out header_extent by blast
  ultimately have "hseg (hmem s1) (heap_head s) (xs @ [?b] @ ys) 0"
    using ok by (intro hseg_replace [OF seg]) (simp_all add: blks_ok_def)
  moreover have "blks_ok (xs @ [?b] @ ys)"
    by (rule blks_ok_replace [OF ok]) (use ok ext in \<open>auto simp: blks_ok_def blk_ok_def\<close>)
  moreover have "frames_held (hpmm s) (xs @ [?b] @ ys)"
    by (rule frames_held_replace [where b = b]) (use inv ext in \<open>auto simp: heap_inv_def\<close>)
  ultimately show "heap_inv s1 (xs @ ?b # ys)" using inv by (simp add: heap_inv_def s1_def)
qed

lemma coalesce_inv:
  assumes inv: "heap_inv s bs"
  shows "\<exists>m'. coalesce_blocks s = Some (s\<lparr>hmem := m'\<rparr>) \<and> heap_inv (s\<lparr>hmem := m'\<rparr>) (coalesce_blks bs)
    \<and> (\<forall>c \<in> live bs. \<forall>x \<in> payload c. m' x = hmem s x) \<and> heap_frame s bs (s\<lparr>hmem := m'\<rparr>) (coalesce_blks bs)"
proof -
  have seg: "hseg (hmem s) (heap_head s) bs 0" and ok: "blks_ok bs" using inv by (auto simp: heap_inv_def)
  obtain m' where m': "coalesce_from (heap_head s) (hmem s) = Some m'"
    "hseg m' (heap_head s) (coalesce_blks bs) 0" "blks_ok (coalesce_blks bs)"
    "\<And>x. x \<notin> free_headers bs \<Longrightarrow> m' x = hmem s x"
    using coalesce_from_spec [of "hmem s" "heap_head s" "[]" bs "heap_head s"] seg ok by auto
  have "frames_held (hpmm s) (coalesce_blks bs)"
    using inv extents_coalesce [of bs] by (simp add: heap_inv_def frames_held_extents blks_ok_def)
  with inv m' have "heap_inv (s\<lparr>hmem := m'\<rparr>) (coalesce_blks bs)" by (simp add: heap_inv_def)
  moreover have "\<forall>c \<in> live bs. \<forall>x \<in> payload c. m' x = hmem s x"
    using m'(4) free_headers_apart [OF ok] by blast
  moreover have "heap_frame s bs (s\<lparr>hmem := m'\<rparr>) (coalesce_blks bs)"
  proof -
    have "x \<notin> free_headers bs" if "x \<notin> managed (hpmm s) bs" for x
      using that header_extent by (fastforce simp: managed_def free_headers_def)
    then show ?thesis using m'(4) extents_coalesce [of bs] ok by (simp add: heap_frame_def managed_def blks_ok_def)
  qed
  ultimately show ?thesis using m'(1) by (auto simp: coalesce_blocks_def)
qed

text \<open>
  \<open>kfree\<close> of a live block always returns: that block and no other leaves the set of live blocks,
  the surviving payloads are untouched, no two free neighbours are left unmerged, and there is a free
  block with room for all it held.
\<close>

lemma coalesce_room:
  "\<forall>c \<in> set bs. blk_ok c \<Longrightarrow> b \<in> set bs \<Longrightarrow> bfree b \<Longrightarrow> \<exists>c \<in> set (coalesce_blks bs). bfree c \<and> bsize b \<le> bsize c"
proof (induction bs arbitrary: b rule: coalesce_blks.induct)
  case (3 c d bs)
  show ?case
  proof (cases "merges c d")
    case True
    let ?e = "Blk (addr c) (bsize c + (12 + bsize d)) True"
    have cd: "blk_ok c" "blk_ok d" using "3.prems"(1) by auto
    have "unat (bsize ?e) = unat (bsize c) + 12 + unat (bsize d)" using merge_size(2) [OF cd True] by (simp only: blk.sel)
    then have "bsize c \<le> bsize ?e" "bsize d \<le> bsize ?e" unfolding word_le_nat_alt by linarith+
    moreover have "b = c \<or> b = d \<or> b \<in> set bs" using "3.prems"(2) by simp
    ultimately obtain a where a: "a \<in> set (?e # bs)" "bfree a" "bsize b \<le> bsize a"
      using "3.prems"(3) by (metis blk.sel(3) list.set_intros(1,2) order_refl)
    have "\<exists>x \<in> set (coalesce_blks (?e # bs)). bfree x \<and> bsize a \<le> bsize x"
      using "3.IH"(1) [OF True _ a(1,2)] "3.prems"(1) merge_extent(1) [OF cd True] by simp
    then show ?thesis using True a(3) by (auto intro: order_trans)
  next
    case False
    then show ?thesis using 3 by auto
  qed
qed auto

lemma kfree_spec:
  assumes inv: "heap_inv s bs" and b: "b \<in> live bs"
  shows "\<exists>s' bs'. kfree (addr b + 12) s = Some s' \<and> heap_inv s' bs' \<and> live bs' = live bs - {b}
    \<and> coalesced bs' \<and> hpmm s' = hpmm s
    \<and> (\<forall>c \<in> live bs - {b}. \<forall>x \<in> payload c. hmem s' x = hmem s x) \<and> heap_frame s bs s' bs'
    \<and> (\<exists>c \<in> set bs'. bfree c \<and> bsize b \<le> bsize c)"
proof -
  from b obtain xs ys where bs: "bs = xs @ b # ys" and nf: "\<not> bfree b"
    by (auto simp: live_def dest: split_list)
  let ?s1 = "s\<lparr>hmem := hb_set_free (addr b) 1 (hmem s)\<rparr>" and ?b = "Blk (addr b) (bsize b) True"
  have dist: "distinct bs" using inv apart_distinct by (auto simp: heap_inv_def blks_ok_def)
  note rel = release_block [OF inv [unfolded bs]]
  have lv: "live (xs @ ?b # ys) = live bs - {b}"
    using dist nf live_subset [of xs] live_subset [of ys] by (auto simp: bs)
  obtain m' where m': "coalesce_blocks ?s1 = Some (?s1\<lparr>hmem := m'\<rparr>)"
    "heap_inv (?s1\<lparr>hmem := m'\<rparr>) (coalesce_blks (xs @ ?b # ys))"
    "\<And>c x. c \<in> live bs - {b} \<Longrightarrow> x \<in> payload c \<Longrightarrow> m' x = hmem ?s1 x"
    "heap_frame ?s1 (xs @ ?b # ys) (?s1\<lparr>hmem := m'\<rparr>) (coalesce_blks (xs @ ?b # ys))"
    using coalesce_inv [OF rel(1)] lv by auto
  have "extent ?b = extent b" by (simp add: extent_def)
  then have "heap_frame s bs ?s1 (xs @ ?b # ys)"
    using rel(2) header_extent [of b] by (auto simp: heap_frame_def managed_def bs)
  then have fr: "heap_frame s bs (?s1\<lparr>hmem := m'\<rparr>) (coalesce_blks (xs @ ?b # ys))" using heap_frame_trans m'(4) by blast
  have "m' x = hmem s x" if "c \<in> live bs - {b}" "x \<in> payload c" for c x
  proof -
    have "x \<notin> header b"
      using payload_header_apart [of bs c b x] that b inv by (auto simp: heap_inv_def live_def)
    then show ?thesis using m'(3) [OF that] rel(2) by simp
  qed
  moreover have "addr b + 12 \<noteq> 0"
  proof -
    have "blk_ok b" using live_ok [OF inv b] by blast
    then show ?thesis using unat_add_nowrap [of "addr b" 12] by (auto simp: blk_ok_def simp flip: unat_eq_zero)
  qed
  moreover have "\<exists>c \<in> set (coalesce_blks (xs @ ?b # ys)). bfree c \<and> bsize b \<le> bsize c"
    using coalesce_room [of "xs @ ?b # ys" ?b] rel(1) by (simp add: heap_inv_def blks_ok_def)
  ultimately show ?thesis
    using m'(1,2) lv fr by (intro exI [of _ "?s1\<lparr>hmem := m'\<rparr>"] exI [of _ "coalesce_blks (xs @ ?b # ys)"])
      (auto simp: kfree_def sizeof_heap_block_def live_coalesce coalesced_coalesce)
qed

lemma kfree_null: "kfree 0 s = Some s"
  by (simp add: kfree_def)

section \<open>Zero-filled allocation\<close>

text \<open>The division check of \<open>kcalloc\<close> detects exactly the products that do not fit 32 bits.\<close>

lemma mul_overflow_check:
  fixes c n :: u32
  assumes "n \<noteq> 0"
  shows "c * n div n = c \<longleftrightarrow> unat c * unat n < 4294967296"
proof -
  have n: "0 < unat n" using assms by (simp add: unat_gt_0)
  have "c * n div n = c \<longleftrightarrow> (unat c * unat n) mod 4294967296 div unat n = unat c"
    by (simp add: word_unat_eq_iff unat_div unat_word_ariths)
  also have "\<dots> \<longleftrightarrow> unat c * unat n < 4294967296"
  proof (cases "unat c * unat n < 4294967296")
    case True
    with n show ?thesis by simp
  next
    case False
    then have "(unat c * unat n) mod 4294967296 < unat c * unat n"
      by (metis mod_less_divisor not_less order.strict_trans2 zero_less_numeral)
    with n have "(unat c * unat n) mod 4294967296 div unat n < unat c"
      by (simp add: div_less_iff_less_mult)
    with False show ?thesis by simp
  qed
  finally show ?thesis .
qed

text \<open>
  A request whose size rounds up past the top of the 32-bit range wraps to 0, so the contracts below
  ask for at most \<open>0xFFFFFFF8\<close> bytes.
\<close>

lemma align8_bounds:
  assumes "unat sz \<le> 4294967288"
  shows "unat sz \<le> unat (align8 sz)" and "unat (align8 sz) < unat sz + 8"
  using assms by (auto simp: unat_align8)

lemma payload_span:
  assumes "blk_ok b" and "n \<le> unat (bsize b)"
  shows "span (addr b + 12) n \<subseteq> payload b"
  using assms(2) by (auto simp: payload_def span_def)

lemma kcalloc_spec:
  assumes inv: "heap_inv s bs" and sz: "unat count * unat sz \<le> 4294967288"
  shows "\<exists>p s' bs'. kcalloc count sz s = Some (p, s') \<and> alloc_result (align8 (count * sz)) s bs p s' bs'
    \<and> (p \<noteq> 0 \<longrightarrow> (\<forall>x \<in> span p (unat count * unat sz). hmem s' x = 0))"
proof (cases "count = 0 \<or> sz = 0")
  case True
  moreover have "alloc_result (align8 (count * sz)) s bs 0 s bs" using inv by (simp add: alloc_result_def heap_frame_refl)
  ultimately show ?thesis by (auto simp: kcalloc_def)
next
  case False
  have total: "unat (count * sz) = unat count * unat sz" using sz by (simp add: unat_word_ariths)
  have chk: "count * sz div sz = count" using False sz by (simp add: mul_overflow_check)
  obtain p s1 bs' where km: "kmalloc (count * sz) s = Some (p, s1)"
    and res: "alloc_result (align8 (count * sz)) s bs p s1 bs'"
    using kmalloc_spec [OF inv] by blast
  show ?thesis
  proof (cases "p = 0")
    case True
    with False chk km res show ?thesis by (auto simp: kcalloc_def Let_def)
  next
    case nz: False
    let ?s2 = "s1\<lparr>hmem := mem_zero p (count * sz) (hmem s1)\<rparr>"
    from res nz obtain b where b: "b \<notin> live bs" "live bs' = insert b (live bs)" "p = addr b + 12"
      "align8 (count * sz) \<le> bsize b" and inv1: "heap_inv s1 bs'"
      by (auto simp: alloc_result_def)
    have bl: "b \<in> live bs'" using b(2) by simp
    have "unat (count * sz) \<le> unat (bsize b)"
      using align8_bounds(1) [of "count * sz"] b(4) sz total by (simp add: nat_of_word)
    then have sub: "span p (unat (count * sz)) \<subseteq> payload b"
      using payload_span live_ok [OF inv1 bl] b(3) by blast
    have "heap_inv ?s2 bs'"
      by (rule heap_inv_store [OF inv1, of b]) (use bl sub live_subset in \<open>auto simp: mem_zero_at\<close>)
    moreover have "hmem ?s2 x = hmem s x" if "c \<in> live bs" "x \<in> payload c" for c x
    proof -
      have "x \<notin> payload b" using payload_apart [OF inv1 _ bl, of c x] that b(1,2) by auto
      then show ?thesis using that sub res by (auto simp: mem_zero_at alloc_result_def)
    qed
    moreover have "heap_frame s bs ?s2 bs'"
    proof (rule heap_frame_trans)
      show "heap_frame s bs s1 bs'" using res by (simp add: alloc_result_def)
      have "payload b \<subseteq> managed (hpmm s1) bs'"
        using live_ok [OF inv1 bl] live_subset [of bs'] bl by (auto simp: managed_def)
      then show "heap_frame s1 bs' ?s2 bs'" using sub by (auto simp: heap_frame_def mem_zero_at)
    qed
    ultimately have "alloc_result (align8 (count * sz)) s bs p ?s2 bs'"
      using nz b by (auto simp: alloc_result_def)
    with False chk km nz total show ?thesis by (auto simp: kcalloc_def Let_def mem_zero_at)
  qed
qed

lemma kcalloc_overflow:
  assumes "4294967296 \<le> unat count * unat sz"
  shows "kcalloc count sz s = Some (0, s)"
proof (cases "sz = 0")
  case False
  then have "count * sz div sz \<noteq> count" using assms by (simp add: mul_overflow_check)
  with False show ?thesis by (simp add: kcalloc_def Let_def)
qed (simp add: kcalloc_def)

section \<open>Resizing\<close>

text \<open>
  What \<open>krealloc\<close> of the live block \<open>b\<close> to \<open>sz\<close> bytes delivers: a failed call changes nothing for the
  client, a successful one replaces \<open>b\<close> by a block that starts with the bytes of \<open>b\<close>.
\<close>

definition realloc_result :: "blk \<Rightarrow> u32 \<Rightarrow> heap \<Rightarrow> blk list \<Rightarrow> u32 \<Rightarrow> heap \<Rightarrow> blk list \<Rightarrow> bool" where
  "realloc_result b sz s bs p s' bs' \<longleftrightarrow> heap_inv s' bs'
     \<and> (\<forall>c \<in> live bs - {b}. \<forall>x \<in> payload c. hmem s' x = hmem s x)
     \<and> (if p = 0 then live bs' = live bs \<and> (\<forall>x \<in> payload b. hmem s' x = hmem s x)
        else \<exists>c. c \<notin> live bs - {b} \<and> live bs' = insert c (live bs - {b}) \<and> p = addr c + 12 \<and> sz \<le> bsize c
               \<and> (\<forall>i < bsize b. hmem s' (p + i) = hmem s (addr b + 12 + i)))"

lemma payload_pointer: "heap_inv s bs \<Longrightarrow> b \<in> live bs \<Longrightarrow> addr b + 12 \<noteq> 0"
  using live_ok [of s bs b] unat_add_nowrap [of "addr b" 12]
  by (auto simp: blk_ok_def simp flip: unat_eq_zero)

lemma live_header:
  assumes "heap_inv s bs" "b \<in> live bs"
  shows "hb_size (hmem s) (addr b) = bsize b"
proof -
  from assms(2) obtain xs ys where "bs = xs @ b # ys" by (auto simp: live_def dest: split_list)
  with assms(1) show ?thesis by (auto simp: heap_inv_def hseg_append)
qed

lemma payload_index: "i < bsize b \<Longrightarrow> addr b + 12 + i \<in> payload b"
  by (simp add: payload_def span_def nat_of_word)

text \<open>Copying the old block into a larger one, then releasing it.\<close>

lemma move_block:
  assumes inv: "heap_inv s1 bs" and b: "b \<in> live bs" and c: "c \<in> live bs" "c \<noteq> b" "bsize b \<le> bsize c"
  defines "s2 \<equiv> s1\<lparr>hmem := mem_copy (addr c + 12) (addr b + 12) (bsize b) (hmem s1)\<rparr>"
  shows "\<exists>s' bs'. kfree (addr b + 12) s2 = Some s' \<and> heap_inv s' bs' \<and> live bs' = live bs - {b}
    \<and> (\<forall>d \<in> live bs - {b, c}. \<forall>x \<in> payload d. hmem s' x = hmem s1 x)
    \<and> (\<forall>i < bsize b. hmem s' (addr c + 12 + i) = hmem s1 (addr b + 12 + i))"
proof -
  let ?n = "unat (bsize b)"
  have sub: "span (addr c + 12) ?n \<subseteq> payload c"
    using payload_span live_ok [OF inv c(1)] c(3) by (simp add: nat_of_word)
  have "span (addr c + 12) ?n \<inter> span (addr b + 12) ?n = {}"
    using sub payload_apart [OF inv c(1) b] c(2) by (auto simp: payload_def)
  note copy = mem_copy_at [OF this]
  have inv2: "heap_inv s2 bs" unfolding s2_def
    by (rule heap_inv_store [OF inv, of c]) (use c sub live_subset copy in auto)
  obtain s' bs' where fr: "kfree (addr b + 12) s2 = Some s'" "heap_inv s' bs'" "live bs' = live bs - {b}"
    "\<And>d x. d \<in> live bs - {b} \<Longrightarrow> x \<in> payload d \<Longrightarrow> hmem s' x = hmem s2 x"
    using kfree_spec [OF inv2 b] by blast
  have "hmem s' x = hmem s1 x" if "d \<in> live bs - {b, c}" "x \<in> payload d" for d x
  proof -
    have "x \<notin> payload c" using payload_apart [OF inv _ c(1), of d x] that by auto
    then show ?thesis using fr(4) [of d x] that sub copy by (auto simp: s2_def)
  qed
  moreover have "hmem s' (addr c + 12 + i) = hmem s1 (addr b + 12 + i)" if "i < bsize b" for i
  proof -
    have "addr c + 12 + i \<in> span (addr c + 12) ?n" using that by (simp add: span_def nat_of_word)
    moreover have "addr c + 12 + i - (addr c + 12) = i" by simp
    ultimately show ?thesis using fr(4) [of c "addr c + 12 + i"] c sub copy by (auto simp: s2_def)
  qed
  ultimately show ?thesis using fr(1-3) by blast
qed

lemma realloc_moves:
  assumes inv: "heap_inv s bs" and b: "b \<in> live bs" and sz: "unat sz \<le> 4294967288" "bsize b < sz"
    and res: "alloc_result (align8 sz) s bs p s1 bs1" and nz: "p \<noteq> 0"
  shows "\<exists>s' bs'. kfree (addr b + 12) (s1\<lparr>hmem := mem_copy p (addr b + 12) (bsize b) (hmem s1)\<rparr>) = Some s'
    \<and> realloc_result b sz s bs p s' bs' \<and> hb_size (hmem s1) (addr b) = bsize b"
proof -
  have inv1: "heap_inv s1 bs1" and keep: "\<And>d x. d \<in> live bs \<Longrightarrow> x \<in> payload d \<Longrightarrow> hmem s1 x = hmem s x"
    using res by (auto simp: alloc_result_def)
  from res nz obtain c where c: "c \<notin> live bs" "live bs1 = insert c (live bs)" "p = addr c + 12" "align8 sz \<le> bsize c"
    by (auto simp: alloc_result_def)
  then have b1: "b \<in> live bs1" and c1: "c \<in> live bs1" "c \<noteq> b" and szc: "sz \<le> bsize c"
    using b align8_bounds(1) [OF sz(1)] by (auto simp: nat_of_word)
  then have "bsize b \<le> bsize c" using sz(2) by simp
  from move_block [OF inv1 b1 c1 this] c(2,3) obtain s' bs' where mv:
    "kfree (addr b + 12) (s1\<lparr>hmem := mem_copy p (addr b + 12) (bsize b) (hmem s1)\<rparr>) = Some s'"
    "heap_inv s' bs'" "live bs' = insert c (live bs) - {b}"
    "\<And>d x. d \<in> live bs - {b, c} \<Longrightarrow> x \<in> payload d \<Longrightarrow> hmem s' x = hmem s1 x"
    "\<And>i. i < bsize b \<Longrightarrow> hmem s' (p + i) = hmem s1 (addr b + 12 + i)" by auto
  have "hmem s' x = hmem s x" if "d \<in> live bs - {b}" "x \<in> payload d" for d x
  proof -
    have "d \<in> live bs - {b, c}" using that(1) c(1) by auto
    from mv(4) [OF this that(2)] keep [of d x] that show ?thesis by simp
  qed
  moreover have "hmem s' (p + i) = hmem s (addr b + 12 + i)" if "i < bsize b" for i
    using mv(5) [OF that] keep [OF b payload_index [OF that]] by simp
  moreover have "live bs' = insert c (live bs - {b})" using mv(3) c1(2) by auto
  ultimately have "realloc_result b sz s bs p s' bs'"
    using nz mv(2) c(1,3) szc by (auto simp: realloc_result_def)
  with mv(1) live_header [OF inv1 b1] show ?thesis by blast
qed

lemma krealloc_spec:
  assumes inv: "heap_inv s bs" and b: "b \<in> live bs" and sz: "sz \<noteq> 0" "unat sz \<le> 4294967288"
  shows "\<exists>p s' bs'. krealloc (addr b + 12) sz s = Some (p, s') \<and> realloc_result b sz s bs p s' bs'"
proof -
  note nz = payload_pointer [OF inv b] and hdr = live_header [OF inv b]
  obtain p s1 bs1 where km: "kmalloc sz s = Some (p, s1)" and res: "alloc_result (align8 sz) s bs p s1 bs1"
    using kmalloc_spec [OF inv] by blast
  consider "sz \<le> bsize b" | "bsize b < sz" "p = 0" | "bsize b < sz" "p \<noteq> 0" by fastforce
  then show ?thesis
  proof cases
    case 1
    then have "krealloc (addr b + 12) sz s = Some (addr b + 12, s)"
      using nz hdr sz by (simp add: krealloc_def sizeof_heap_block_def Let_def)
    moreover have "realloc_result b sz s bs (addr b + 12) s bs"
      using 1 inv b nz by (auto simp: realloc_result_def)
    ultimately show ?thesis by blast
  next
    case 2
    then have "krealloc (addr b + 12) sz s = Some (0, s1)"
      using nz hdr sz km by (simp add: krealloc_def sizeof_heap_block_def Let_def)
    moreover have "realloc_result b sz s bs 0 s1 bs1"
      using 2 res b by (simp add: realloc_result_def alloc_result_def) blast
    ultimately show ?thesis by blast
  next
    case 3
    with realloc_moves [OF inv b sz(2) _ res] show ?thesis
      using nz hdr sz km by (fastforce simp: krealloc_def sizeof_heap_block_def Let_def)
  qed
qed

section \<open>The contract\<close>

text \<open>The blocks the clients hold, as pointers with the number of bytes behind them.\<close>

definition kheap_ok :: "heap \<Rightarrow> bool" where
  "kheap_ok s \<longleftrightarrow> (\<exists>bs. heap_inv s bs)"

definition kheap_owned :: "heap \<Rightarrow> (u32 \<times> nat) set" where
  "kheap_owned s = {(addr b + 12, unat (bsize b)) |b bs. heap_inv s bs \<and> b \<in> live bs}"

definition heap_store :: "u32 \<Rightarrow> u8 \<Rightarrow> heap \<Rightarrow> heap" where
  "heap_store x v s = s\<lparr>hmem := (hmem s)(x := v)\<rparr>"

definition block_ptr :: "blk \<Rightarrow> u32 \<times> nat" where
  "block_ptr b = (addr b + 12, unat (bsize b))"

lemma kheap_owned_eq: "heap_inv s bs \<Longrightarrow> kheap_owned s = block_ptr ` live bs"
  by (auto simp: kheap_owned_def block_ptr_def dest: heap_inv_unique)

lemma payload_eq_span: "payload b = span (fst (block_ptr b)) (snd (block_ptr b))"
  by (simp add: payload_def block_ptr_def)

lemma block_ptr_inj:
  assumes "heap_inv s bs" "b \<in> live bs" "c \<in> live bs" "fst (block_ptr b) = fst (block_ptr c)"
  shows "b = c"
proof -
  have "addr b = addr c" using assms(4) by (simp add: block_ptr_def)
  then have "addr b \<in> extent b" "addr b \<in> extent c" by (simp_all add: extent_def)
  with assms show ?thesis using apart_same [of bs b c] by (auto simp: heap_inv_def blks_ok_def live_def)
qed

lemma block_ptr_insert:
  assumes "heap_inv s' bs'" "live bs' = insert b (live bs)" "b \<notin> live bs"
  shows "block_ptr b \<notin> block_ptr ` live bs"
  using assms block_ptr_inj [of s' bs' b] by fastforce

lemma block_ptr_remove:
  assumes "heap_inv s bs" "b \<in> live bs"
  shows "block_ptr ` (live bs - {b}) = block_ptr ` live bs - {block_ptr b}"
  using assms block_ptr_inj [OF assms(1)] by fastforce

lemma kmalloc_contract:
  assumes ok: "kheap_ok s" and km: "kmalloc n s = Some (p, s')"
  shows "kheap_ok s'" and "p = 0 \<Longrightarrow> kheap_owned s' = kheap_owned s"
    and "p \<noteq> 0 \<Longrightarrow> \<exists>k. kheap_owned s' = insert (p, k) (kheap_owned s) \<and> (p, k) \<notin> kheap_owned s
      \<and> (unat n \<le> 4294967288 \<longrightarrow> unat n \<le> k)"
    and "(q, k) \<in> kheap_owned s \<Longrightarrow> x \<in> span q k \<Longrightarrow> hmem s' x = hmem s x"
proof -
  from ok obtain bs where inv: "heap_inv s bs" by (auto simp: kheap_ok_def)
  with kmalloc_spec [OF inv, of n] km obtain bs' where res: "alloc_result (align8 n) s bs p s' bs'" by auto
  then have inv': "heap_inv s' bs'" by (simp add: alloc_result_def)
  note own = kheap_owned_eq [OF inv] kheap_owned_eq [OF inv']
  show "kheap_ok s'" using inv' by (auto simp: kheap_ok_def)
  show "p = 0 \<Longrightarrow> kheap_owned s' = kheap_owned s" using res own by (simp add: alloc_result_def)
  show "(q, k) \<in> kheap_owned s \<Longrightarrow> x \<in> span q k \<Longrightarrow> hmem s' x = hmem s x"
    using res by (auto simp: own block_ptr_def payload_def alloc_result_def)
  assume "p \<noteq> 0"
  then obtain b where b: "b \<notin> live bs" "live bs' = insert b (live bs)" "p = addr b + 12" "align8 n \<le> bsize b"
    using res by (auto simp: alloc_result_def)
  then have "kheap_owned s' = insert (p, unat (bsize b)) (kheap_owned s)"
    by (simp add: own block_ptr_def)
  moreover have "(p, unat (bsize b)) \<notin> kheap_owned s"
    using block_ptr_insert [OF inv' b(2,1)] b(3) by (simp add: own) (simp add: block_ptr_def)
  moreover have "unat n \<le> 4294967288 \<longrightarrow> unat n \<le> unat (bsize b)"
    using align8_bounds(1) [of n] b(4) by (auto simp: nat_of_word)
  ultimately show "\<exists>k. kheap_owned s' = insert (p, k) (kheap_owned s) \<and> (p, k) \<notin> kheap_owned s
      \<and> (unat n \<le> 4294967288 \<longrightarrow> unat n \<le> k)" by blast
qed

lemma kfree_contract:
  assumes "kheap_ok s" "(p, k) \<in> kheap_owned s"
  shows "\<exists>s'. kfree p s = Some s' \<and> kheap_ok s' \<and> kheap_owned s' = kheap_owned s - {(p, k)}
    \<and> (\<forall>q j x. (q, j) \<in> kheap_owned s - {(p, k)} \<longrightarrow> x \<in> span q j \<longrightarrow> hmem s' x = hmem s x)"
proof -
  from assms obtain bs b where b: "heap_inv s bs" "b \<in> live bs" "p = addr b + 12" "k = unat (bsize b)"
    by (auto simp: kheap_owned_def)
  then obtain s' bs' where f: "kfree p s = Some s'" "heap_inv s' bs'" "live bs' = live bs - {b}"
    "\<forall>c \<in> live bs - {b}. \<forall>x \<in> payload c. hmem s' x = hmem s x"
    using kfree_spec by metis
  have "kheap_owned s' = kheap_owned s - {(p, k)}"
    using block_ptr_remove [OF b(1,2)] kheap_owned_eq [OF b(1)] kheap_owned_eq [OF f(2)] b f(3)
    by (simp add: block_ptr_def)
  moreover have "hmem s' x = hmem s x" if qj: "(q, j) \<in> kheap_owned s - {(p, k)}" "x \<in> span q j" for q j x
  proof -
    obtain c where "c \<in> live bs - {b}" "q = addr c + 12" "j = unat (bsize c)"
      using qj(1) b(3,4) unfolding kheap_owned_eq [OF b(1)] by (auto simp: block_ptr_def)
    then show ?thesis using f(4) qj(2) by (simp add: payload_def)
  qed
  ultimately show ?thesis using f(1,2) by (auto simp: kheap_ok_def)
qed

lemma store_contract:
  assumes "(p, k) \<in> kheap_owned s" "x \<in> span p k"
  shows "kheap_ok (heap_store x v s)" and "kheap_owned (heap_store x v s) = kheap_owned s"
proof -
  from assms obtain bs b where b: "heap_inv s bs" "b \<in> live bs" "x \<in> payload b"
    by (auto simp: kheap_owned_def payload_def)
  then have inv': "heap_inv (heap_store x v s) bs" unfolding heap_store_def
    using live_subset by (intro heap_inv_store [of s bs b]) auto
  then show "kheap_ok (heap_store x v s)" "kheap_owned (heap_store x v s) = kheap_owned s"
    using kheap_owned_eq [OF b(1)] kheap_owned_eq [OF inv'] by (auto simp: kheap_ok_def)
qed

lemma owned_pair:
  assumes "kheap_ok s" "(p, j) \<in> kheap_owned s" "(q, k) \<in> kheap_owned s"
  obtains bs b c where "heap_inv s bs" "b \<in> live bs" "c \<in> live bs" "block_ptr b = (p, j)" "block_ptr c = (q, k)"
  using assms by (auto simp: kheap_ok_def kheap_owned_eq)

interpretation kh: byte_allocator kmalloc kfree heap_store hmem kheap_ok kheap_owned
proof (unfold_locales, goal_cases)
  case (1 s n)
  then obtain bs where "heap_inv s bs" by (auto simp: kheap_ok_def)
  with kmalloc_spec show ?case by blast
next
  case (2 s n p s')
  with kmalloc_contract [OF 2] show ?case by blast
next
  case (3 s p k)
  then show ?case by (rule kfree_contract)
next
  case (4 s p k x v)
  then show ?case using store_contract [of p k s x v] by (simp add: heap_store_def)
next
  case (5 s p j q k)
  then obtain bs b c where b: "heap_inv s bs" "b \<in> live bs" "c \<in> live bs" "block_ptr b = (p, j)" "block_ptr c = (q, k)"
    using owned_pair by blast
  with 5 have "b \<noteq> c" by auto
  then have "payload b \<inter> payload c = {}" using payload_apart [OF b(1-3)] by blast
  then show ?case using b(4,5) by (simp add: payload_eq_span)
next
  case (6 s p j k)
  then obtain bs b c where b: "heap_inv s bs" "b \<in> live bs" "c \<in> live bs" "block_ptr b = (p, j)" "block_ptr c = (p, k)"
    using owned_pair by blast
  with block_ptr_inj [OF b(1-3)] show ?case by auto
qed

end
