(* ===== verification/Kheap_Props.thy ===== *)
theory Kheap_Props
  imports Kheap_Ops
begin

text \<open>
  The properties of the kernel heap, with the sample heap on which their witnesses run.
\<close>

section \<open>When a request succeeds, and what a failing one costs\<close>

lemma ready_empty:
  assumes inv: "heap_inv s []" and "heap_head (ready s) = 0" and nz: "0 \<notin> free_set (hpmm s)"
  shows "free_set (hpmm s) = {}" and "free_set (hpmm (ready s)) = {}"
proof -
  obtain h s1 where gr: "heap_grow 64 s = (h, s1)" by fastforce
  have "heap_head s = 0" using inv heap_inv_head by blast
  then have r: "ready s = s1\<lparr>heap_head := h\<rparr>" using gr by (simp add: ready_def heap_init_def)
  then have "h = 0" using assms(2) by simp
  moreover have "pmm_wf (hpmm s)" using inv by (simp add: heap_inv_def)
  ultimately show "free_set (hpmm s) = {}" "free_set (hpmm (ready s)) = {}"
    using heap_grow_fail [of s 64 s1] gr nz r by auto
qed

lemma ready_nonempty: "heap_inv s bs \<Longrightarrow> bs \<noteq> [] \<Longrightarrow> ready s = s"
  using heap_inv_head by (simp add: ready_def)

lemma fits_fresh: "fits w (fresh a) \<longleftrightarrow> unat w \<le> 4084"
  by (simp add: fits_def fresh_def nat_of_word)

lemma kmalloc_first_fit:
  assumes "sz \<noteq> 0" and inv: "heap_inv (ready s) bs" and ex: "\<exists>c \<in> set bs. fits (align8 sz) c"
  shows "\<exists>p s'. kmalloc sz s = Some (p, s') \<and> p \<noteq> 0"
proof -
  obtain xs b ys where bs: "bs = xs @ b # ys" "fits (align8 sz) b" "\<forall>c \<in> set xs. \<not> fits (align8 sz) c"
    using split_list_first_prop [OF ex] by blast
  have "blk_ok b" using inv bs(1) by (simp add: heap_inv_def blks_ok_def)
  then have "addr b + 12 \<noteq> 0"
    using unat_add_nowrap [of "addr b" 12] by (auto simp: blk_ok_def simp flip: unat_eq_zero)
  then show ?thesis using kmalloc_hit [of sz s xs b ys] assms(1) inv bs by blast
qed

lemma align8_small: "unat sz \<le> 4080 \<Longrightarrow> unat (align8 sz) \<le> 4084"
  by (simp add: unat_align8)

lemma align8_nonzero: "sz \<noteq> 0 \<Longrightarrow> unat sz \<le> 4294967288 \<Longrightarrow> align8 sz \<noteq> 0"
  using align8_bounds(1) [of sz] by (auto simp flip: unat_eq_zero)

text \<open>With no frame left a request that no block serves fails.\<close>

lemma drained_fails:
  assumes inv: "heap_inv s bs" and "sz \<noteq> 0" and "bs \<noteq> []" and none: "\<forall>c \<in> set bs. \<not> fits (align8 sz) c"
    and empty: "free_set (hpmm s) = {}"
  shows "\<exists>s'. kmalloc sz s = Some (0, s') \<and> free_set (hpmm s') = {}"
proof -
  have r: "ready s = s" using ready_nonempty [OF inv assms(3)] .
  obtain h s1 where gr: "heap_grow (align8 sz) (ready s) = (h, s1)" by fastforce
  have "h = 0"
  proof (rule ccontr)
    assume "h \<noteq> 0"
    from heap_grow_chunk [OF _ gr this, of bs] inv r empty show False by (auto simp: chunk_def)
  qed
  moreover have "pmm_wf (hpmm (ready s))" using inv r by (simp add: heap_inv_def)
  ultimately show ?thesis
    using miss_fails(1) [of s bs sz s1] heap_grow_fail(4) [of "ready s" "align8 sz" s1] assms gr r by auto
qed

lemma kmalloc_small:
  assumes inv: "heap_inv s bs" and sz: "sz \<noteq> 0" "unat sz \<le> 4080"
    and fr: "free_set (hpmm s) \<noteq> {}" "0 \<notin> free_set (hpmm s)"
  shows "\<exists>p s'. kmalloc sz s = Some (p, s') \<and> p \<noteq> 0"
proof -
  obtain bs1 where r: "heap_inv (ready s) bs1" "bs \<noteq> [] \<longrightarrow> bs1 = bs \<and> ready s = s"
    "bs = [] \<longrightarrow> bs1 = [] \<or> bs1 = [fresh (heap_head (ready s))]"
    using ready_inv [OF inv] by blast
  have ne: "bs1 \<noteq> []"
    using r ready_empty [of s] inv fr heap_inv_head [OF r(1)] by (cases "bs = []") auto
  show ?thesis
  proof (cases "\<exists>c \<in> set bs1. fits (align8 sz) c")
    case True
    with kmalloc_first_fit [OF sz(1) r(1)] show ?thesis by blast
  next
    case False
    then have "bs \<noteq> []" using r(3) ne align8_small [OF sz(2)] by (auto simp: fits_fresh)
    then have rs: "ready s = s" using r(2) by blast
    obtain h s1 where gr: "heap_grow (align8 sz) (ready s) = (h, s1)" by fastforce
    have "h \<noteq> 0" using heap_grow_fail(5) [of s "align8 sz" s1] gr fr inv rs by (auto simp: heap_inv_def)
    then obtain as s2 where g: "kmalloc sz s = kmalloc (align8 sz) s2" "heap_inv s2 (bs1 @ map fresh as)" "as \<noteq> []"
      using miss_grows [OF r(1) ne sz(1) _ gr] False by metis
    have "heap_inv (ready s2) (bs1 @ map fresh as)" using g(2) ready_nonempty [OF g(2)] ne by simp
    moreover have "\<exists>c \<in> set (bs1 @ map fresh as). fits (align8 (align8 sz)) c"
      using g(3) align8_small [OF sz(2)] by (cases as) (auto simp: align8_idem fits_fresh)
    moreover have "align8 sz \<noteq> 0" using align8_nonzero sz by simp
    ultimately show ?thesis using kmalloc_first_fit [of "align8 sz" s2] g(1) by auto
  qed
qed

text \<open>So a zero-filled array of at most 4080 bytes is granted while a frame is left.\<close>

lemma kcalloc_small:
  assumes "heap_inv s bs" and n: "count \<noteq> 0" "sz \<noteq> 0" "unat count * unat sz \<le> 4080"
    and "free_set (hpmm s) \<noteq> {}" "0 \<notin> free_set (hpmm s)"
  shows "\<exists>p s'. kcalloc count sz s = Some (p, s') \<and> p \<noteq> 0"
proof -
  have total: "unat (count * sz) = unat count * unat sz" using n(3) by (simp add: unat_word_ariths)
  have "0 < unat count" "0 < unat sz" using n by (simp_all add: unat_gt_0)
  then have "0 < unat (count * sz)" using total by simp
  then have "count * sz \<noteq> 0" by auto
  then obtain p s' where "kmalloc (count * sz) s = Some (p, s')" "p \<noteq> 0"
    using kmalloc_small [OF assms(1), of "count * sz"] assms total by auto
  moreover have "count * sz div sz = count" using n by (simp add: mul_overflow_check)
  ultimately show ?thesis using n by (simp add: kcalloc_def Let_def)
qed

section \<open>A sample heap\<close>

text \<open>One frame of heap at 2 MiB, holding one used block, and one more free frame.\<close>

definition blk_sample :: blk where "blk_sample = Blk 0x200000 4084 False"

definition heap_sample :: heap where
  "heap_sample = \<lparr>hmem = hb_set_free 0x200000 0 (init_block 0x200000 (\<lambda>_. 0)),
     hpmm = pmm_sample, heap_head = 0x200000\<rparr>"

definition heap_empty :: heap where
  "heap_empty = \<lparr>hmem = (\<lambda>_. 0), hpmm = pmm_sample, heap_head = 0\<rparr>"

lemma heap_empty_inv: "heap_inv heap_empty []"
  by (simp add: heap_inv_def heap_empty_def pmm_sample_wf blks_ok_def frames_held_def)

lemma heap_sample_inv: "heap_inv heap_sample [blk_sample]"
proof -
  have "blks_ok [blk_sample]" by (simp add: blks_ok_def blk_sample_def blk_ok_def)
  moreover have "frame_of x = 512" if "x \<in> extent blk_sample" for x
    using that span_frame [of "0x200000" x] by (simp add: blk_sample_def extent_def frame_addr_def frame_of_def)
  then have "frames_held pmm_sample [blk_sample]"
    by (auto simp: frames_held_def pmm_sample_free frame_of_def)
  ultimately show ?thesis
    by (simp add: heap_inv_def heap_sample_def pmm_sample_wf blk_sample_def)
qed

lemma live_sample: "live [blk_sample] = {blk_sample}"
  by (simp add: blk_sample_def)

section \<open>Properties\<close>

text \<open>
  C1. On an intact heap \<open>kmalloc\<close> always returns, and leaves an intact
  heap in which every block in use keeps its place and its bytes. A null result takes nothing; a
  non-null result is the payload of one new block in use, which shares no byte with any other block in
  use. For a request of at most \<open>2^32 - 8\<close> bytes the block holds at least the requested bytes; a larger one
  is rounded to 0 bytes. Memory that is neither in a block of the heap nor in a frame the manager still has
  is not written.
\<close>

theorem kmalloc_gives_fresh_storage:
  assumes inv: "heap_inv s bs"
  shows "\<exists>p s' bs'. kmalloc sz s = Some (p, s') \<and> heap_inv s' bs' \<and> heap_frame s bs s' bs'
    \<and> (\<forall>c \<in> live bs. \<forall>x \<in> payload c. hmem s' x = hmem s x)
    \<and> (if p = 0 then live bs' = live bs
       else \<exists>b. b \<notin> live bs \<and> live bs' = insert b (live bs) \<and> p = addr b + 12
              \<and> (unat sz \<le> 4294967288 \<longrightarrow> unat sz \<le> unat (bsize b)) \<and> (\<forall>c \<in> live bs. payload b \<inter> payload c = {}))"
proof -
  obtain p s' bs' where km: "kmalloc sz s = Some (p, s')" and res: "alloc_result (align8 sz) s bs p s' bs'"
    using kmalloc_spec [OF inv] by blast
  then have inv': "heap_inv s' bs'" and keep: "\<forall>c \<in> live bs. \<forall>x \<in> payload c. hmem s' x = hmem s x"
    and fr: "heap_frame s bs s' bs'" by (auto simp: alloc_result_def)
  have "\<exists>b. b \<notin> live bs \<and> live bs' = insert b (live bs) \<and> p = addr b + 12
      \<and> (unat sz \<le> 4294967288 \<longrightarrow> unat sz \<le> unat (bsize b)) \<and> (\<forall>c \<in> live bs. payload b \<inter> payload c = {})" if nz: "p \<noteq> 0"
  proof -
    from res nz obtain b where b: "b \<notin> live bs" "live bs' = insert b (live bs)" "p = addr b + 12" "align8 sz \<le> bsize b"
      by (auto simp: alloc_result_def)
    moreover have "unat sz \<le> unat (bsize b)" if "unat sz \<le> 4294967288"
      using align8_bounds(1) [OF that] b(4) by (simp add: nat_of_word)
    moreover have "payload b \<inter> payload c = {}" if "c \<in> live bs" for c
      using payload_apart [OF inv', of b c] b(1,2) that by auto
    ultimately show ?thesis by blast
  qed
  with km inv' keep res fr show ?thesis by (auto simp: alloc_result_def)
qed

theorem kmalloc_gives_fresh_storage_witness:
  "heap_inv heap_sample [blk_sample] \<and> (\<exists>p s' bs'. kmalloc 24 heap_sample = Some (p, s') \<and> heap_inv s' bs'
    \<and> heap_frame heap_sample [blk_sample] s' bs'
    \<and> (\<forall>c \<in> live [blk_sample]. \<forall>x \<in> payload c. hmem s' x = hmem heap_sample x)
    \<and> (if p = 0 then live bs' = live [blk_sample]
       else \<exists>b. b \<notin> live [blk_sample] \<and> live bs' = insert b (live [blk_sample]) \<and> p = addr b + 12
              \<and> (unat (24 :: u32) \<le> 4294967288 \<longrightarrow> unat (24 :: u32) \<le> unat (bsize b))
              \<and> (\<forall>c \<in> live [blk_sample]. payload b \<inter> payload c = {})))"
  using kmalloc_gives_fresh_storage [OF heap_sample_inv, of 24] heap_sample_inv by blast

text \<open>
  C16. \<open>kfree\<close> of the payload pointer of a block in use always returns: exactly that
  block leaves the blocks in use, all others keep their bytes, no frame moves, and afterwards no free
  block is followed in the list by a free block that begins where it ends.
\<close>

theorem kfree_releases:
  assumes "heap_inv s bs" and "b \<in> live bs"
  shows "\<exists>s' bs'. kfree (addr b + 12) s = Some s' \<and> heap_inv s' bs' \<and> live bs' = live bs - {b}
    \<and> coalesced bs' \<and> hpmm s' = hpmm s
    \<and> (\<forall>c \<in> live bs - {b}. \<forall>x \<in> payload c. hmem s' x = hmem s x)"
  using kfree_spec [OF assms] by blast

theorem kfree_releases_witness:
  "heap_inv heap_sample [blk_sample] \<and> (\<exists>s' bs'. kfree (addr blk_sample + 12) heap_sample = Some s'
    \<and> heap_inv s' bs' \<and> live bs' = {} \<and> coalesced bs' \<and> hpmm s' = hpmm heap_sample)"
  using kfree_releases [OF heap_sample_inv, of blk_sample] heap_sample_inv live_sample by auto

text \<open>
  \<open>kcalloc\<close> rejects exactly the products that do not fit 32 bits before it
  touches the heap; otherwise a non-null result is new storage for the whole array, all of it zero,
  and the other blocks in use keep their bytes.
\<close>

theorem kcalloc_zeroes:
  assumes "heap_inv s bs" and "unat count * unat sz \<notin> {4294967289 ..< 4294967296}"
  shows "if 4294967296 \<le> unat count * unat sz then kcalloc count sz s = Some (0, s)
    else \<exists>p s' bs'. kcalloc count sz s = Some (p, s') \<and> alloc_result (align8 (count * sz)) s bs p s' bs'
      \<and> (p \<noteq> 0 \<longrightarrow> (\<forall>x \<in> span p (unat count * unat sz). hmem s' x = 0))"
  using assms kcalloc_overflow kcalloc_spec [OF assms(1), of count sz] by auto

theorem kcalloc_zeroes_witness:
  "heap_inv heap_sample [blk_sample] \<and> (\<exists>p s' bs'. kcalloc 3 108 heap_sample = Some (p, s')
    \<and> alloc_result (align8 (3 * 108)) heap_sample [blk_sample] p s' bs'
    \<and> (p \<noteq> 0 \<longrightarrow> (\<forall>x \<in> span p 324. hmem s' x = 0)))"
  using kcalloc_zeroes [OF heap_sample_inv, of 3 108] heap_sample_inv by simp

text \<open>
  C17. \<open>krealloc\<close> of a null pointer is \<open>kmalloc\<close>. For a block in use and a new size of at most
  \<open>2^32 - 8\<close> bytes it always returns, and every other block in use keeps its bytes. Size 0 releases the block and
  returns null. For any other size a null result leaves the block as it was; otherwise the result is a
  block in use of at least the new size whose first bytes are those of the old block, which is in use no longer
  unless it is the result.
\<close>

theorem krealloc_keeps_contents:
  assumes "heap_inv s bs" and "b \<in> live bs" and "unat sz \<le> 4294967288"
  shows "krealloc 0 sz s = kmalloc sz s
     \<and> (\<exists>p s' bs'. krealloc (addr b + 12) sz s = Some (p, s') \<and> heap_inv s' bs'
     \<and> (\<forall>c \<in> live bs - {b}. \<forall>x \<in> payload c. hmem s' x = hmem s x)
     \<and> (if sz = 0 then p = 0 \<and> live bs' = live bs - {b}
        else if p = 0 then live bs' = live bs \<and> (\<forall>x \<in> payload b. hmem s' x = hmem s x)
        else \<exists>c. c \<notin> live bs - {b} \<and> live bs' = insert c (live bs - {b}) \<and> p = addr c + 12 \<and> sz \<le> bsize c
               \<and> (\<forall>i < bsize b. hmem s' (p + i) = hmem s (addr b + 12 + i))))"
proof (cases "sz = 0")
  case True
  obtain s' bs' where f: "kfree (addr b + 12) s = Some s'" "heap_inv s' bs'" "live bs' = live bs - {b}"
    "\<forall>c \<in> live bs - {b}. \<forall>x \<in> payload c. hmem s' x = hmem s x" using kfree_spec [OF assms(1,2)] by blast
  then have "krealloc (addr b + 12) 0 s = Some (0, s')" using payload_pointer [OF assms(1,2)] by (simp add: krealloc_def)
  then show ?thesis using True f by (auto simp: krealloc_def [of 0])
next
  case False
  then show ?thesis using krealloc_spec [OF assms(1,2) False assms(3)] unfolding realloc_result_def by (simp add: krealloc_def [of 0])
qed

theorem krealloc_keeps_contents_witness:
  "heap_inv heap_sample [blk_sample] \<and> (\<exists>p s' bs'. krealloc (addr blk_sample + 12) 100 heap_sample = Some (p, s')
     \<and> heap_inv s' bs')"
  using krealloc_keeps_contents [OF heap_sample_inv, of blk_sample 100] heap_sample_inv live_sample by auto

text \<open>
  C6. Take any sequence of calls of \<open>kmalloc\<close> and \<open>kfree\<close> and of byte stores by
  clients that return and write only storage they hold. Every call returns, the heap stays intact,
  and each block that was not returned is still held and contains exactly the bytes last stored there.
\<close>

theorem heap_clients_isolated:
  assumes "kheap_ok s" and "legal_ops kmalloc kfree heap_store kheap_owned ops s"
  shows "\<exists>s'. run_ops kmalloc kfree heap_store ops s = Some s' \<and> kheap_ok s' \<and>
    (\<forall>q k. (q, k) \<in> kheap_owned s \<longrightarrow> Drop q \<notin> set ops \<longrightarrow>
       (q, k) \<in> kheap_owned s' \<and> (\<forall>x \<in> span q k. hmem s' x = last_store ops x (hmem s x)))"
  using assms by (rule kh.run_keeps)

lemma owned_sample: "kheap_owned heap_sample = {(0x20000C, 4084)}"
  by (simp add: kheap_owned_eq [OF heap_sample_inv] live_sample) (simp add: block_ptr_def blk_sample_def)

theorem heap_clients_isolated_witness:
  "legal_ops kmalloc kfree heap_store kheap_owned [Store 0x20000C 7, Get 16] heap_sample
   \<and> (\<exists>s'. run_ops kmalloc kfree heap_store [Store 0x20000C 7, Get 16] heap_sample = Some s' \<and> kheap_ok s'
     \<and> (0x20000C, 4084) \<in> kheap_owned s' \<and> hmem s' 0x20000C = 7)"
proof -
  have legal: "legal_ops kmalloc kfree heap_store kheap_owned [Store 0x20000C 7, Get 16] heap_sample"
    by (simp add: owned_sample)
  have "kheap_ok heap_sample" using heap_sample_inv by (auto simp: kheap_ok_def)
  from heap_clients_isolated [OF this legal] obtain s' where s':
    "run_ops kmalloc kfree heap_store [Store 0x20000C 7, Get 16] heap_sample = Some s'" "kheap_ok s'"
    "(0x20000C, 4084) \<in> kheap_owned s'"
    "\<forall>x \<in> span 0x20000C 4084. hmem s' x = last_store [Store 0x20000C 7, Get 16] x (hmem heap_sample x)"
    by (auto simp: owned_sample)
  from s'(4) have "hmem s' 0x20000C = 7" by simp
  with legal s'(1-3) show ?thesis by blast
qed

text \<open>
  A request of 1 to 4080 bytes succeeds as long as the manager has a
  free frame (frame 0, whose address means failure, is not among them).
\<close>

theorem kmalloc_small_succeeds:
  assumes "heap_inv s bs" and "sz \<noteq> 0" and "unat sz \<le> 4080"
    and "free_set (hpmm s) \<noteq> {}" and "0 \<notin> free_set (hpmm s)"
  shows "\<exists>p s'. kmalloc sz s = Some (p, s') \<and> p \<noteq> 0"
  using assms by (rule kmalloc_small)

theorem kmalloc_small_succeeds_witness:
  "heap_inv heap_empty [] \<and> free_set (hpmm heap_empty) = {256}
    \<and> (\<exists>p s'. kmalloc 1024 heap_empty = Some (p, s') \<and> p \<noteq> 0)"
  using kmalloc_small_succeeds [OF heap_empty_inv, of 1024] heap_empty_inv
  by (simp add: heap_empty_def pmm_sample_free)



text \<open>A request that is rounded to 0 bytes: served from the first free block, or with null.\<close>

lemma kmalloc_wrap_hit:
  assumes inv: "heap_inv (ready s) bs" and w: "align8 sz = 0" and sz0: "sz \<noteq> 0" and ex: "\<exists>c \<in> set bs. bfree c"
  shows "\<exists>s' bs' b. kmalloc sz s = Some (addr b + 12, s') \<and> addr b + 12 \<noteq> 0 \<and> heap_inv s' bs'
    \<and> live bs' = insert b (live bs) \<and> unat (bsize b) \<le> 20"
proof -
  obtain xs b ys where bs: "bs = xs @ b # ys" "bfree b" "\<forall>c \<in> set xs. \<not> bfree c"
    using split_list_first_prop [OF ex] by blast
  have fit: "fits (align8 sz) b" and nofit: "\<forall>c \<in> set xs. \<not> fits (align8 sz) c"
    using bs(2,3) w by (auto simp: fits_def)
  let ?s' = "ready s\<lparr>hmem := hb_set_free (addr b) 0 (split_block (addr b) (align8 sz) (hmem (ready s)))\<rparr>"
  have "kmalloc sz s = Some (addr b + 12, ?s')" using kmalloc_hit [OF sz0 _ fit nofit] inv bs(1) by simp
  moreover have "heap_inv ?s' (xs @ take_from (align8 sz) b @ ys)" using take_inv(1) [OF _ fit] inv bs(1) by simp
  moreover have "\<exists>c. live (take_from (align8 sz) b) = {c} \<and> addr c = addr b \<and> unat (bsize c) \<le> 20"
    using w by (auto simp: take_from_def)
  then obtain c where c: "live (take_from (align8 sz) b) = {c}" "addr c = addr b" "unat (bsize c) \<le> 20" by blast
  moreover have "live (xs @ take_from (align8 sz) b @ ys) = insert c (live bs)" using bs c(1) by auto
  moreover have "addr b + 12 \<noteq> 0"
    using inv bs(1) unat_add_nowrap [of "addr b" 12]
    by (auto simp: heap_inv_def blks_ok_def blk_ok_def simp flip: unat_eq_zero)
  ultimately show ?thesis using c(2,3) by metis
qed

lemma kmalloc_wrap_miss:
  assumes inv: "heap_inv s bs" and w: "align8 sz = 0" and sz0: "sz \<noteq> 0" and bs: "bs \<noteq> []" "\<forall>c \<in> set bs. \<not> bfree c"
    and km: "kmalloc sz s = Some (p, s')"
  shows "p = 0"
proof -
  have "find_fit (hmem s) 0 (heap_head s) = Some 0"
    using inv bs(2) by (intro find_fit_none) (auto simp: heap_inv_def fits_def)
  moreover have "heap_head s \<noteq> 0" using inv bs(1) heap_inv_head by blast
  ultimately show ?thesis
    using km sz0 w unfolding kmalloc.simps [of sz s]
    by (auto simp: kmalloc_zero bind_eq_Some_conv split: prod.splits if_splits)
qed

text \<open>
  C36. A request of \<open>0xFFFFFFF9\<close> bytes or more is rounded to 0 bytes. \<open>kmalloc\<close> returns null or hands out
  a block of at most 20 bytes as if it were of the requested size: it does the latter whenever the heap has a
  free block, and returns null when it has blocks and none is free.
\<close>

theorem kmalloc_wraps:
  assumes inv: "heap_inv s bs" and sz: "4294967288 < unat sz"
  shows "\<exists>p s' bs'. kmalloc sz s = Some (p, s') \<and> heap_inv s' bs'
    \<and> (if p = 0 then live bs' = live bs
       else \<exists>b. live bs' = insert b (live bs) \<and> p = addr b + 12 \<and> unat (bsize b) \<le> 20)
    \<and> ((\<exists>c \<in> set bs. bfree c) \<longrightarrow> p \<noteq> 0) \<and> (bs \<noteq> [] \<and> (\<forall>c \<in> set bs. \<not> bfree c) \<longrightarrow> p = 0)"
proof -
  have w: "align8 sz = 0" using sz unat_align8 [of sz] by (simp add: word_unat_eq_iff)
  have sz0: "sz \<noteq> 0" using sz by auto
  obtain bs1 where r: "heap_inv (ready s) bs1" "live bs1 = live bs" "bs \<noteq> [] \<longrightarrow> bs1 = bs \<and> ready s = s"
    "bs = [] \<longrightarrow> bs1 = [] \<or> bs1 = [fresh (heap_head (ready s))]" using ready_inv [OF inv] by blast
  show ?thesis
  proof (cases "\<exists>c \<in> set bs1. bfree c")
    case True
    then obtain s' bs' b where "kmalloc sz s = Some (addr b + 12, s')" "addr b + 12 \<noteq> 0" "heap_inv s' bs'"
      "live bs' = insert b (live bs)" "unat (bsize b) \<le> 20" using kmalloc_wrap_hit [OF r(1) w sz0] r(2) by metis
    moreover have "bs = [] \<or> (\<exists>c \<in> set bs. bfree c)" using True r(3) by auto
    ultimately show ?thesis by (intro exI [of _ "addr b + 12"] exI [of _ s'] exI [of _ bs']) auto
  next
    case False
    obtain p s' bs' where km: "kmalloc sz s = Some (p, s')" and res: "alloc_result (align8 sz) s bs p s' bs'"
      using kmalloc_spec [OF inv] by blast
    have "p = 0"
    proof (cases "bs = []")
      case True
      then have "bs1 = []" using r(4) False by (auto simp: fresh_def)
      then have "heap_head (ready s) = 0" using heap_inv_head [OF r(1)] by simp
      then show ?thesis using kmalloc_empty [OF sz0] km by simp
    next
      case False
      then show ?thesis using kmalloc_wrap_miss [OF inv w sz0 _ _ km] r(3) \<open>\<not> (\<exists>c \<in> set bs1. bfree c)\<close> by auto
    qed
    moreover have "\<not> (\<exists>c \<in> set bs. bfree c)" using False r(3) by (cases "bs = []") auto
    ultimately show ?thesis using km res by (auto simp: alloc_result_def)
  qed
qed

definition heap_free_sample :: heap where
  "heap_free_sample = \<lparr>hmem = init_block 0x200000 (\<lambda>_. 0), hpmm = pmm_sample, heap_head = 0x200000\<rparr>"

lemma heap_free_sample_inv: "heap_inv heap_free_sample [fresh 0x200000]"
proof -
  have "frame_addr 0x200000" by (simp add: frame_addr_def)
  then have "blks_ok [fresh 0x200000]" and "\<And>x. x \<in> extent (fresh 0x200000) \<longleftrightarrow> frame_of x = 512"
    using fresh_ok fresh_extent [of "0x200000"] by (simp_all add: blks_ok_def) (simp add: frame_of_def)
  then show ?thesis
    by (simp add: heap_inv_def heap_free_sample_def pmm_sample_wf frames_held_def pmm_sample_free frame_of_def)
      (simp add: fresh_def)
qed

theorem kmalloc_wraps_witness:
  "heap_inv heap_free_sample [fresh 0x200000] \<and> (\<exists>p s' bs' b. kmalloc 0xFFFFFFFF heap_free_sample = Some (p, s') \<and> p \<noteq> 0
    \<and> heap_inv s' bs' \<and> live bs' = insert b (live [fresh 0x200000]) \<and> p = addr b + 12 \<and> unat (bsize b) \<le> 20)"
proof -
  have "\<exists>c \<in> set [fresh 0x200000]. bfree c" by (simp add: fresh_def)
  moreover have "4294967288 < unat (0xFFFFFFFF :: u32)" by simp
  ultimately show ?thesis using kmalloc_wraps [OF heap_free_sample_inv, of "0xFFFFFFFF"] heap_free_sample_inv by metis
qed

end
