(* ===== verification/Paging.thy ===== *)
theory Paging
  imports Arctic_Base
begin

text \<open>
  Identity paging, \<open>memory/paging.c\<close>: the page directory and the four page tables that are built at
  boot, the flag that they are ready, and the switch of the processor to them. The addresses at
  which the linker places the directory and the tables are parameters.
\<close>

section \<open>State\<close>

definition PAGE_SIZE :: u32 where "PAGE_SIZE = 4096"
definition PAGE_ENTRIES :: u32 where "PAGE_ENTRIES = 1024"
definition PAGING_TABLE_COUNT :: u32 where "PAGING_TABLE_COUNT = 4"
definition PAGE_FLAG_PRESENT :: u32 where "PAGE_FLAG_PRESENT = 1"
definition PAGE_FLAG_RW :: u32 where "PAGE_FLAG_RW = 2"

record paging =
  page_directory :: "u32 \<Rightarrow> u32"
  page_tables :: "u32 \<Rightarrow> u32 \<Rightarrow> u32"
  paging_prepared :: u8
  paging_mapped_pages :: u32

definition paging_boot :: paging where
  "paging_boot = \<lparr>page_directory = (\<lambda>_. 0), page_tables = (\<lambda>_ _. 0), paging_prepared = 0, paging_mapped_pages = 0\<rparr>"

text \<open>The control registers \<open>paging_enable\<close> reads and writes.\<close>

record cpu =
  cr0 :: u32
  cr3 :: u32

section \<open>Operations\<close>

definition page_count_of :: "u32 \<Rightarrow> u32" where
  "page_count_of map_bytes =
     (let max_pages = PAGING_TABLE_COUNT * PAGE_ENTRIES;
          requested_pages = (map_bytes + PAGE_SIZE - 1) div PAGE_SIZE;
          page_count = requested_pages;
          page_count = (if page_count = 0 then 1 else page_count)
      in if page_count > max_pages then max_pages else page_count)"

definition fill_table :: "u32 \<Rightarrow> u32 \<Rightarrow> paging \<Rightarrow> paging" where
  "fill_table page_count t s =
     for_u32 0 PAGE_ENTRIES (\<lambda>i s.
       let page_index = t * PAGE_ENTRIES + i;
           phys_addr = page_index * PAGE_SIZE;
           entry = (if page_index < page_count then phys_addr OR PAGE_FLAG_PRESENT OR PAGE_FLAG_RW else 0)
       in s\<lparr>page_tables := (page_tables s)(t := (page_tables s t)(i := entry))\<rparr>) s"

definition fill_directory :: "u32 \<Rightarrow> u32 \<Rightarrow> u32 \<Rightarrow> paging \<Rightarrow> paging" where
  "fill_directory tables_addr page_count t s =
     (let s = fill_table page_count t s
      in if t * PAGE_ENTRIES < page_count
         then s\<lparr>page_directory := (page_directory s)
                (t := (tables_addr + t * (4 * PAGE_ENTRIES)) OR PAGE_FLAG_PRESENT OR PAGE_FLAG_RW)\<rparr>
         else s)"

definition paging_prepare_identity :: "u32 \<Rightarrow> u32 \<Rightarrow> paging \<Rightarrow> paging" where
  "paging_prepare_identity tables_addr map_bytes s =
     (let page_count = page_count_of map_bytes;
          s = for_u32 0 PAGE_ENTRIES (\<lambda>i s. s\<lparr>page_directory := (page_directory s)(i := 0)\<rparr>) s;
          s = for_u32 0 PAGING_TABLE_COUNT (fill_directory tables_addr page_count) s
      in s\<lparr>paging_mapped_pages := page_count, paging_prepared := 1\<rparr>)"

definition paging_is_prepared :: "paging \<Rightarrow> u8" where
  "paging_is_prepared s = paging_prepared s"

definition paging_get_mapped_pages :: "paging \<Rightarrow> u32" where
  "paging_get_mapped_pages s = paging_mapped_pages s"

definition paging_get_identity_limit_bytes :: "paging \<Rightarrow> u32" where
  "paging_get_identity_limit_bytes s = paging_mapped_pages s * PAGE_SIZE"

definition paging_get_directory_physical :: "u32 \<Rightarrow> u32" where
  "paging_get_directory_physical directory_addr = directory_addr"

definition paging_enable :: "u32 \<Rightarrow> paging \<Rightarrow> cpu \<Rightarrow> cpu" where
  "paging_enable directory_addr s c =
     (let dir = paging_get_directory_physical directory_addr
      in if paging_prepared s = 0 then c
         else let c = c\<lparr>cr3 := dir\<rparr> in c\<lparr>cr0 := cr0 c OR 0x80000000\<rparr>)"

section \<open>What the processor makes of the tables\<close>

text \<open>
  The two-level walk of the 32-bit paging unit over 4 KiB pages: the directory entry selects a table,
  the table entry a frame; a clear present bit is a page fault.
\<close>

definition mmu_walk :: "u32 \<Rightarrow> paging \<Rightarrow> u32 \<Rightarrow> u32 option" where
  "mmu_walk tables_addr s va =
     (let pde = page_directory s (drop_bit 22 va)
      in if pde AND 1 = 0 then None
         else
           let t = ((pde AND NOT (mask 12)) - tables_addr) div 4096;
               pte = page_tables s t (drop_bit 12 va AND mask 10)
           in if pte AND 1 = 0 then None else Some ((pte AND NOT (mask 12)) OR (va AND mask 12)))"

section \<open>The tables that are built\<close>

definition table_entry :: "u32 \<Rightarrow> u32 \<Rightarrow> u32 \<Rightarrow> u32" where
  "table_entry n t i = (if t * 1024 + i < n then ((t * 1024 + i) * 4096) OR 3 else 0)"

definition directory_entry :: "u32 \<Rightarrow> u32 \<Rightarrow> u32 \<Rightarrow> u32" where
  "directory_entry tb n t = (if t < 4 \<and> t * 1024 < n then (tb + t * 4096) OR 3 else 0)"

lemma fill_table_eq:
  "page_tables (fill_table n t s) t' i =
     (if t' = t \<and> i < 1024 then table_entry n t i else page_tables s t' i)"
  "page_directory (fill_table n t s) = page_directory s"
proof -
  let ?P = "\<lambda>k (r :: paging). (\<forall>t' i. page_tables r t' i = (if t' = t \<and> i < k then table_entry n t i else page_tables s t' i))
    \<and> page_directory r = page_directory s"
  have "?P PAGE_ENTRIES (fill_table n t s)" unfolding fill_table_def
  proof (rule for_u32_invariant [where P = ?P])
    fix k r assume k: "0 \<le> k" "k < PAGE_ENTRIES" and P: "?P k r"
    show "?P (k + 1) (let page_index = t * PAGE_ENTRIES + k; phys_addr = page_index * PAGE_SIZE;
        entry = (if page_index < n then phys_addr OR PAGE_FLAG_PRESENT OR PAGE_FLAG_RW else 0)
      in r\<lparr>page_tables := (page_tables r)(t := (page_tables r t)(k := entry))\<rparr>)"
      using P k by (auto simp: Let_def less_suc_iff [OF k(2)] table_entry_def PAGE_ENTRIES_def PAGE_SIZE_def
          PAGE_FLAG_PRESENT_def PAGE_FLAG_RW_def)
  qed (auto simp: PAGE_ENTRIES_def)
  then show "page_tables (fill_table n t s) t' i =
      (if t' = t \<and> i < 1024 then table_entry n t i else page_tables s t' i)"
    "page_directory (fill_table n t s) = page_directory s"
    by (auto simp: PAGE_ENTRIES_def)
qed

lemma clear_directory:
  fixes s :: paging
  shows "page_directory (for_u32 0 1024 (\<lambda>i s. s\<lparr>page_directory := (page_directory s)(i := 0)\<rparr>) s) d
     = (if d < 1024 then 0 else page_directory s d)"
proof -
  let ?P = "\<lambda>k (r :: paging). \<forall>d. page_directory r d = (if d < k then 0 else page_directory s d)"
  have "?P 1024 (for_u32 0 1024 (\<lambda>i s. s\<lparr>page_directory := (page_directory s)(i := 0)\<rparr>) s)"
    by (rule for_u32_invariant [where P = ?P]) (auto simp: less_suc_iff)
  then show ?thesis by blast
qed

lemma prepared_tables:
  assumes "t < 4" "i < 1024"
  shows "page_tables (paging_prepare_identity tb n s) t i = table_entry (page_count_of n) t i"
    and "d < 1024 \<Longrightarrow> page_directory (paging_prepare_identity tb n s) d = directory_entry tb (page_count_of n) d"
proof -
  let ?n = "page_count_of n"
  define s0 where "s0 = for_u32 0 1024 (\<lambda>i s. s\<lparr>page_directory := (page_directory s)(i := 0)\<rparr>) s"
  let ?P = "\<lambda>k (r :: paging). (\<forall>t < k. \<forall>i < 1024. page_tables r t i = table_entry ?n t i)
    \<and> (\<forall>d < 1024. page_directory r d = (if d < k then directory_entry tb ?n d else 0))"
  have "?P 4 (for_u32 0 4 (fill_directory tb ?n) s0)"
  proof (rule for_u32_invariant [where P = ?P])
    fix k r assume k: "0 \<le> k" "k < (4 :: u32)" and P: "?P k r"
    have "page_tables (fill_directory tb ?n k r) t i = table_entry ?n t i" if "t < k + 1" "i < 1024" for t i
      using P that less_suc_iff [OF k(2)] by (auto simp: fill_directory_def Let_def fill_table_eq)
    moreover have "page_directory (fill_directory tb ?n k r) d = (if d < k + 1 then directory_entry tb ?n d else 0)"
      if "d < 1024" for d
      using P k(2) that less_suc_iff [OF k(2), of d]
      by (auto simp: fill_directory_def Let_def fill_table_eq directory_entry_def PAGE_ENTRIES_def
          PAGE_FLAG_PRESENT_def PAGE_FLAG_RW_def mult.commute)
    ultimately show "?P (k + 1) (fill_directory tb ?n k r)" by blast
  qed (auto simp: s0_def clear_directory)
  then have P: "?P 4 (paging_prepare_identity tb n s)"
    by (simp add: paging_prepare_identity_def Let_def PAGE_ENTRIES_def PAGING_TABLE_COUNT_def s0_def)
  with assms show "page_tables (paging_prepare_identity tb n s) t i = table_entry ?n t i" by blast
  show "page_directory (paging_prepare_identity tb n s) d = directory_entry tb ?n d" if "d < 1024"
    using P that by (auto simp: directory_entry_def)
qed

section \<open>Address arithmetic\<close>

lemma page_entry_bits:
  fixes x :: u32
  assumes "unat x mod 4096 = 0"
  shows "(x OR 3) AND NOT (mask 12) = x" and "(x OR 3) AND 1 \<noteq> 0"
proof -
  have low: "\<not> bit x n" if "n < 12" for n
  proof -
    have "take_bit 12 x = 0" using assms by (simp add: take_bit_eq_mod word_unat_eq_iff unat_mod)
    then have "\<not> bit (take_bit 12 x) n" by simp
    with that show ?thesis by (simp add: bit_take_bit_iff)
  qed
  have three: "bit (3 :: u32) n \<longleftrightarrow> n < 2" for n
  proof -
    have "(3 :: u32) = mask 2" by (simp add: mask_eq_decr_exp)
    then have "bit (3 :: u32) n = bit (mask 2 :: u32) n" by simp
    then show ?thesis by (simp only: bit_mask_iff) auto
  qed
  show "(x OR 3) AND NOT (mask 12) = x"
    by (rule bit_word_eqI) (simp only: bit_and_iff bit_or_iff bit_not_iff bit_mask_iff three, use low in auto)
  have "bit ((x OR 3) AND 1) 0" by (simp only: bit_and_iff bit_or_iff bit_1_iff three) simp
  then show "(x OR 3) AND 1 \<noteq> 0" by auto
qed

lemma va_parts:
  fixes va :: u32
  shows "unat (drop_bit 22 va) = unat va div 4194304"
    and "unat (drop_bit 12 va AND mask 10) = unat va div 4096 mod 1024"
    and "drop_bit 22 va * 1024 + (drop_bit 12 va AND mask 10) = drop_bit 12 va"
    and "(drop_bit 12 va * 4096) OR (va AND mask 12) = va"
proof -
  show d: "unat (drop_bit 22 va) = unat va div 4194304" by (simp add: drop_bit_eq_div unat_div)
  have e: "unat (drop_bit 12 va) = unat va div 4096" by (simp add: drop_bit_eq_div unat_div)
  show m: "unat (drop_bit 12 va AND mask 10) = unat va div 4096 mod 1024"
    using e by (simp add: take_bit_eq_mask [symmetric] take_bit_eq_mod unat_mod)
  have lt: "unat va div 4194304 < 1024" using unat_less_2p32 [of va] by simp
  have "unat (drop_bit 22 va * 1024) = unat va div 4194304 * 1024"
    using lt d by (simp add: unat_word_ariths)
  then have "unat (drop_bit 22 va * 1024 + (drop_bit 12 va AND mask 10))
      = unat va div 4194304 * 1024 + unat va div 4096 mod 1024"
    using m mod_less_divisor [of 1024 "unat va div 4096"] lt by (subst unat_add_nowrap) linarith+
  also have "\<dots> = unat va div 4096"
    using div_mult2_eq [of "unat va" 4096 1024] div_mult_mod_eq [of "unat va div 4096" 1024] by simp
  finally show "drop_bit 22 va * 1024 + (drop_bit 12 va AND mask 10) = drop_bit 12 va"
    using e by (simp add: word_unat_eq_iff)
  have "drop_bit 12 va * 4096 = push_bit 12 (drop_bit 12 va)" by (simp add: push_bit_eq_mult)
  moreover have "push_bit 12 (drop_bit 12 va) OR (va AND mask 12) = va"
    by (rule bit_word_eqI) (auto simp: bit_simps)
  ultimately show "(drop_bit 12 va * 4096) OR (va AND mask 12) = va" by simp
qed

lemma aligned_mult: "unat ((x :: u32) * 4096) mod 4096 = 0"
  by (simp add: unat_word_ariths mod_mod_cancel)

lemma aligned_add:
  fixes x y :: u32
  assumes "unat x mod 4096 = 0" "unat y mod 4096 = 0"
  shows "unat (x + y) mod 4096 = 0"
proof -
  have "unat (x + y) mod 4096 = (unat x + unat y) mod 4096"
    by (simp add: unat_word_ariths mod_mod_cancel)
  also have "\<dots> = 0" using assms by (simp add: mod_eq_0_iff_dvd)
  finally show ?thesis .
qed

text \<open>The number of pages that get mapped.\<close>

definition mapped :: "u32 \<Rightarrow> nat" where
  "mapped n = (if 4294963200 < unat n then 1 else max 1 (min 4096 ((unat n + 4095) div 4096)))"

lemma page_count: "unat (page_count_of n) = mapped n"
proof -
  define r where "r = (n + PAGE_SIZE - 1) div PAGE_SIZE"
  have "n + PAGE_SIZE - 1 = 4095 + n" by (simp add: PAGE_SIZE_def)
  moreover have "unat (4095 + n) = (if 4294963200 < unat n then unat n - 4294963201 else unat n + 4095)"
    using unat_less_2p32 [of n] by (simp add: unat_word_ariths mod_if)
  ultimately have r: "unat r = (if 4294963200 < unat n then 0 else (unat n + 4095) div 4096)"
    using unat_less_2p32 [of n] by (simp add: unat_div PAGE_SIZE_def r_def)
  have "page_count_of n = (if r = 0 then 1 else if 4096 < r then 4096 else r)"
    by (simp add: page_count_of_def Let_def r_def [symmetric] PAGING_TABLE_COUNT_def PAGE_ENTRIES_def)
  moreover have "r = 0 \<longleftrightarrow> unat r = 0" "4096 < r \<longleftrightarrow> 4096 < unat r"
    by (simp_all add: unat_eq_zero word_less_nat_alt)
  ultimately show ?thesis by (simp add: r mapped_def)
qed

lemma mapped_bounds: "1 \<le> mapped n" "mapped n \<le> 4096"
  by (auto simp: mapped_def)

lemma walk_prepared:
  assumes al: "unat tb mod 4096 = 0"
  shows "mmu_walk tb (paging_prepare_identity tb n s) va = (if unat va div 4096 < mapped n then Some va else None)"
proof -
  let ?s = "paging_prepare_identity tb n s" and ?d = "drop_bit 22 va" and ?i = "drop_bit 12 va AND mask 10"
  let ?n = "page_count_of n"
  have d: "unat ?d = unat va div 4194304" "?d < 1024" and i: "?i < 1024"
    using va_parts(1,2) [of va] unat_less_2p32 [of va] by (simp_all add: nat_of_word)
  have nn: "unat ?n = mapped n" "mapped n \<le> 4096" using page_count mapped_bounds by simp_all
  have dn: "unat (?d * 1024) = unat va div 4194304 * 1024"
    using d unat_less_2p32 [of va] by (simp add: unat_word_ariths)
  have pde: "page_directory ?s ?d = directory_entry tb ?n ?d" using prepared_tables(2) [of 0 0 ?d] d(2) by simp
  show ?thesis
  proof (cases "?d < 4 \<and> ?d * 1024 < ?n")
    case False
    then have "\<not> unat va div 4096 < mapped n"
      using dn nn d(1) by (auto simp: nat_of_word)
    moreover have "page_directory ?s ?d = 0" using pde False by (auto simp: directory_entry_def)
    ultimately show ?thesis by (simp add: mmu_walk_def)
  next
    case True
    have tb4: "unat (tb + ?d * 4096) mod 4096 = 0"
      using al aligned_mult [of ?d] by (rule aligned_add)
    have pde': "page_directory ?s ?d = (tb + ?d * 4096) OR 3" using pde True by (simp add: directory_entry_def)
    have "?d * 4096 div 4096 = ?d"
      using True by (simp add: word_unat_eq_iff unat_div unat_word_ariths nat_of_word)
    then have t: "((page_directory ?s ?d AND NOT (mask 12)) - tb) div 4096 = ?d"
      using page_entry_bits(1) [OF tb4] pde' by simp
    have "page_tables ?s ?d ?i = table_entry ?n ?d ?i" using prepared_tables(1) True i by blast
    also have "\<dots> = (if drop_bit 12 va < ?n then (drop_bit 12 va * 4096) OR 3 else 0)"
      by (simp only: table_entry_def va_parts(3))
    finally have pte: "page_tables ?s ?d ?i = (if drop_bit 12 va < ?n then (drop_bit 12 va * 4096) OR 3 else 0)" .
    have "unat (drop_bit 12 va) = unat va div 4096" by (simp add: drop_bit_eq_div unat_div)
    then have lt: "drop_bit 12 va < ?n \<longleftrightarrow> unat va div 4096 < mapped n" using nn by (simp add: nat_of_word)
    have al2: "unat (drop_bit 12 va * 4096) mod 4096 = 0"
      by (rule aligned_mult)
    show ?thesis
      using pte t pde' page_entry_bits [OF tb4] page_entry_bits [OF al2] lt va_parts(4) [of va]
      by (simp add: mmu_walk_def Let_def)
  qed
qed

section \<open>Properties\<close>

text \<open>
  C28. Once prepared, the tables translate every address below the identity
  limit to itself and fault on every other address, wherever the linker put the page tables. The
  limit is the requested size rounded up to pages, at least one page and at most 16 MiB; a request
  above 4 GiB - 4096 wraps in the rounding and maps a single page.
\<close>

theorem paging_identity_map:
  assumes "unat tb mod 4096 = 0"
  shows "mmu_walk tb (paging_prepare_identity tb n s) va =
      (if va < paging_get_identity_limit_bytes (paging_prepare_identity tb n s) then Some va else None)
    \<and> unat (paging_get_identity_limit_bytes (paging_prepare_identity tb n s)) =
      4096 * (if 4294963200 < unat n then 1 else max 1 (min 4096 ((unat n + 4095) div 4096)))"
proof -
  let ?s = "paging_prepare_identity tb n s"
  have "paging_mapped_pages ?s = page_count_of n" by (simp add: paging_prepare_identity_def Let_def)
  then have lim: "unat (paging_get_identity_limit_bytes ?s) = 4096 * mapped n"
    using page_count [of n] mapped_bounds(2) [of n]
    by (simp add: paging_get_identity_limit_bytes_def PAGE_SIZE_def unat_word_ariths)
  have "unat va div 4096 < mapped n \<longleftrightarrow> unat va < 4096 * mapped n"
    by (simp add: div_less_iff_less_mult mult.commute)
  then have "unat va div 4096 < mapped n \<longleftrightarrow> va < paging_get_identity_limit_bytes ?s"
    using lim by (simp add: nat_of_word)
  then show ?thesis using walk_prepared [OF assms] lim by (simp add: mapped_def)
qed

theorem paging_identity_map_witness:
  "mmu_walk 0x200000 (paging_prepare_identity 0x200000 0x1000000 paging_boot) 0xFFFFFF =
      (if 0xFFFFFF < paging_get_identity_limit_bytes (paging_prepare_identity 0x200000 0x1000000 paging_boot)
       then Some 0xFFFFFF else None)
    \<and> unat (paging_get_identity_limit_bytes (paging_prepare_identity 0x200000 0x1000000 paging_boot)) = 0x1000000"
  using paging_identity_map [of "0x200000" "0x1000000" paging_boot "0xFFFFFF"] by simp

text \<open>
  The processor is switched to the page directory exactly when the tables
  have been prepared: paging is never turned on with tables that were not built.
\<close>

theorem paging_enable_guarded:
  "paging_enable dir paging_boot c = c
   \<and> cr3 (paging_enable dir (paging_prepare_identity tb n s) c) = dir
   \<and> bit (cr0 (paging_enable dir (paging_prepare_identity tb n s) c)) 31
   \<and> paging_is_prepared (paging_prepare_identity tb n s) \<noteq> 0"
proof -
  have "bit (0x80000000 :: u32) 31" by (simp add: bit_iff_odd)
  then show ?thesis
    by (simp add: paging_enable_def paging_boot_def paging_prepare_identity_def Let_def
        paging_get_directory_physical_def paging_is_prepared_def bit_or_iff)
qed

end
