(* ===== verification/Console.thy ===== *)
theory Console
  imports Arctic_Base "HOL-Library.Signed_Division"
begin

text \<open>
  Port input and output, and the text console of \<open>io/print.c\<close>: the 80 by 25 character cells of the
  VGA text buffer, the software cursor, and the port writes that are meant for the hardware cursor.
\<close>

section \<open>Ports\<close>

text \<open>
  What the kernel has done on the I/O bus, oldest first. The devices answer a read as a function of
  that history and the port: \<open>device\<close> is a parameter of every operation that reads.
\<close>

datatype port_event = Outb u16 u8 | Inb u16 u8

type_synonym device = "port_event list \<Rightarrow> u16 \<Rightarrow> u8"

text \<open>
  The console's statics \<open>video_memory\<close>, \<open>cursor_x\<close>, \<open>cursor_y\<close>, and the I/O history. The coordinates are C
  \<open>int\<close>s; they are kept as integers here, since signed overflow has no value in C and the theorems are about
  cursors on the screen, where every sum is far below \<open>2^31\<close>.
\<close>

record io =
  video_memory :: "int \<Rightarrow> u8"
  cursor_x :: int
  cursor_y :: int
  events :: "port_event list"

definition outb :: "u16 \<Rightarrow> u8 \<Rightarrow> io \<Rightarrow> io" where
  "outb port v s = s\<lparr>events := events s @ [Outb port v]\<rparr>"

text \<open>
  \<open>outb %b0, $port\<close>: in the immediate form of the instruction the port has 8 bits, and the assembler keeps
  the low 8 bits of the constant (the built image has the bytes \<open>E6 D4\<close> and \<open>E6 D5\<close>).
\<close>

definition outb_imm :: "u32 \<Rightarrow> u8 \<Rightarrow> io \<Rightarrow> io" where
  "outb_imm port v s = outb (ucast (ucast port :: u8)) v s"

definition inb :: "device \<Rightarrow> u16 \<Rightarrow> io \<Rightarrow> u8 \<times> io" where
  "inb dev port s = (let v = dev (events s) port in (v, s\<lparr>events := events s @ [Inb port v]\<rparr>))"

section \<open>The console\<close>

definition VGA_WIDTH :: int where "VGA_WIDTH = 80"
definition VGA_HEIGHT :: int where "VGA_HEIGHT = 25"

text \<open>The characters the console treats specially, and the blank.\<close>

definition chr_bs :: u8 where "chr_bs = 8"
definition chr_nl :: u8 where "chr_nl = 10"
definition chr_sp :: u8 where "chr_sp = 32"

text \<open>The offset of the cell in row \<open>y\<close> and column \<open>x\<close>.\<close>

definition vga_index :: "int \<Rightarrow> int \<Rightarrow> int" where
  "vga_index y x = (y * VGA_WIDTH + x) * 2"

text \<open>One store of a character with the attribute byte \<open>0x0F\<close>.\<close>

definition put_cell :: "int \<Rightarrow> u8 \<Rightarrow> io \<Rightarrow> io" where
  "put_cell index c s = s\<lparr>video_memory := (video_memory s)(index := c, index + 1 := 0x0F)\<rparr>"

definition update_hardware_cursor :: "io \<Rightarrow> io" where
  "update_hardware_cursor s =
     (let pos = word_of_int (cursor_y s * VGA_WIDTH + cursor_x s) :: u32;
          pos_high = ucast (drop_bit 8 pos AND 0xFF) :: u8;
          pos_low = ucast (pos AND 0xFF) :: u8;
          s = outb_imm 0x3D4 14 s;
          s = outb_imm 0x3D5 pos_high s;
          s = outb_imm 0x3D4 15 s
      in outb_imm 0x3D5 pos_low s)"

definition clear :: "io \<Rightarrow> io" where
  "clear s =
     (let s = for_int 0 VGA_HEIGHT (\<lambda>y. for_int 0 VGA_WIDTH (\<lambda>x. put_cell (vga_index y x) chr_sp)) s
      in update_hardware_cursor (s\<lparr>cursor_x := 0, cursor_y := 0\<rparr>))"

text \<open>The body of the copy loop: one character cell moves up a line.\<close>

definition copy_cell :: "int \<Rightarrow> int \<Rightarrow> io \<Rightarrow> io" where
  "copy_cell i j s =
     (let from_idx = vga_index (i + 1) j;
          to_idx = vga_index i j;
          s = s\<lparr>video_memory := (video_memory s)(to_idx := video_memory s from_idx)\<rparr>
      in s\<lparr>video_memory := (video_memory s)(to_idx + 1 := video_memory s (from_idx + 1))\<rparr>)"

definition scroll :: "io \<Rightarrow> io" where
  "scroll s =
     (let s = for_int 0 (VGA_HEIGHT - 1) (\<lambda>i. for_int 0 VGA_WIDTH (copy_cell i)) s;
          s = for_int 0 VGA_WIDTH (\<lambda>j. put_cell (vga_index (VGA_HEIGHT - 1) j) chr_sp) s
      in s\<lparr>cursor_y := VGA_HEIGHT - 1\<rparr>)"

definition printc :: "u8 \<Rightarrow> io \<Rightarrow> io" where
  "printc c s =
     (if c = chr_bs then
        if cursor_x s = 0 \<and> cursor_y s = 0 then s
        else
          let s = (if cursor_x s > 0 then s\<lparr>cursor_x := cursor_x s - 1\<rparr>
                   else s\<lparr>cursor_y := cursor_y s - 1, cursor_x := VGA_WIDTH - 1\<rparr>);
              index = vga_index (cursor_y s) (cursor_x s)
          in update_hardware_cursor (put_cell index chr_sp s)
      else if c = chr_nl then
        let s = s\<lparr>cursor_y := cursor_y s + 1, cursor_x := 0\<rparr>;
            s = (if cursor_y s \<ge> VGA_HEIGHT then scroll s else s)
        in update_hardware_cursor s
      else if cursor_x s \<ge> VGA_WIDTH \<or> cursor_y s \<ge> VGA_HEIGHT then s
      else
        let index = vga_index (cursor_y s) (cursor_x s);
            s = put_cell index c s;
            s = s\<lparr>cursor_x := cursor_x s + 1\<rparr>;
            s = (if cursor_x s \<ge> VGA_WIDTH then
                   let s = s\<lparr>cursor_x := 0, cursor_y := cursor_y s + 1\<rparr>
                   in if cursor_y s \<ge> VGA_HEIGHT then scroll s else s
                 else s)
        in update_hardware_cursor s)"

definition print :: "cstr \<Rightarrow> io \<Rightarrow> io" where
  "print str s = fold printc str s"

definition println :: "cstr \<Rightarrow> io \<Rightarrow> io" where
  "println str s = printc chr_nl (print str s)"

definition set_cursor_position :: "int \<Rightarrow> int \<Rightarrow> io \<Rightarrow> io" where
  "set_cursor_position x y s = update_hardware_cursor (s\<lparr>cursor_x := x, cursor_y := y\<rparr>)"

text \<open>The sums \<open>'0' + digit\<close>; division and remainder truncate as in C.\<close>

definition digit_of :: "int \<Rightarrow> u8" where
  "digit_of n = word_of_int (48 + n)"

definition show_cursor_pos :: "io \<Rightarrow> io" where
  "show_cursor_pos s =
     (let s = print (lit ''X:'') s;
          s = printc (digit_of (cursor_x s sdiv 10 smod 10)) s;
          s = printc (digit_of (cursor_x s smod 10)) s;
          s = print (lit '' Y:'') s;
          s = printc (digit_of (cursor_y s sdiv 10 smod 10)) s;
          s = printc (digit_of (cursor_y s smod 10)) s
      in printc 32 s)"

section \<open>Cells\<close>

definition cell :: "io \<Rightarrow> int \<Rightarrow> int \<Rightarrow> u8" where
  "cell s r c = video_memory s (vga_index r c)"

definition on_screen :: "io \<Rightarrow> bool" where
  "on_screen s \<longleftrightarrow> 0 \<le> cursor_x s \<and> cursor_x s < 80 \<and> 0 \<le> cursor_y s \<and> cursor_y s < 25"

text \<open>Two stores of a console operation agree outside the 4000 bytes of the screen.\<close>

definition same_outside :: "io \<Rightarrow> io \<Rightarrow> bool" where
  "same_outside s t \<longleftrightarrow> (\<forall>i. i \<notin> {0..<4000} \<longrightarrow> video_memory t i = video_memory s i)"

lemma same_outside_refl [simp]: "same_outside s s"
  by (simp add: same_outside_def)

lemma same_outside_trans: "same_outside s t \<Longrightarrow> same_outside t u \<Longrightarrow> same_outside s u"
  by (simp add: same_outside_def)

lemma vga_index_inj:
  assumes "0 \<le> c" "c < 80" "0 \<le> d" "d < 80"
  shows "vga_index q d = vga_index r c \<longleftrightarrow> q = r \<and> d = c"
    and "vga_index q d \<noteq> vga_index r c + 1" and "vga_index r c + 1 \<noteq> vga_index q d"
proof -
  have "q * 80 + d = r * 80 + c \<longleftrightarrow> q = r \<and> d = c"
    using assms by (cases q r rule: linorder_cases) auto
  then show "vga_index q d = vga_index r c \<longleftrightarrow> q = r \<and> d = c" by (auto simp: vga_index_def VGA_WIDTH_def)
  show "vga_index q d \<noteq> vga_index r c + 1" "vga_index r c + 1 \<noteq> vga_index q d"
    unfolding vga_index_def by presburger+
qed

lemma vga_index_range: "0 \<le> r \<Longrightarrow> r < 25 \<Longrightarrow> 0 \<le> c \<Longrightarrow> c < 80 \<Longrightarrow> 0 \<le> vga_index r c \<and> vga_index r c < 3999"
  by (simp add: vga_index_def VGA_WIDTH_def)

lemma cell_put:
  assumes "0 \<le> c" "c < 80" "0 \<le> d" "d < 80"
  shows "cell (put_cell (vga_index r c) v s) q d = (if q = r \<and> d = c then v else cell s q d)"
  using vga_index_inj [OF assms, of q r] by (auto simp: cell_def put_cell_def)

lemma put_outside:
  "0 \<le> r \<Longrightarrow> r < 25 \<Longrightarrow> 0 \<le> c \<Longrightarrow> c < 80 \<Longrightarrow> same_outside s (put_cell (vga_index r c) v s)"
  using vga_index_range [of r c] by (auto simp: same_outside_def put_cell_def)

lemma put_cursor [simp]:
  "cursor_x (put_cell i v s) = cursor_x s" "cursor_y (put_cell i v s) = cursor_y s" "events (put_cell i v s) = events s"
  by (simp_all add: put_cell_def)

lemma update_cursor [simp]:
  "cursor_x (update_hardware_cursor s) = cursor_x s" "cursor_y (update_hardware_cursor s) = cursor_y s"
  "video_memory (update_hardware_cursor s) = video_memory s" "cell (update_hardware_cursor s) = cell s"
  by (simp_all add: update_hardware_cursor_def outb_imm_def outb_def Let_def cell_def [abs_def])

lemma cell_cursor [simp]:
  "cell (s\<lparr>cursor_x := x\<rparr>) = cell s" "cell (s\<lparr>cursor_y := y\<rparr>) = cell s" "cell (s\<lparr>events := es\<rparr>) = cell s"
  by (simp_all add: cell_def [abs_def])

section \<open>Scrolling\<close>

lemma cell_copy:
  assumes "0 \<le> c" "c < 80" "0 \<le> d" "d < 80"
  shows "cell (copy_cell r c s) q d = (if q = r \<and> d = c then cell s (r + 1) c else cell s q d)"
  using vga_index_inj [OF assms, of q r] vga_index_inj [OF assms(1,2) assms(1,2), of "r + 1" r]
  by (auto simp: cell_def copy_cell_def Let_def)

lemma copy_outside:
  "0 \<le> r \<Longrightarrow> r < 24 \<Longrightarrow> 0 \<le> c \<Longrightarrow> c < 80 \<Longrightarrow> same_outside s (copy_cell r c s)"
  using vga_index_range [of r c] by (auto simp: same_outside_def copy_cell_def Let_def)

lemma copy_cursor [simp]:
  "cursor_x (copy_cell i j s) = cursor_x s" "cursor_y (copy_cell i j s) = cursor_y s" "events (copy_cell i j s) = events s"
  by (simp_all add: copy_cell_def Let_def)

text \<open>What a loop of cell stores keeps: the cursor, the I/O history and the bytes off the screen.\<close>

definition cells_only :: "io \<Rightarrow> io \<Rightarrow> bool" where
  "cells_only s t \<longleftrightarrow> cursor_x t = cursor_x s \<and> cursor_y t = cursor_y s \<and> events t = events s \<and> same_outside s t"

lemma cells_only_refl: "cells_only s s"
  by (simp add: cells_only_def)

lemma cells_only_trans: "cells_only s t \<Longrightarrow> cells_only t u \<Longrightarrow> cells_only s u"
  by (auto simp: cells_only_def dest: same_outside_trans)

lemma copy_row:
  assumes "0 \<le> r" "r < 24"
  shows "0 \<le> d \<Longrightarrow> d < 80 \<Longrightarrow>
      cell (for_int 0 80 (copy_cell r) s) q d = (if q = r then cell s (r + 1) d else cell s q d)"
    and "cells_only s (for_int 0 80 (copy_cell r) s)"
proof -
  let ?P = "\<lambda>k t. (\<forall>q d. 0 \<le> d \<longrightarrow> d < 80 \<longrightarrow>
      cell t q d = (if q = r \<and> d < k then cell s (r + 1) d else cell s q d)) \<and> cells_only s t"
  have P: "?P 80 (for_int 0 80 (copy_cell r) s)"
  proof (rule for_int_invariant [where P = ?P])
    fix k t assume k: "0 \<le> k" "k < 80" and P: "?P k t"
    have "cells_only t (copy_cell r k t)" using assms k by (simp add: cells_only_def copy_outside)
    with P have "cells_only s (copy_cell r k t)" using cells_only_trans by blast
    moreover have "cell (copy_cell r k t) q d = (if q = r \<and> d < k + 1 then cell s (r + 1) d else cell s q d)"
      if "0 \<le> d" "d < 80" for q d
      using P that k by (auto simp: cell_copy)
    ultimately show "?P (k + 1) (copy_cell r k t)" by blast
  qed (auto simp: cells_only_refl)
  then show "cells_only s (for_int 0 80 (copy_cell r) s)" by blast
  show "0 \<le> d \<Longrightarrow> d < 80 \<Longrightarrow>
      cell (for_int 0 80 (copy_cell r) s) q d = (if q = r then cell s (r + 1) d else cell s q d)"
    using P by simp
qed

lemma copy_rows:
  "0 \<le> d \<Longrightarrow> d < 80 \<Longrightarrow> 0 \<le> q \<Longrightarrow> cell (for_int 0 24 (\<lambda>i. for_int 0 80 (copy_cell i)) s) q d
      = (if q < 24 then cell s (q + 1) d else cell s q d)"
  "cells_only s (for_int 0 24 (\<lambda>i. for_int 0 80 (copy_cell i)) s)"
proof -
  let ?P = "\<lambda>k t. (\<forall>q d. 0 \<le> q \<longrightarrow> 0 \<le> d \<longrightarrow> d < 80 \<longrightarrow>
      cell t q d = (if q < k then cell s (q + 1) d else cell s q d)) \<and> cells_only s t"
  have P: "?P 24 (for_int 0 24 (\<lambda>i. for_int 0 80 (copy_cell i)) s)"
  proof (rule for_int_invariant [where P = ?P])
    fix k t assume k: "0 \<le> k" "k < 24" and P: "?P k t"
    have "cells_only s (for_int 0 80 (copy_cell k) t)"
      using P copy_row(2) [OF k, of t] cells_only_trans by blast
    moreover have "cell (for_int 0 80 (copy_cell k) t) q d = (if q < k + 1 then cell s (q + 1) d else cell s q d)"
      if "0 \<le> q" "0 \<le> d" "d < 80" for q d
      using P that k by (auto simp: copy_row(1))
    ultimately show "?P (k + 1) (for_int 0 80 (copy_cell k) t)" by blast
  qed (auto simp: cells_only_refl)
  then show "cells_only s (for_int 0 24 (\<lambda>i. for_int 0 80 (copy_cell i)) s)" by blast
  show "0 \<le> d \<Longrightarrow> d < 80 \<Longrightarrow> 0 \<le> q \<Longrightarrow> cell (for_int 0 24 (\<lambda>i. for_int 0 80 (copy_cell i)) s) q d
      = (if q < 24 then cell s (q + 1) d else cell s q d)"
    using P by simp
qed

lemma blank_row:
  assumes "0 \<le> r" "r < 25"
  shows "0 \<le> d \<Longrightarrow> d < 80 \<Longrightarrow>
      cell (for_int 0 80 (\<lambda>j. put_cell (vga_index r j) v) s) q d = (if q = r then v else cell s q d)"
    and "cells_only s (for_int 0 80 (\<lambda>j. put_cell (vga_index r j) v) s)"
proof -
  let ?f = "\<lambda>j. put_cell (vga_index r j) v"
  let ?P = "\<lambda>k t. (\<forall>q d. 0 \<le> d \<longrightarrow> d < 80 \<longrightarrow>
      cell t q d = (if q = r \<and> d < k then v else cell s q d)) \<and> cells_only s t"
  have P: "?P 80 (for_int 0 80 ?f s)"
  proof (rule for_int_invariant [where P = ?P])
    fix k t assume k: "0 \<le> k" "k < 80" and P: "?P k t"
    have "cells_only t (?f k t)" using put_outside [OF assms k, of t v] by (simp add: cells_only_def)
    with P have "cells_only s (?f k t)" using cells_only_trans by blast
    moreover have "cell (?f k t) q d = (if q = r \<and> d < k + 1 then v else cell s q d)" if "0 \<le> d" "d < 80" for q d
      using P that k by (auto simp: cell_put)
    ultimately show "?P (k + 1) (?f k t)" by blast
  qed (auto simp: cells_only_refl)
  then show "cells_only s (for_int 0 80 ?f s)" by blast
  show "0 \<le> d \<Longrightarrow> d < 80 \<Longrightarrow> cell (for_int 0 80 ?f s) q d = (if q = r then v else cell s q d)"
    using P by simp
qed

lemma scroll_cells:
  "0 \<le> r \<Longrightarrow> r < 25 \<Longrightarrow> 0 \<le> c \<Longrightarrow> c < 80 \<Longrightarrow>
     cell (scroll s) r c = (if r < 24 then cell s (r + 1) c else chr_sp)"
  "cursor_x (scroll s) = cursor_x s" "cursor_y (scroll s) = 24" "events (scroll s) = events s" "same_outside s (scroll s)"
proof -
  let ?t = "for_int 0 24 (\<lambda>i. for_int 0 80 (copy_cell i)) s"
  let ?u = "for_int 0 80 (\<lambda>j. put_cell (vga_index 24 j) chr_sp) ?t"
  have sc: "scroll s = ?u\<lparr>cursor_y := 24\<rparr>" by (simp add: scroll_def Let_def VGA_WIDTH_def VGA_HEIGHT_def)
  have "cells_only ?t ?u" using blank_row(2) [of 24 ?t chr_sp] by simp
  then have "cells_only s ?u" by (rule cells_only_trans [OF copy_rows(2)])
  then show "cursor_x (scroll s) = cursor_x s" "cursor_y (scroll s) = 24" "events (scroll s) = events s"
    "same_outside s (scroll s)"
    using sc by (simp_all add: cells_only_def same_outside_def)
  show "0 \<le> r \<Longrightarrow> r < 25 \<Longrightarrow> 0 \<le> c \<Longrightarrow> c < 80 \<Longrightarrow> cell (scroll s) r c = (if r < 24 then cell s (r + 1) c else chr_sp)"
    using blank_row(1) [of 24 c chr_sp ?t r] copy_rows(1) [of c r s] by (auto simp: sc)
qed

section \<open>The abstract terminal\<close>

text \<open>
  The specification of the console: 25 rows of 80 characters and a cursor. A newline at the bottom
  drops the top row and adds a blank one.
\<close>

record tty =
  rows :: "u8 list list"
  tx :: nat
  ty :: nat

definition tty_newline :: "tty \<Rightarrow> tty" where
  "tty_newline t =
     (if ty t + 1 < 25 then t\<lparr>tx := 0, ty := ty t + 1\<rparr>
      else t\<lparr>rows := tl (rows t) @ [replicate 80 chr_sp], tx := 0, ty := 24\<rparr>)"

definition tty_set :: "nat \<Rightarrow> nat \<Rightarrow> u8 \<Rightarrow> tty \<Rightarrow> tty" where
  "tty_set r c v t = t\<lparr>rows := (rows t)[r := (rows t ! r)[c := v]]\<rparr>"

definition tty_backspace :: "tty \<Rightarrow> tty" where
  "tty_backspace t =
     (if tx t = 0 \<and> ty t = 0 then t
      else let t = (if 0 < tx t then t\<lparr>tx := tx t - 1\<rparr> else t\<lparr>tx := 79, ty := ty t - 1\<rparr>)
           in tty_set (ty t) (tx t) chr_sp t)"

definition tty_putc :: "u8 \<Rightarrow> tty \<Rightarrow> tty" where
  "tty_putc c t =
     (if c = chr_bs then tty_backspace t
      else if c = chr_nl then tty_newline t
      else let t = tty_set (ty t) (tx t) c t
           in if tx t + 1 < 80 then t\<lparr>tx := tx t + 1\<rparr> else tty_newline t)"

definition screen_rows :: "io \<Rightarrow> u8 list list" where
  "screen_rows s = map (\<lambda>r. map (\<lambda>c. cell s (int r) (int c)) [0..<80]) [0..<25]"

definition tty_of :: "io \<Rightarrow> tty" where
  "tty_of s = \<lparr>rows = screen_rows s, tx = nat (cursor_x s), ty = nat (cursor_y s)\<rparr>"

lemma screen_rows_nth: "r < 25 \<Longrightarrow> c < 80 \<Longrightarrow> screen_rows s ! r ! c = cell s (int r) (int c)"
  by (simp add: screen_rows_def)

lemma screen_rows_length [simp]: "length (screen_rows s) = 25" "r < 25 \<Longrightarrow> length (screen_rows s ! r) = 80"
  by (simp_all add: screen_rows_def)

lemma screen_rows_eqI:
  assumes "length xs = 25" "\<And>r. r < 25 \<Longrightarrow> length (xs ! r) = 80"
    and "\<And>r c. r < 25 \<Longrightarrow> c < 80 \<Longrightarrow> xs ! r ! c = cell s (int r) (int c)"
  shows "screen_rows s = xs"
  by (rule nth_equalityI) (auto simp: assms screen_rows_nth intro!: nth_equalityI)

lemma screen_rows_scroll: "screen_rows (scroll s) = tl (screen_rows s) @ [replicate 80 chr_sp]"
proof (rule screen_rows_eqI)
  fix r :: nat assume "r < 25"
  then show "length ((tl (screen_rows s) @ [replicate 80 chr_sp]) ! r) = 80"
    by (auto simp: nth_append nth_tl)
  fix c :: nat assume "c < 80"
  with \<open>r < 25\<close> show "(tl (screen_rows s) @ [replicate 80 chr_sp]) ! r ! c = cell (scroll s) (int r) (int c)"
    by (auto simp: nth_append nth_tl scroll_cells screen_rows_nth add.commute)
qed simp

lemma screen_rows_put:
  assumes "0 \<le> r" "r < 25" "0 \<le> c" "c < 80"
  shows "screen_rows (put_cell (vga_index r c) v s) =
    (screen_rows s)[nat r := (screen_rows s ! nat r)[nat c := v]]"
proof (rule screen_rows_eqI)
  fix q :: nat assume q: "q < 25"
  show "length ((screen_rows s)[nat r := (screen_rows s ! nat r)[nat c := v]] ! q) = 80"
    using q assms by (cases "q = nat r") auto
  fix d :: nat assume d: "d < 80"
  have "int q = r \<longleftrightarrow> q = nat r" "int d = c \<longleftrightarrow> d = nat c" using assms by auto
  then show "(screen_rows s)[nat r := (screen_rows s ! nat r)[nat c := v]] ! q ! d
      = cell (put_cell (vga_index r c) v s) (int q) (int d)"
    using q d assms by (cases "q = nat r"; cases "d = nat c") (auto simp: cell_put screen_rows_nth)
qed simp

lemma screen_rows_cong [simp]:
  "screen_rows (update_hardware_cursor s) = screen_rows s" "screen_rows (s\<lparr>cursor_x := x\<rparr>) = screen_rows s"
  "screen_rows (s\<lparr>cursor_y := y\<rparr>) = screen_rows s"
  by (simp_all add: screen_rows_def)

text \<open>The line feed of both branches of \<open>printc\<close>.\<close>

definition line_feed :: "io \<Rightarrow> io" where
  "line_feed s = (let s = s\<lparr>cursor_y := cursor_y s + 1, cursor_x := 0\<rparr> in if cursor_y s \<ge> VGA_HEIGHT then scroll s else s)"

lemma line_feed_tty: "on_screen s \<Longrightarrow> tty_of (line_feed s) = tty_newline (tty_of s)"
  by (auto simp: line_feed_def Let_def tty_newline_def tty_of_def VGA_HEIGHT_def scroll_cells
      screen_rows_scroll on_screen_def)

lemma line_feed_on_screen: "on_screen s \<Longrightarrow> on_screen (line_feed s)"
  by (auto simp: line_feed_def Let_def on_screen_def VGA_HEIGHT_def scroll_cells)

lemma line_feed_outside: "same_outside s (line_feed s)"
  using scroll_cells(5) [of "s\<lparr>cursor_y := cursor_y s + 1, cursor_x := 0\<rparr>"]
  by (auto simp: line_feed_def Let_def same_outside_def)

lemma cursor_update_order: "s\<lparr>cursor_y := y, cursor_x := x\<rparr> = s\<lparr>cursor_x := x, cursor_y := y\<rparr>" for s :: io
  by (cases s) simp

text \<open>\<open>printc\<close> on a cursor that is on the screen, by cases.\<close>

lemma printc_cases:
  assumes "on_screen s"
  shows "printc c s =
    (if c = chr_bs then
       if cursor_x s = 0 \<and> cursor_y s = 0 then s
       else let t = (if cursor_x s > 0 then s\<lparr>cursor_x := cursor_x s - 1\<rparr>
                     else s\<lparr>cursor_y := cursor_y s - 1, cursor_x := 79\<rparr>)
            in update_hardware_cursor (put_cell (vga_index (cursor_y t) (cursor_x t)) chr_sp t)
     else if c = chr_nl then update_hardware_cursor (line_feed s)
     else let t = put_cell (vga_index (cursor_y s) (cursor_x s)) c s
          in update_hardware_cursor (if cursor_x s < 79 then t\<lparr>cursor_x := cursor_x s + 1\<rparr> else line_feed t))"
  using assms
  by (auto simp: printc_def Let_def line_feed_def on_screen_def VGA_WIDTH_def VGA_HEIGHT_def cursor_update_order
      intro!: arg_cong [where f = update_hardware_cursor])

text \<open>What every console operation keeps: the cursor on the screen, the bytes off it.\<close>

lemma put_on_screen [simp]: "on_screen (put_cell i v s) \<longleftrightarrow> on_screen s"
  by (simp add: on_screen_def)

lemma on_screen_update [simp]: "on_screen (update_hardware_cursor s) \<longleftrightarrow> on_screen s"
  by (simp add: on_screen_def)

lemma printc_on_screen: "on_screen s \<Longrightarrow> on_screen (printc c s)"
  using line_feed_on_screen [of s] line_feed_on_screen [of "put_cell (vga_index (cursor_y s) (cursor_x s)) c s"]
  by (auto simp: printc_cases Let_def on_screen_def)

lemma same_outside_update [simp]: "same_outside s (update_hardware_cursor t) \<longleftrightarrow> same_outside s t"
  "same_outside s (t\<lparr>cursor_x := x\<rparr>) \<longleftrightarrow> same_outside s t" "same_outside (s\<lparr>cursor_x := x\<rparr>) t \<longleftrightarrow> same_outside s t"
  "same_outside (s\<lparr>cursor_y := y\<rparr>) t \<longleftrightarrow> same_outside s t"
  by (simp_all add: same_outside_def)

lemma printc_outside:
  assumes "on_screen s"
  shows "same_outside s (printc c s)"
proof -
  have here: "same_outside s (put_cell (vga_index (cursor_y s) (cursor_x s)) v s)" for v
    using assms by (intro put_outside) (auto simp: on_screen_def)
  have left: "same_outside s (put_cell (vga_index (cursor_y s) (cursor_x s - 1)) v (s\<lparr>cursor_x := cursor_x s - 1\<rparr>))"
    if "cursor_x s > 0" for v
    using put_outside [of "cursor_y s" "cursor_x s - 1" "s\<lparr>cursor_x := cursor_x s - 1\<rparr>" v] assms that
    by (simp add: on_screen_def)
  have up: "same_outside s (put_cell (vga_index (cursor_y s - 1) 79) v (s\<lparr>cursor_x := 79, cursor_y := cursor_y s - 1\<rparr>))"
    if "cursor_y s \<noteq> 0" for v
    using put_outside [of "cursor_y s - 1" 79 "s\<lparr>cursor_x := 79, cursor_y := cursor_y s - 1\<rparr>" v] assms that
    by (simp add: on_screen_def)
  have "same_outside s (line_feed (put_cell (vga_index (cursor_y s) (cursor_x s)) c s))"
    using here line_feed_outside same_outside_trans by blast
  then show ?thesis
    using here left up assms line_feed_outside [of s]
    by (auto simp: printc_cases Let_def cursor_update_order on_screen_def)
qed

section \<open>The cursor on the ports\<close>

text \<open>
  The registers of a CRT controller behind a pair of ports: a write to port \<open>ip\<close> selects a register, a
  write to \<open>dp\<close> sets it; registers 14 and 15 hold the high and low byte of the cursor position. The VGA
  adapter decodes \<open>0x3D4\<close> and \<open>0x3D5\<close>; the kernel writes \<open>0xD4\<close> and \<open>0xD5\<close>.
\<close>

fun crtc_step :: "u16 \<Rightarrow> u16 \<Rightarrow> u8 \<times> (u8 \<Rightarrow> u8) \<Rightarrow> port_event \<Rightarrow> u8 \<times> (u8 \<Rightarrow> u8)" where
  "crtc_step ip dp (i, r) (Outb p v) = (if p = ip then (v, r) else if p = dp then (i, r(i := v)) else (i, r))"
| "crtc_step ip dp (i, r) (Inb p v) = (i, r)"

definition crtc :: "u16 \<Rightarrow> u16 \<Rightarrow> port_event list \<Rightarrow> u8 \<times> (u8 \<Rightarrow> u8)" where
  "crtc ip dp es = foldl (crtc_step ip dp) (0, \<lambda>_. 0) es"

definition hw_cursor :: "u16 \<Rightarrow> u16 \<Rightarrow> port_event list \<Rightarrow> int" where
  "hw_cursor ip dp es = uint (snd (crtc ip dp es) 14) * 256 + uint (snd (crtc ip dp es) 15)"

text \<open>The position last sent to the ports the kernel writes is that of the software cursor.\<close>

definition cursor_sent :: "io \<Rightarrow> bool" where
  "cursor_sent s \<longleftrightarrow> hw_cursor 0xD4 0xD5 (events s) = cursor_y s * 80 + cursor_x s"

lemma crtc_update:
  "snd (crtc 0xD4 0xD5 (events (update_hardware_cursor s))) =
     (snd (crtc 0xD4 0xD5 (events s)))(14 := ucast (drop_bit 8 (word_of_int (cursor_y s * 80 + cursor_x s) :: u32) AND 0xFF),
       15 := ucast ((word_of_int (cursor_y s * 80 + cursor_x s) :: u32) AND 0xFF))"
  by (cases "crtc 0xD4 0xD5 (events s)")
    (simp add: crtc_def update_hardware_cursor_def outb_imm_def outb_def Let_def VGA_WIDTH_def)

text \<open>None of it reaches the adapter.\<close>

lemma adapter_update [simp]: "crtc 0x3D4 0x3D5 (events (update_hardware_cursor s)) = crtc 0x3D4 0x3D5 (events s)"
  by (cases "crtc 0x3D4 0x3D5 (events s)") (simp add: crtc_def update_hardware_cursor_def outb_imm_def outb_def Let_def)

lemma line_feed_events [simp]: "events (line_feed s) = events s"
  by (simp add: line_feed_def Let_def scroll_cells)

lemma printc_adapter: "on_screen s \<Longrightarrow> crtc 0x3D4 0x3D5 (events (printc c s)) = crtc 0x3D4 0x3D5 (events s)"
  by (simp add: printc_cases Let_def)

lemma split_position:
  assumes "0 \<le> p" "p < 65536"
  shows "uint (ucast (drop_bit 8 (word_of_int p :: u32) AND 0xFF) :: u8) * 256 + uint (ucast ((word_of_int p :: u32) AND 0xFF) :: u8) = p"
proof -
  have ff: "(0xFF :: u32) = mask 8" by (simp add: mask_eq_decr_exp)
  have p: "uint (word_of_int p :: u32) = p" using assms by (simp add: uint_word_of_int_eq take_bit_int_eq_self)
  have "uint (ucast ((word_of_int p :: u32) AND 0xFF) :: u8) = p mod 256"
    by (simp only: ff take_bit_eq_mask [symmetric])
      (simp add: unsigned_ucast_eq unsigned_take_bit_eq p, simp add: take_bit_eq_mod)
  moreover have "uint (ucast (drop_bit 8 (word_of_int p :: u32) AND 0xFF) :: u8) = p div 256"
  proof -
    have "uint (drop_bit 8 (word_of_int p :: u32)) = p div 256"
      using assms by (simp add: unsigned_drop_bit_eq p, simp add: drop_bit_eq_div take_bit_int_eq_self)
    then have "uint (ucast (drop_bit 8 (word_of_int p :: u32) AND 0xFF) :: u8) = p div 256 mod 256"
      by (simp only: ff take_bit_eq_mask [symmetric])
        (simp add: unsigned_ucast_eq unsigned_take_bit_eq, simp add: take_bit_eq_mod)
    also have "\<dots> = p div 256" using assms by simp
    finally show ?thesis .
  qed
  ultimately show ?thesis by simp
qed

lemma update_sent:
  assumes "on_screen s"
  shows "cursor_sent (update_hardware_cursor s)"
proof -
  have "0 \<le> cursor_y s * 80 + cursor_x s" "cursor_y s * 80 + cursor_x s < 65536"
    using assms by (auto simp: on_screen_def)
  from split_position [OF this] show ?thesis
    unfolding cursor_sent_def hw_cursor_def crtc_update by (simp del: of_int_add of_int_mult)
qed

lemma printc_sent:
  assumes "on_screen s" "cursor_sent s"
  shows "cursor_sent (printc c s)"
proof (cases "c = chr_bs \<and> cursor_x s = 0 \<and> cursor_y s = 0")
  case True
  then show ?thesis using assms by (simp add: printc_def)
next
  case False
  then have "\<exists>t. printc c s = update_hardware_cursor t"
    unfolding printc_cases [OF assms(1)] Let_def by (cases "c = chr_bs"; cases "c = chr_nl") auto
  then obtain t where t: "printc c s = update_hardware_cursor t" by blast
  with printc_on_screen [OF assms(1), of c] have "on_screen t" by simp
  then show ?thesis using t update_sent by simp
qed

lemma tty_of_update [simp]: "tty_of (update_hardware_cursor s) = tty_of s"
  by (simp add: tty_of_def)

lemma tty_of_put:
  assumes "0 \<le> r" "r < 25" "0 \<le> c" "c < 80"
  shows "tty_of (put_cell (vga_index r c) v s) = tty_set (nat r) (nat c) v (tty_of s)"
  using assms by (simp add: tty_of_def tty_set_def screen_rows_put)

lemma printc_tty:
  assumes "on_screen s"
  shows "tty_of (printc c s) = tty_putc c (tty_of s)"
proof -
  have pos: "0 \<le> cursor_x s" "cursor_x s < 80" "0 \<le> cursor_y s" "cursor_y s < 25" using assms by (auto simp: on_screen_def)
  consider "c = chr_bs" | "c = chr_nl" | "c \<noteq> chr_bs" "c \<noteq> chr_nl" by blast
  then show ?thesis
  proof cases
    case 1
    then show ?thesis
      using assms pos
      by (auto simp: printc_cases Let_def tty_putc_def tty_backspace_def tty_of_put)
        (auto simp: tty_of_def tty_set_def nat_diff_distrib)
  next
    case 2
    then show ?thesis using assms by (simp add: printc_cases tty_putc_def line_feed_tty chr_nl_def chr_bs_def)
  next
    case 3
    let ?t = "put_cell (vga_index (cursor_y s) (cursor_x s)) c s"
    have put: "tty_of ?t = tty_set (nat (cursor_y s)) (nat (cursor_x s)) c (tty_of s)"
      using pos by (simp add: tty_of_put)
    have "tty_of (?t\<lparr>cursor_x := cursor_x s + 1\<rparr>) = (tty_of ?t)\<lparr>tx := nat (cursor_x s) + 1\<rparr>"
      using pos by (simp add: tty_of_def nat_add_distrib)
    moreover have "tty_of (line_feed ?t) = tty_newline (tty_of ?t)" using assms by (simp add: line_feed_tty)
    moreover have "tx (tty_of s) = nat (cursor_x s)" "ty (tty_of s) = nat (cursor_y s)" by (simp_all add: tty_of_def)
    moreover have "nat (cursor_x s) + 1 < 80 \<longleftrightarrow> cursor_x s < 79" using pos by linarith
    ultimately show ?thesis
      using 3 assms put by (simp add: printc_cases Let_def tty_putc_def) (simp add: tty_set_def)
  qed
qed

section \<open>Strings\<close>

lemma print_on_screen: "on_screen s \<Longrightarrow> on_screen (print str s)"
  unfolding print_def by (induction str arbitrary: s) (simp_all add: printc_on_screen)

lemma print_sent: "on_screen s \<Longrightarrow> cursor_sent s \<Longrightarrow> cursor_sent (print str s)"
  unfolding print_def by (induction str arbitrary: s) (simp_all add: printc_on_screen printc_sent)

lemma print_adapter: "on_screen s \<Longrightarrow> crtc 0x3D4 0x3D5 (events (print str s)) = crtc 0x3D4 0x3D5 (events s)"
  unfolding print_def by (induction str arbitrary: s) (simp_all add: printc_on_screen printc_adapter)

lemma print_outside: "on_screen s \<Longrightarrow> same_outside s (print str s)"
  unfolding print_def
  by (induction str arbitrary: s) (auto intro: same_outside_trans printc_outside printc_on_screen)

lemma print_tty: "on_screen s \<Longrightarrow> tty_of (print str s) = fold tty_putc str (tty_of s)"
  unfolding print_def by (induction str arbitrary: s) (simp_all add: printc_on_screen printc_tty)

lemma println_print: "println str s = print (str @ [chr_nl]) s"
  by (simp add: println_def print_def)

lemma clear_cells:
  assumes "0 \<le> r" "r < 25" "0 \<le> c" "c < 80"
  shows "cell (clear s) r c = chr_sp"
    and "on_screen (clear s)" and "same_outside s (clear s)" and "cursor_sent (clear s)"
proof -
  let ?f = "\<lambda>y. for_int 0 80 (\<lambda>x. put_cell (vga_index y x) chr_sp)"
  let ?P = "\<lambda>k t. (\<forall>q d. 0 \<le> q \<longrightarrow> q < k \<longrightarrow> 0 \<le> d \<longrightarrow> d < 80 \<longrightarrow> cell t q d = chr_sp) \<and> cells_only s t"
  have "?P 25 (for_int 0 25 ?f s)"
  proof (rule for_int_invariant [where P = ?P])
    fix k t assume k: "0 \<le> k" "k < 25" and P: "?P k t"
    have "cells_only s (?f k t)" using P blank_row(2) [OF k, of t chr_sp] cells_only_trans by blast
    moreover have "cell (?f k t) q d = chr_sp" if "0 \<le> q" "q < k + 1" "0 \<le> d" "d < 80" for q d
      using P that blank_row(1) [OF k that(3,4), of chr_sp t q] by auto
    ultimately show "?P (k + 1) (?f k t)" by blast
  qed (auto simp: cells_only_refl)
  moreover have cl: "clear s = update_hardware_cursor ((for_int 0 25 ?f s)\<lparr>cursor_x := 0, cursor_y := 0\<rparr>)"
    by (simp add: clear_def Let_def VGA_WIDTH_def VGA_HEIGHT_def)
  ultimately show "cell (clear s) r c = chr_sp" "same_outside s (clear s)"
    using assms by (auto simp: cells_only_def same_outside_def)
  show "on_screen (clear s)" "cursor_sent (clear s)"
    using cl update_sent by (simp_all add: on_screen_def)
qed

section \<open>Properties\<close>

text \<open>
  C14. Printing a string does to the video memory and the cursor exactly what
  the abstract terminal of 25 rows does character by character: backspace steps back and blanks,
  newline and a full row advance, and at the bottom the rows move up. The cursor stays on the screen and
  no byte outside the screen is written. The position last sent to ports \<open>0xD4\<close> and \<open>0xD5\<close> stays that of the
  software cursor; these are not the ports of the adapter, whose cursor registers keep what they held.
\<close>

theorem console_refines_tty:
  assumes "on_screen s" and "cursor_sent s"
  shows "tty_of (println str s) = fold tty_putc (str @ [chr_nl]) (tty_of s)
    \<and> on_screen (println str s) \<and> cursor_sent (println str s) \<and> same_outside s (println str s)
    \<and> crtc 0x3D4 0x3D5 (events (println str s)) = crtc 0x3D4 0x3D5 (events s)"
  using assms print_tty print_on_screen print_sent print_outside print_adapter unfolding println_print by blast

text \<open>A cleared console.\<close>

definition io_sample :: io where
  "io_sample = clear \<lparr>video_memory = (\<lambda>_. 0), cursor_x = 0, cursor_y = 0, events = []\<rparr>"

lemma io_sample_ok: "on_screen io_sample" "cursor_sent io_sample"
  using clear_cells [of 0 0] by (simp_all add: io_sample_def)

theorem console_refines_tty_witness:
  "tty_of (println (lit ''KBD: IRQs unmask'') io_sample) = fold tty_putc (lit ''KBD: IRQs unmask'' @ [chr_nl]) (tty_of io_sample)
    \<and> on_screen (println (lit ''KBD: IRQs unmask'') io_sample) \<and> cursor_sent (println (lit ''KBD: IRQs unmask'') io_sample)
    \<and> same_outside io_sample (println (lit ''KBD: IRQs unmask'') io_sample)
    \<and> crtc 0x3D4 0x3D5 (events (println (lit ''KBD: IRQs unmask'') io_sample)) = crtc 0x3D4 0x3D5 (events io_sample)"
  using console_refines_tty [OF io_sample_ok] by blast

text \<open>
  Whatever the screen and the cursor were, \<open>clear\<close> leaves 25 blank rows with the
  cursor in the top left corner, sends that position to ports \<open>0xD4\<close> and \<open>0xD5\<close> and writes nothing outside
  the screen.
\<close>

theorem clear_blanks:
  "tty_of (clear s) = \<lparr>rows = replicate 25 (replicate 80 chr_sp), tx = 0, ty = 0\<rparr>
   \<and> hw_cursor 0xD4 0xD5 (events (clear s)) = 0 \<and> same_outside s (clear s)"
proof -
  have "screen_rows (clear s) = replicate 25 (replicate 80 chr_sp)"
    by (rule screen_rows_eqI) (auto simp: clear_cells)
  moreover have "cursor_x (clear s) = 0" "cursor_y (clear s) = 0" by (simp_all add: clear_def Let_def)
  moreover note clear_cells(3,4) [of 0 0 s]
  ultimately show ?thesis by (simp add: tty_of_def cursor_sent_def)
qed

text \<open>
  After any printable character that does not end the last row, a backspace
  brings the cursor back to where it was and blanks the cell the character was written to.
\<close>

theorem backspace_erases:
  assumes "on_screen s" and "c \<noteq> chr_bs" and "c \<noteq> chr_nl" and "\<not> (cursor_x s = 79 \<and> cursor_y s = 24)"
  shows "tty_of (printc chr_bs (printc c s)) = tty_set (nat (cursor_y s)) (nat (cursor_x s)) chr_sp (tty_of s)"
proof -
  have pos: "0 \<le> cursor_x s" "cursor_x s < 80" "0 \<le> cursor_y s" "cursor_y s < 25" using assms by (auto simp: on_screen_def)
  then have ty: "nat (cursor_y s) < 25" "nat (cursor_x s) < 80" by auto
  have fl: "length (rows (tty_of s)) = 25" "tx (tty_of s) = nat (cursor_x s)" "ty (tty_of s) = nat (cursor_y s)"
    by (simp_all add: tty_of_def)
  have "tty_of (printc chr_bs (printc c s)) = tty_backspace (tty_putc c (tty_of s))"
    using assms(1) by (simp add: printc_tty printc_on_screen tty_putc_def [of chr_bs])
  also have "\<dots> = tty_set (nat (cursor_y s)) (nat (cursor_x s)) chr_sp (tty_of s)"
  proof (cases "cursor_x s = 79")
    case True
    then have "cursor_y s < 24" using assms(4) pos by auto
    then show ?thesis
      using True assms(2,3) fl ty by (simp add: tty_putc_def tty_newline_def tty_backspace_def tty_set_def Let_def)
  next
    case False
    then have "nat (cursor_x s) + 1 < 80" using pos by linarith
    then show ?thesis
      using False assms(2,3) fl ty by (simp add: tty_putc_def tty_backspace_def tty_set_def Let_def)
  qed
  finally show ?thesis .
qed

theorem backspace_erases_witness:
  "tty_of (printc chr_bs (printc 65 io_sample)) = tty_set 0 0 chr_sp (tty_of io_sample)"
proof -
  have "cursor_x io_sample = 0" "cursor_y io_sample = 0" by (simp_all add: io_sample_def clear_def Let_def)
  then show ?thesis using backspace_erases [OF io_sample_ok(1), of 65] by (simp add: chr_bs_def chr_nl_def)
qed

end
