(* ===== verification/Arch.thy ===== *)
theory Arch
  imports Console
begin

text \<open>
  The x86 tables and controllers the kernel programs at boot: segment descriptors (\<open>arch/gdt.c\<close>),
  interrupt gates (\<open>arch/idt.c\<close>), the interrupt controllers (\<open>arch/pic.c\<close>) and the interval timer
  (\<open>arch/pit.c\<close>). What the processor and the controllers make of the encodings is written down from
  their documentation, so that the kernel's encoders can be proved against it.
\<close>

section \<open>Segment descriptors\<close>

record gdt_entry =
  limit_low :: u16
  base_low :: u16
  base_mid :: u8
  access :: u8
  granularity :: u8
  base_high :: u8

text \<open>
  The descriptor table, and the register image (\<open>limit\<close>, \<open>base\<close>) that \<open>gdt_flush\<close> loads. The C array has
  \<open>GDT_ENTRIES\<close> elements and \<open>gdt_set_gate\<close> does not check its index; the entries of the model from that
  index on stand for stores past the array, which the kernel never makes: its only calls are those of \<open>gdt_init\<close>.
\<close>

record gdt =
  gdt_table :: "u32 \<Rightarrow> gdt_entry"
  gdt_ptr :: "u16 \<times> u32"
  gdtr :: "u16 \<times> u32"

definition GDT_ENTRIES :: u32 where "GDT_ENTRIES = 3"

definition gdt_set_gate :: "u32 \<Rightarrow> u32 \<Rightarrow> u32 \<Rightarrow> u8 \<Rightarrow> u8 \<Rightarrow> gdt \<Rightarrow> gdt" where
  "gdt_set_gate num base limit acc gran s =
     s\<lparr>gdt_table := (gdt_table s)(num :=
        \<lparr>limit_low = ucast (limit AND 0xFFFF),
         base_low = ucast (base AND 0xFFFF),
         base_mid = ucast (drop_bit 16 base AND 0xFF),
         access = acc,
         granularity = ucast (drop_bit 16 limit AND 0x0F) OR (gran AND 0xF0),
         base_high = ucast (drop_bit 24 base AND 0xFF)\<rparr>)\<rparr>"

definition gdt_init :: "u32 \<Rightarrow> gdt \<Rightarrow> gdt" where
  "gdt_init table_addr s =
     (let s = s\<lparr>gdt_ptr := (ucast (8 * GDT_ENTRIES - 1), table_addr)\<rparr>;
          s = gdt_set_gate 0 0 0 0 0 s;
          s = gdt_set_gate 1 0 0xFFFFFFFF 0x9A 0xCF s;
          s = gdt_set_gate 2 0 0xFFFFFFFF 0x92 0xCF s
      in s\<lparr>gdtr := gdt_ptr s\<rparr>)"

section \<open>Interrupt gates\<close>

record idt_entry =
  gate_low :: u16
  selector :: u16
  zero :: u8
  flags :: u8
  gate_high :: u16

record idt =
  idt_table :: "u8 \<Rightarrow> idt_entry"
  idt_ptr :: "u16 \<times> u32"
  idtr :: "u16 \<times> u32"

definition idt_set_gate :: "u8 \<Rightarrow> u32 \<Rightarrow> u16 \<Rightarrow> u8 \<Rightarrow> idt \<Rightarrow> idt" where
  "idt_set_gate num base sel fl s =
     s\<lparr>idt_table := (idt_table s)(num :=
        \<lparr>gate_low = ucast (base AND 0xFFFF), selector = sel, zero = 0, flags = fl,
         gate_high = ucast (drop_bit 16 base AND 0xFFFF)\<rparr>)\<rparr>"

definition null_gate :: idt_entry where
  "null_gate = \<lparr>gate_low = 0, selector = 0, zero = 0, flags = 0, gate_high = 0\<rparr>"

text \<open>\<open>isr n\<close> and \<open>irq n\<close> are the addresses of the assembly stubs.\<close>

definition idt_init :: "(u8 \<Rightarrow> u32) \<Rightarrow> (u8 \<Rightarrow> u32) \<Rightarrow> u32 \<Rightarrow> idt \<Rightarrow> idt" where
  "idt_init isr irq table_addr s =
     (let s = s\<lparr>idt_ptr := (ucast (8 * 256 - 1 :: u32), table_addr)\<rparr>;
          s = for_int 0 256 (\<lambda>i s. s\<lparr>idt_table := (idt_table s)(word_of_int i := null_gate)\<rparr>) s;
          s = idt_set_gate 0 (isr 0) 0x08 0x8E s;
          s = idt_set_gate 1 (isr 1) 0x08 0x8E s;
          s = idt_set_gate 2 (isr 2) 0x08 0x8E s;
          s = idt_set_gate 3 (isr 3) 0x08 0x8E s;
          s = idt_set_gate 4 (isr 4) 0x08 0x8E s;
          s = idt_set_gate 5 (isr 5) 0x08 0x8E s;
          s = idt_set_gate 6 (isr 6) 0x08 0x8E s;
          s = idt_set_gate 7 (isr 7) 0x08 0x8E s;
          s = idt_set_gate 8 (isr 8) 0x08 0x8E s;
          s = idt_set_gate 9 (isr 9) 0x08 0x8E s;
          s = idt_set_gate 10 (isr 10) 0x08 0x8E s;
          s = idt_set_gate 11 (isr 11) 0x08 0x8E s;
          s = idt_set_gate 12 (isr 12) 0x08 0x8E s;
          s = idt_set_gate 13 (isr 13) 0x08 0x8E s;
          s = idt_set_gate 14 (isr 14) 0x08 0x8E s;
          s = idt_set_gate 15 (isr 15) 0x08 0x8E s;
          s = idt_set_gate 16 (isr 16) 0x08 0x8E s;
          s = idt_set_gate 17 (isr 17) 0x08 0x8E s;
          s = idt_set_gate 18 (isr 18) 0x08 0x8E s;
          s = idt_set_gate 19 (isr 19) 0x08 0x8E s;
          s = idt_set_gate 20 (isr 20) 0x08 0x8E s;
          s = idt_set_gate 21 (isr 21) 0x08 0x8E s;
          s = idt_set_gate 22 (isr 22) 0x08 0x8E s;
          s = idt_set_gate 23 (isr 23) 0x08 0x8E s;
          s = idt_set_gate 24 (isr 24) 0x08 0x8E s;
          s = idt_set_gate 25 (isr 25) 0x08 0x8E s;
          s = idt_set_gate 26 (isr 26) 0x08 0x8E s;
          s = idt_set_gate 27 (isr 27) 0x08 0x8E s;
          s = idt_set_gate 28 (isr 28) 0x08 0x8E s;
          s = idt_set_gate 29 (isr 29) 0x08 0x8E s;
          s = idt_set_gate 30 (isr 30) 0x08 0x8E s;
          s = idt_set_gate 31 (isr 31) 0x08 0x8E s;
          s = idt_set_gate 128 (isr 128) 0x08 0xEE s;
          s = idt_set_gate 32 (irq 0) 0x08 0x8E s;
          s = idt_set_gate 33 (irq 1) 0x08 0x8E s
      in s\<lparr>idtr := idt_ptr s\<rparr>)"

section \<open>Interrupt controllers\<close>

definition PIC_MASTER_CMD :: u16 where "PIC_MASTER_CMD = 0x20"
definition PIC_MASTER_DATA :: u16 where "PIC_MASTER_DATA = 0x21"
definition PIC_SLAVE_CMD :: u16 where "PIC_SLAVE_CMD = 0xA0"
definition PIC_SLAVE_DATA :: u16 where "PIC_SLAVE_DATA = 0xA1"
definition PIC_EOI :: u8 where "PIC_EOI = 0x20"

definition io_wait :: "io \<Rightarrow> io" where
  "io_wait = outb 0x80 0"

definition pic_init :: "io \<Rightarrow> io" where
  "pic_init s =
     (let s = io_wait (outb PIC_MASTER_CMD 0x11 s);
          s = io_wait (outb PIC_SLAVE_CMD 0x11 s);
          s = io_wait (outb PIC_MASTER_DATA 0x20 s);
          s = io_wait (outb PIC_SLAVE_DATA 0x28 s);
          s = io_wait (outb PIC_MASTER_DATA (push_bit 2 1) s);
          s = io_wait (outb PIC_SLAVE_DATA 2 s);
          s = io_wait (outb PIC_MASTER_DATA 0x01 s);
          s = io_wait (outb PIC_SLAVE_DATA 0x01 s);
          s = io_wait (outb PIC_MASTER_DATA 0xFF s)
      in io_wait (outb PIC_SLAVE_DATA 0xFF s))"

definition pic_send_eoi :: "u8 \<Rightarrow> io \<Rightarrow> io" where
  "pic_send_eoi irq s =
     (let s = (if irq \<ge> 8 then outb PIC_SLAVE_CMD PIC_EOI s else s)
      in outb PIC_MASTER_CMD PIC_EOI s)"

definition pic_set_irq_mask :: "device \<Rightarrow> u8 \<Rightarrow> io \<Rightarrow> io" where
  "pic_set_irq_mask dev irq s =
     (let port = (if irq < 8 then PIC_MASTER_DATA else PIC_SLAVE_DATA);
          irq = (if irq < 8 then irq else irq - 8);
          (v, s) = inb dev port s;
          mask = ucast ((ucast v :: u32) OR push_bit (unat irq) 1)
      in outb port mask s)"

definition pic_clear_irq_mask :: "device \<Rightarrow> u8 \<Rightarrow> io \<Rightarrow> io" where
  "pic_clear_irq_mask dev irq s =
     (let port = (if irq < 8 then PIC_MASTER_DATA else PIC_SLAVE_DATA);
          irq = (if irq < 8 then irq else irq - 8);
          (v, s) = inb dev port s;
          mask = ucast ((ucast v :: u32) AND NOT (push_bit (unat irq) 1))
      in outb port mask s)"

section \<open>Interval timer\<close>

definition PIT_CH0 :: u16 where "PIT_CH0 = 0x40"
definition PIT_CTRL :: u16 where "PIT_CTRL = 0x43"
definition PIT_FREQ :: u32 where "PIT_FREQ = 1193182"

text \<open>\<open>None\<close>: the division by zero that \<open>hz = 0\<close> raises.\<close>

definition pit_set_frequency :: "u32 \<Rightarrow> io \<Rightarrow> io option" where
  "pit_set_frequency hz s =
     (if hz = 0 then None
      else
        let divisor = PIT_FREQ div hz;
            s = io_wait (outb PIT_CTRL 0x34 s);
            s = io_wait (outb PIT_CH0 (ucast (divisor AND 0xFF)) s)
        in Some (io_wait (outb PIT_CH0 (ucast (drop_bit 8 divisor AND 0xFF)) s)))"

definition pit_init :: "io \<Rightarrow> io option" where
  "pit_init s = pit_set_frequency 100 s"

section \<open>What the processor reads from a descriptor\<close>

definition desc_base :: "gdt_entry \<Rightarrow> u32" where
  "desc_base e = ucast (base_low e) OR push_bit 16 (ucast (base_mid e)) OR push_bit 24 (ucast (base_high e))"

definition desc_limit :: "gdt_entry \<Rightarrow> u32" where
  "desc_limit e = ucast (limit_low e) OR push_bit 16 (ucast (granularity e AND 0x0F))"

text \<open>The last byte of the segment: with the granularity flag the limit counts 4 KiB units.\<close>

definition desc_last :: "gdt_entry \<Rightarrow> u32" where
  "desc_last e = (if bit (granularity e) 7 then push_bit 12 (desc_limit e) OR 0xFFF else desc_limit e)"

definition gate_offset :: "idt_entry \<Rightarrow> u32" where
  "gate_offset e = ucast (gate_low e) OR push_bit 16 (ucast (gate_high e))"

definition gate_present :: "idt_entry \<Rightarrow> bool" where
  "gate_present e \<longleftrightarrow> bit (flags e) 7"

section \<open>What the controllers make of the port writes\<close>

text \<open>
  One 8259A: which initialisation word it expects next (0: none, it is operational), the words it was
  given, and its mask register. A command byte with bit 4 set is the first word: its bit 0 announces a
  fourth word, its bit 1 (a single controller) leaves out the third; it clears the mask and, when there
  will be no fourth word, what an earlier one selected.
\<close>

record pic8259 =
  icw :: nat
  icw1 :: u8
  icw2 :: u8
  icw3 :: u8
  icw4 :: u8
  imr :: u8

definition pic_step :: "u16 \<Rightarrow> u16 \<Rightarrow> pic8259 \<Rightarrow> port_event \<Rightarrow> pic8259" where
  "pic_step cmd data p e =
     (case e of
        Inb _ _ \<Rightarrow> p
      | Outb port v \<Rightarrow>
          if port = cmd then
            if bit v 4 then p\<lparr>icw := 2, icw1 := v, icw3 := 7, icw4 := (if bit v 0 then icw4 p else 0), imr := 0\<rparr> else p
          else if port = data then
            if icw p = 2 then p\<lparr>icw2 := v, icw := (if \<not> bit (icw1 p) 1 then 3 else if bit (icw1 p) 0 then 4 else 0)\<rparr>
            else if icw p = 3 then p\<lparr>icw3 := v, icw := (if bit (icw1 p) 0 then 4 else 0)\<rparr>
            else if icw p = 4 then p\<lparr>icw4 := v, icw := 0\<rparr>
            else p\<lparr>imr := v\<rparr>
          else p)"

definition pic_of :: "u16 \<Rightarrow> u16 \<Rightarrow> port_event list \<Rightarrow> pic8259" where
  "pic_of cmd data es = foldl (pic_step cmd data) \<lparr>icw = 0, icw1 = 0, icw2 = 0, icw3 = 0, icw4 = 0, imr = 0\<rparr> es"

abbreviation master :: "port_event list \<Rightarrow> pic8259" where
  "master \<equiv> pic_of 0x20 0x21"

abbreviation slave :: "port_event list \<Rightarrow> pic8259" where
  "slave \<equiv> pic_of 0xA0 0xA1"

text \<open>
  The vector on which an unmasked request of line \<open>n\<close> of the pair reaches the processor. A controller that is
  operational in 8086 mode (bit 0 of the fourth word) gives the upper five bits of its second word and the number of
  the line. The slave's output is wired to line 2 of the master: the master must take line 2 as a slave (its third
  word has one bit per line with a slave), the slave must answer to identity 2, and neither may be
  programmed as the only controller.
\<close>

definition pic_ready :: "pic8259 \<Rightarrow> bool" where
  "pic_ready p \<longleftrightarrow> icw p = 0 \<and> bit (icw4 p) 0"

definition vector_of :: "pic8259 \<Rightarrow> nat \<Rightarrow> u8" where
  "vector_of p n = (icw2 p AND 0xF8) OR of_nat n"

definition irq_vector :: "port_event list \<Rightarrow> nat \<Rightarrow> u8 option" where
  "irq_vector es n =
     (let m = master es; sl = slave es
      in if \<not> pic_ready m then None
         else if n < 8 then if \<not> bit (icw1 m) 1 \<and> bit (icw3 m) n then None else Some (vector_of m n)
         else if pic_ready sl \<and> \<not> bit (icw1 m) 1 \<and> \<not> bit (icw1 sl) 1 \<and> bit (icw3 m) 2 \<and> icw3 sl AND 7 = 2
         then Some (vector_of sl (n - 8)) else None)"

text \<open>Documented: reading the data port of an operational controller gives its mask register.\<close>

definition pic_answers :: "device \<Rightarrow> bool" where
  "pic_answers dev \<longleftrightarrow> (\<forall>es. dev es 0x21 = imr (master es) \<and> dev es 0xA1 = imr (slave es))"

text \<open>
  Channel \<open>c\<close> of the 8254: which bytes of a count it takes (1: the low one, 2: the high one, 3: low, then high), its
  mode, whether it counts in BCD, a low byte that waits for its high byte, and the count it was given. A
  control word belongs to the channel in its bits 7 and 6; with 0 in bits 5 and 4 it is a command that leaves
  the channel as it is. The data port of channel \<open>c\<close> is \<open>0x40 + c\<close>.
\<close>

record pit8254 =
  pit_rw :: u8
  pit_mode :: u8
  pit_bcd :: bool
  pit_low :: "u8 option"
  pit_count :: u16

definition pit_step :: "u8 \<Rightarrow> pit8254 \<Rightarrow> port_event \<Rightarrow> pit8254" where
  "pit_step c p e =
     (case e of
        Inb _ _ \<Rightarrow> p
      | Outb port v \<Rightarrow>
          if port = 0x43 then
            if drop_bit 6 v = c \<and> drop_bit 4 v AND 3 \<noteq> 0
            then p\<lparr>pit_rw := drop_bit 4 v AND 3, pit_mode := drop_bit 1 v AND 7, pit_bcd := bit v 0, pit_low := None\<rparr>
            else p
          else if port = 0x40 + ucast c then
            if pit_rw p = 1 then p\<lparr>pit_count := ucast v\<rparr>
            else if pit_rw p = 2 then p\<lparr>pit_count := push_bit 8 (ucast v)\<rparr>
            else case pit_low p of
                None \<Rightarrow> p\<lparr>pit_low := Some v\<rparr>
              | Some l \<Rightarrow> p\<lparr>pit_low := None, pit_count := ucast l OR push_bit 8 (ucast v)\<rparr>
          else p)"

definition pit_of :: "u8 \<Rightarrow> port_event list \<Rightarrow> pit8254" where
  "pit_of c es = foldl (pit_step c) \<lparr>pit_rw = 3, pit_mode = 0, pit_bcd = False, pit_low = None, pit_count = 0\<rparr> es"

section \<open>Descriptors and gates\<close>

lemma mask_literals:
  "(0xF :: u32) = mask 4" "(0xFF :: u32) = mask 8" "(0xFFFF :: u32) = mask 16" "(0xFFFFF :: u32) = mask 20"
  "(0xF :: u8) = mask 4" "(0xF0 :: u8) = push_bit 4 (mask 4)"
  by (simp_all add: mask_eq_decr_exp)

lemma desc_base_set:
  "(ucast (ucast (b AND 0xFFFF) :: u16) OR push_bit 16 (ucast (ucast (drop_bit 16 b AND 0xFF) :: u8))
     OR push_bit 24 (ucast (ucast (drop_bit 24 b AND 0xFF) :: u8)) :: u32) = b"
  unfolding mask_literals
proof (rule bit_word_eqI)
  fix n assume "n < LENGTH(32)"
  then consider "n < 16" | "16 \<le> n \<and> n < 24" | "24 \<le> n \<and> n < 32" by fastforce
  then show "bit (ucast (ucast (b AND mask 16) :: u16) OR push_bit 16 (ucast (ucast (drop_bit 16 b AND mask 8) :: u8))
     OR push_bit 24 (ucast (ucast (drop_bit 24 b AND mask 8) :: u8)) :: u32) n = bit b n"
    by cases (auto simp: bit_simps)
qed

lemma desc_limit_set:
  "(ucast (ucast (l AND 0xFFFF) :: u16)
     OR push_bit 16 (ucast ((ucast (drop_bit 16 l AND 0x0F) OR (g AND 0xF0)) AND 0x0F :: u8)) :: u32) = l AND 0xFFFFF"
  unfolding mask_literals
  by (rule bit_word_eqI) (auto simp: bit_simps)

lemma granularity_flags: "(ucast (drop_bit 16 (l :: u32) AND 0x0F) OR (g AND 0xF0)) AND 0xF0 = (g AND 0xF0 :: u8)"
  unfolding mask_literals
  by (rule bit_word_eqI) (auto simp: bit_simps)

lemma gate_offset_set:
  "(ucast (ucast (b AND 0xFFFF) :: u16) OR push_bit 16 (ucast (ucast (drop_bit 16 b AND 0xFFFF) :: u16)) :: u32) = b"
  unfolding mask_literals
  by (rule bit_word_eqI) (auto simp: bit_simps)

section \<open>Controllers\<close>

lemma pic_of_snoc: "pic_of c d (es @ [e]) = pic_step c d (pic_of c d es) e"
  by (simp add: pic_of_def)

lemmas port_defs = PIC_MASTER_CMD_def PIC_MASTER_DATA_def PIC_SLAVE_CMD_def PIC_SLAVE_DATA_def PIC_EOI_def
  PIT_CH0_def PIT_CTRL_def io_wait_def outb_def

text \<open>Whether interrupt request line \<open>n\<close> of the cascaded pair is masked.\<close>

definition irq_masked :: "port_event list \<Rightarrow> nat \<Rightarrow> bool" where
  "irq_masked es n \<longleftrightarrow> (if n < 8 then bit (imr (master es)) n else bit (imr (slave es)) (n - 8))"

definition pics_ready :: "io \<Rightarrow> bool" where
  "pics_ready s \<longleftrightarrow> icw (master (events s)) = 0 \<and> icw (slave (events s)) = 0"

lemma mask_write:
  assumes "pics_ready s"
  shows "master (events (outb 0x21 v (s\<lparr>events := events s @ [Inb p w]\<rparr>))) = (master (events s))\<lparr>imr := v\<rparr>"
    and "slave (events (outb 0x21 v (s\<lparr>events := events s @ [Inb p w]\<rparr>))) = slave (events s)"
    and "slave (events (outb 0xA1 v (s\<lparr>events := events s @ [Inb p w]\<rparr>))) = (slave (events s))\<lparr>imr := v\<rparr>"
    and "master (events (outb 0xA1 v (s\<lparr>events := events s @ [Inb p w]\<rparr>))) = master (events s)"
  using assms by (simp_all add: pics_ready_def outb_def pic_of_def pic_step_def)

lemma bit_set_mask: "n < 8 \<Longrightarrow> k < 8 \<Longrightarrow> bit (ucast ((ucast (v :: u8) :: u32) OR push_bit k 1) :: u8) n \<longleftrightarrow> bit v n \<or> n = k"
  by (auto simp: bit_simps)

lemma bit_clear_mask: "n < 8 \<Longrightarrow> k < 8 \<Longrightarrow> bit (ucast ((ucast (v :: u8) :: u32) AND NOT (push_bit k 1)) :: u8) n \<longleftrightarrow> bit v n \<and> n \<noteq> k"
  by (auto simp: bit_simps)

lemma idt_cleared:
  "idt_table (for_int 0 256 (\<lambda>i s. s\<lparr>idt_table := (idt_table s)(word_of_int i := null_gate)\<rparr>) s) v = null_gate"
  for s :: idt
proof -
  let ?P = "\<lambda>k (t :: idt). \<forall>v. uint v < k \<longrightarrow> idt_table t v = null_gate"
  have "?P 256 (for_int 0 256 (\<lambda>i s. s\<lparr>idt_table := (idt_table s)(word_of_int i := null_gate)\<rparr>) s)"
  proof (rule for_int_invariant [where P = ?P])
    fix k t assume k: "0 \<le> k" "k < 256" and P: "?P k t"
    have "v = word_of_int k" if "uint v = k" for v :: u8 using that by auto
    then show "?P (k + 1) (t\<lparr>idt_table := (idt_table t)(word_of_int k := null_gate)\<rparr>)" using P by (auto simp: le_less)
  qed auto
  moreover have "uint v < 256" using uint_lt2p [of v] by simp
  ultimately show ?thesis by blast
qed

lemma idt_ptr_kept [simp]:
  "idt_ptr (for_int 0 256 (\<lambda>i s. s\<lparr>idt_table := (idt_table s)(word_of_int i := null_gate)\<rparr>) s) = idt_ptr s"
  "idt_ptr (for_int 0 32 (\<lambda>n. idt_set_gate (word_of_int n) (isr (word_of_int n)) 0x08 0x8E) s) = idt_ptr s"
  for s :: idt
  by (rule for_int_invariant [where P = "\<lambda>_ (t :: idt). idt_ptr t = idt_ptr s"]; simp add: idt_set_gate_def)+

text \<open>The 32 calls for the exceptions, as a loop.\<close>

lemma idt_init_loop:
  "idt_init isr irq table_addr s =
     (let s = s\<lparr>idt_ptr := (ucast (8 * 256 - 1 :: u32), table_addr)\<rparr>;
          s = for_int 0 256 (\<lambda>i s. s\<lparr>idt_table := (idt_table s)(word_of_int i := null_gate)\<rparr>) s;
          s = for_int 0 32 (\<lambda>n. idt_set_gate (word_of_int n) (isr (word_of_int n)) 0x08 0x8E) s;
          s = idt_set_gate 128 (isr 128) 0x08 0xEE s;
          s = idt_set_gate 32 (irq 0) 0x08 0x8E s;
          s = idt_set_gate 33 (irq 1) 0x08 0x8E s
      in s\<lparr>idtr := idt_ptr s\<rparr>)"
proof -
  have "for_int 0 32 f s = f 31 (f 30 (f 29 (f 28 (f 27 (f 26 (f 25 (f 24 (f 23 (f 22 (f 21 (f 20 (f 19 (f 18 (f 17 (f 16
      (f 15 (f 14 (f 13 (f 12 (f 11 (f 10 (f 9 (f 8 (f 7 (f 6 (f 5 (f 4 (f 3 (f 2 (f 1 (f 0 s)))))))))))))))))))))))))))))))"
    for f and s :: idt
    by (simp add: for_int_def upto_rec1)
  then show ?thesis by (simp add: idt_init_def Let_def)
qed

lemma null_gate_absent [simp]: "\<not> gate_present null_gate"
  by (simp add: gate_present_def null_gate_def)

lemma idt_exceptions:
  fixes s :: idt
  shows "idt_table (for_int 0 32 (\<lambda>n. idt_set_gate (word_of_int n) (isr (word_of_int n)) 0x08 0x8E) s) v
    = (if v < 32 then idt_table (idt_set_gate v (isr v) 0x08 0x8E s) v else idt_table s v)"
proof -
  let ?f = "\<lambda>n. idt_set_gate (word_of_int n) (isr (word_of_int n)) 0x08 0x8E"
  let ?P = "\<lambda>k (t :: idt). \<forall>v. idt_table t v =
    (if uint v < k then idt_table (idt_set_gate v (isr v) 0x08 0x8E s) v else idt_table s v)"
  have P: "?P 32 (for_int 0 32 ?f s)"
  proof (rule for_int_invariant [where P = ?P])
    fix k t assume k: "0 \<le> k" "k < 32" and P: "?P k t"
    have w: "v = word_of_int k \<longleftrightarrow> uint v = k" for v :: u8
      using k by (auto simp: uint_word_of_int_eq take_bit_int_eq_self)
    show "?P (k + 1) (?f k t)"
      using P by (auto simp: idt_set_gate_def w less_le)
  qed (auto simp: not_less)
  have "uint v < 32 \<longleftrightarrow> v < 32" by (simp add: word_less_alt)
  then show ?thesis using P by simp
qed

lemma reload_bytes:
  "(ucast (ucast (d AND 0xFF) :: u8) OR push_bit 8 (ucast (ucast (drop_bit 8 (d :: u32) AND 0xFF) :: u8)) :: u16) = ucast d"
  unfolding mask_literals by (rule bit_word_eqI) (auto simp: bit_simps)

lemma pit_load:
  "foldl (pit_step 0) p [Outb 0x43 0x34, Outb 0x80 0, Outb 0x40 a, Outb 0x80 0, Outb 0x40 b, Outb 0x80 0]
     = \<lparr>pit_rw = 3, pit_mode = 2, pit_bcd = False, pit_low = None, pit_count = ucast a OR push_bit 8 (ucast b)\<rparr>"
  "foldl (pit_step 1) p [Outb 0x43 0x34, Outb 0x80 0, Outb 0x40 a, Outb 0x80 0, Outb 0x40 b, Outb 0x80 0] = p"
  "foldl (pit_step 2) p [Outb 0x43 0x34, Outb 0x80 0, Outb 0x40 a, Outb 0x80 0, Outb 0x40 b, Outb 0x80 0] = p"
  by (cases p; simp add: pit_step_def bit_iff_odd)+

lemma pit_programmed:
  assumes "hz \<noteq> 0"
  shows "\<exists>s'. pit_set_frequency hz s = Some s'
    \<and> pit_of 0 (events s') = \<lparr>pit_rw = 3, pit_mode = 2, pit_bcd = False, pit_low = None, pit_count = ucast (PIT_FREQ div hz)\<rparr>
    \<and> pit_of 1 (events s') = pit_of 1 (events s) \<and> pit_of 2 (events s') = pit_of 2 (events s)"
proof -
  define d where "d = PIT_FREQ div hz"
  obtain s' where s': "pit_set_frequency hz s = Some s'" using assms by (simp add: pit_set_frequency_def Let_def)
  then have ev: "events s' = events s @ [Outb 0x43 0x34, Outb 0x80 0, Outb 0x40 (ucast (d AND 0xFF)), Outb 0x80 0,
      Outb 0x40 (ucast (drop_bit 8 d AND 0xFF)), Outb 0x80 0]"
    using assms by (auto simp: pit_set_frequency_def Let_def port_defs d_def)
  show ?thesis
    unfolding s' d_def [symmetric] by (rule exI [of _ s']) (simp only: ev pit_of_def foldl_append pit_load reload_bytes simp_thms)
qed

lemma pic_init_pics:
  "master (events (pic_init s)) = \<lparr>icw = 0, icw1 = 0x11, icw2 = 32, icw3 = 4, icw4 = 1, imr = 0xFF\<rparr>"
  "slave (events (pic_init s)) = \<lparr>icw = 0, icw1 = 0x11, icw2 = 40, icw3 = 2, icw4 = 1, imr = 0xFF\<rparr>"
proof -
  have "bit (0x11 :: u8) 4" "bit (0x11 :: u8) 0" "\<not> bit (0x11 :: u8) 1" by (simp_all add: bit_iff_odd)
  then show "master (events (pic_init s)) = \<lparr>icw = 0, icw1 = 0x11, icw2 = 32, icw3 = 4, icw4 = 1, imr = 0xFF\<rparr>"
    "slave (events (pic_init s)) = \<lparr>icw = 0, icw1 = 0x11, icw2 = 40, icw3 = 2, icw4 = 1, imr = 0xFF\<rparr>"
    by (simp_all add: pic_init_def port_defs Let_def pic_of_def pic_step_def)
qed

section \<open>Properties\<close>

text \<open>
  C38. The processor reads back from a descriptor exactly the base, the low 20 bits
  of the limit, the access byte and the flag bits that were written, no other entry changes, and
  \<open>gdt_init\<close> loads a table whose code and data segments span all 4 GiB from address 0.
\<close>

theorem gdt_gate_decodes:
  "desc_base (gdt_table (gdt_set_gate n b l a g s) n) = b
   \<and> desc_limit (gdt_table (gdt_set_gate n b l a g s) n) = l AND 0xFFFFF
   \<and> access (gdt_table (gdt_set_gate n b l a g s) n) = a
   \<and> granularity (gdt_table (gdt_set_gate n b l a g s) n) AND 0xF0 = g AND 0xF0
   \<and> (gdt_table (gdt_set_gate n b l a g s))(n := e) = (gdt_table s)(n := e)
   \<and> (gdtr (gdt_init ta s) = (23, ta)
      \<and> desc_base (gdt_table (gdt_init ta s) 1) = 0 \<and> desc_last (gdt_table (gdt_init ta s) 1) = 0xFFFFFFFF
      \<and> access (gdt_table (gdt_init ta s) 1) = 0x9A
      \<and> desc_base (gdt_table (gdt_init ta s) 2) = 0 \<and> desc_last (gdt_table (gdt_init ta s) 2) = 0xFFFFFFFF
      \<and> access (gdt_table (gdt_init ta s) 2) = 0x92)"
proof -
  let ?e = "gdt_table (gdt_set_gate n b l a g s) n"
  have "desc_base ?e = b" by (simp add: desc_base_def gdt_set_gate_def desc_base_set)
  moreover have "desc_limit ?e = l AND 0xFFFFF" by (simp add: desc_limit_def gdt_set_gate_def desc_limit_set)
  moreover have "granularity ?e AND 0xF0 = g AND 0xF0" by (simp add: gdt_set_gate_def granularity_flags)
  moreover have "access ?e = a" "(gdt_table (gdt_set_gate n b l a g s))(n := e) = (gdt_table s)(n := e)"
    by (simp_all add: gdt_set_gate_def)
  moreover have "gdtr (gdt_init ta s) = (23, ta)"
      "access (gdt_table (gdt_init ta s) 1) = 0x9A" "access (gdt_table (gdt_init ta s) 2) = 0x92"
      "desc_base (gdt_table (gdt_init ta s) 1) = 0" "desc_base (gdt_table (gdt_init ta s) 2) = 0"
      "desc_last (gdt_table (gdt_init ta s) 1) = 0xFFFFFFFF" "desc_last (gdt_table (gdt_init ta s) 2) = 0xFFFFFFFF"
    by (simp_all add: gdt_init_def gdt_set_gate_def GDT_ENTRIES_def Let_def desc_base_def desc_last_def desc_limit_def
        bit_iff_odd)
  ultimately show ?thesis by blast
qed

text \<open>
  C37. After \<open>idt_init\<close> the 32 exception vectors, the two remapped interrupt lines and
  vector 128 are present and lead to their own stubs through the kernel code segment; only vector 128
  may be raised by user code; every other vector is absent, those of the interrupt lines 2 to 15 included.
\<close>

theorem idt_init_gates:
  "idtr (idt_init isr irq ta s) = (2047, ta) \<and>
   (let g = idt_table (idt_init isr irq ta s) v in
    if v < 32 \<or> v = 128 then gate_present g \<and> gate_offset g = isr v \<and> selector g = 0x08
         \<and> flags g = (if v = 128 then 0xEE else 0x8E)
    else if v = 32 \<or> v = 33 then gate_present g \<and> gate_offset g = irq (v - 32) \<and> selector g = 0x08 \<and> flags g = 0x8E
    else \<not> gate_present g)"
proof -
  have "bit (0x8E :: u8) 7" "bit (0xEE :: u8) 7" by (simp_all add: bit_iff_odd)
  moreover have "\<not> (128 :: u8) < 32" "\<not> (32 :: u8) < 32" "\<not> (33 :: u8) < 32" by simp_all
  ultimately show ?thesis
    using null_gate_absent
    by (simp add: idt_init_loop Let_def idt_set_gate_def [of 128] idt_set_gate_def [of 32] idt_set_gate_def [of 33]
        idt_exceptions idt_set_gate_def [of v] idt_cleared gate_offset_def gate_offset_set)
      (simp add: gate_present_def)
qed

text \<open>
  C39. Whatever state the two controllers were in, after \<open>pic_init\<close> each has exactly the four
  initialisation words of the code: cascaded, the slave on line 2 of the master, 8086 mode, no automatic
  end of interrupt. They are operational, their lines are delivered on vectors 32 to 39 and 40 to 47, above
  the processor's own exceptions, line 2 being the slave itself, and every line is masked.
\<close>

theorem pic_init_remaps:
  "master (events (pic_init s)) = \<lparr>icw = 0, icw1 = 0x11, icw2 = 32, icw3 = 4, icw4 = 1, imr = 0xFF\<rparr>
   \<and> slave (events (pic_init s)) = \<lparr>icw = 0, icw1 = 0x11, icw2 = 40, icw3 = 2, icw4 = 1, imr = 0xFF\<rparr>
   \<and> map (irq_vector (events (pic_init s))) [0..<16] = map (\<lambda>n. if n = 2 then None else Some (of_nat (32 + n))) [0..<16]
   \<and> list_all (irq_masked (events (pic_init s))) [0..<16]"
proof -
  note pics = pic_init_pics [of s]
  have "map (irq_vector (events (pic_init s))) [0..<16] = map (\<lambda>n. if n = 2 then None else Some (of_nat (32 + n))) [0..<16]"
    by (simp add: irq_vector_def pics pic_ready_def vector_of_def upt_rec bit_iff_odd)
  moreover have "list_all (irq_masked (events (pic_init s))) [0..<16]"
    by (simp add: irq_masked_def pics upt_rec bit_iff_odd)
  ultimately show ?thesis using pics by blast
qed

text \<open>
  On operational controllers that answer a read of the data port with their
  mask register, clearing or setting the mask of one of the 16 lines changes that line and no other.
\<close>

theorem pic_masks_one_line:
  assumes "pic_answers dev" and "pics_ready s" and "irq < 16" and "n < 16"
  shows "(irq_masked (events (pic_clear_irq_mask dev irq s)) n \<longleftrightarrow> irq_masked (events s) n \<and> n \<noteq> unat irq)
    \<and> (irq_masked (events (pic_set_irq_mask dev irq s)) n \<longleftrightarrow> irq_masked (events s) n \<or> n = unat irq)"
proof (cases "irq < 8")
  case True
  then have "unat irq < 8" by (simp add: word_less_nat_alt)
  with True assms show ?thesis
    by (auto simp: pic_clear_irq_mask_def pic_set_irq_mask_def inb_def Let_def PIC_MASTER_DATA_def irq_masked_def
        mask_write bit_set_mask bit_clear_mask pic_answers_def simp del: push_bit_of_1)
next
  case False
  then have "unat (irq - 8) = unat irq - 8" "8 \<le> unat irq" "unat irq < 16"
    using assms(3) by (simp_all add: word_less_nat_alt unat_sub word_le_nat_alt)
  with False assms show ?thesis
    by (auto simp: pic_clear_irq_mask_def pic_set_irq_mask_def inb_def Let_def PIC_SLAVE_DATA_def irq_masked_def
        mask_write bit_set_mask bit_clear_mask pic_answers_def simp del: push_bit_of_1)
qed

text \<open>Controllers that do answer so, and a machine on which \<open>pic_init\<close> has run.\<close>

definition pic_device :: device where
  "pic_device es port = (if port = 0x21 then imr (master es) else if port = 0xA1 then imr (slave es) else 0)"

lemma pic_device_answers: "pic_answers pic_device"
  by (simp add: pic_answers_def pic_device_def)

lemma pics_ready_init: "pics_ready (pic_init io_sample)"
  by (simp add: pics_ready_def pic_init_pics)

theorem pic_masks_one_line_witness:
  "(irq_masked (events (pic_clear_irq_mask pic_device 1 (pic_init io_sample))) 12
     \<longleftrightarrow> irq_masked (events (pic_init io_sample)) 12 \<and> 12 \<noteq> unat (1 :: u8))
   \<and> (irq_masked (events (pic_set_irq_mask pic_device 1 (pic_init io_sample))) 12
     \<longleftrightarrow> irq_masked (events (pic_init io_sample)) 12 \<or> 12 = unat (1 :: u8))"
  using pic_masks_one_line [OF pic_device_answers pics_ready_init, of 1 12] by simp

text \<open>
  C40. After \<open>pit_set_frequency\<close> channel 0 of the timer, whatever it did before, is a binary rate
  generator (mode 2) with a complete two-byte count, and the other two channels are as they were. From 19 Hz on the count
  is \<open>1193182 / hz\<close> (0, which the chip counts as 65536, above 1193182 Hz); below, the divisor does not fit its 16 bits and
  only the low half is programmed; a frequency of 0 is a division by zero. \<open>pit_init\<close> sets the count 11931.
\<close>

theorem pit_programs_divisor:
  "pit_set_frequency 0 s = None \<and> (hz = 0 \<or>
     (\<exists>s'. pit_set_frequency hz s = Some s'
        \<and> (let p = pit_of 0 (events s') in pit_rw p = 3 \<and> pit_mode p = 2 \<and> \<not> pit_bcd p \<and> pit_low p = None
             \<and> unat (pit_count p) = (if 19 \<le> hz then 1193182 div unat hz else 1193182 div unat hz mod 65536))
        \<and> pit_of 1 (events s') = pit_of 1 (events s) \<and> pit_of 2 (events s') = pit_of 2 (events s)))
   \<and> (\<exists>s'. pit_init s = Some s' \<and> pit_mode (pit_of 0 (events s')) = 2 \<and> pit_count (pit_of 0 (events s')) = 11931)"
proof -
  have count: "unat (ucast (PIT_FREQ div hz) :: u16) = (if 19 \<le> hz then 1193182 div unat hz else 1193182 div unat hz mod 65536)"
  proof -
    have "unat (ucast (PIT_FREQ div hz) :: u16) = unat (PIT_FREQ div hz) mod 65536" by (simp add: unsigned_ucast_eq take_bit_eq_mod)
    moreover have "unat (PIT_FREQ div hz) = 1193182 div unat hz" by (simp add: unat_div PIT_FREQ_def)
    moreover have "1193182 div unat hz < 65536" if "19 \<le> hz"
    proof -
      have "19 \<le> unat hz" using that by (simp add: word_le_nat_alt)
      then have "1193182 div unat hz \<le> 1193182 div 19" by (intro div_le_mono2) auto
      then show ?thesis by simp
    qed
    ultimately show ?thesis by simp
  qed
  have "\<exists>s'. pit_init s = Some s' \<and> pit_mode (pit_of 0 (events s')) = 2 \<and> pit_count (pit_of 0 (events s')) = 11931"
    using pit_programmed [of 100 s] by (auto simp: pit_init_def PIT_FREQ_def)
  moreover have "pit_set_frequency 0 s = None" by (simp add: pit_set_frequency_def)
  moreover have "\<exists>s'. pit_set_frequency hz s = Some s'
        \<and> (let p = pit_of 0 (events s') in pit_rw p = 3 \<and> pit_mode p = 2 \<and> \<not> pit_bcd p \<and> pit_low p = None
             \<and> unat (pit_count p) = (if 19 \<le> hz then 1193182 div unat hz else 1193182 div unat hz mod 65536))
        \<and> pit_of 1 (events s') = pit_of 1 (events s) \<and> pit_of 2 (events s') = pit_of 2 (events s)" if nz: "hz \<noteq> 0"
  proof -
    obtain s' where s': "pit_set_frequency hz s = Some s'"
      "pit_of 0 (events s') = \<lparr>pit_rw = 3, pit_mode = 2, pit_bcd = False, pit_low = None, pit_count = ucast (PIT_FREQ div hz)\<rparr>"
      "pit_of 1 (events s') = pit_of 1 (events s)" "pit_of 2 (events s') = pit_of 2 (events s)"
      using pit_programmed [OF nz, of s] by blast
    show ?thesis by (rule exI [of _ s']) (simp add: s' count)
  qed
  ultimately show ?thesis by blast
qed

end
