(* ===== verification/Keyboard.thy ===== *)
theory Keyboard
  imports Arch Interfaces
begin

text \<open>
  The keyboard driver, \<open>drivers/keyboard.c\<close>: the scancode tables, the shift state, the ring buffer
  between the interrupt handler and the readers, and the handlers of the keyboard and timer
  interrupts.
\<close>

section \<open>State\<close>

definition PS2_DATA_PORT :: u16 where "PS2_DATA_PORT = 0x60"
definition PS2_STATUS_PORT :: u16 where "PS2_STATUS_PORT = 0x64"
definition PS2_CMD_PORT :: u16 where "PS2_CMD_PORT = 0x64"
definition PS2_STATUS_OUTPUT_BUFFER :: u8 where "PS2_STATUS_OUTPUT_BUFFER = 0x01"
definition KBD_BUFFER_SIZE :: u32 where "KBD_BUFFER_SIZE = 128"

record kbd =
  shift_pressed :: u8
  kbd_buffer :: "u32 \<Rightarrow> u8"
  kbd_head :: u32
  kbd_tail :: u32
  timer_ticks :: u32

definition kbd_boot :: kbd where
  "kbd_boot = \<lparr>shift_pressed = 0, kbd_buffer = (\<lambda>_. 0), kbd_head = 0, kbd_tail = 0, timer_ticks = 0\<rparr>"

definition ps2_normal :: "u8 list" where
  "ps2_normal = [0, 27] @ lit ''1234567890-='' @ [8, 9] @ lit ''qwertyuiop[]'' @ [10, 0] @ lit ''asdfghjkl;''
     @ [39] @ lit ''`'' @ [0, 92] @ lit ''zxcvbnm,./'' @ [0] @ lit ''*'' @ [0] @ lit '' '' @ [0]"

definition ps2_shifted :: "u8 list" where
  "ps2_shifted = [0, 27] @ lit ''!@#$%^&*()_+'' @ [8, 9] @ lit ''QWERTYUIOP{}'' @ [10, 0] @ lit ''ASDFGHJKL:''
     @ [34] @ lit ''~'' @ [0] @ lit ''|ZXCVBNM<>?'' @ [0] @ lit ''*'' @ [0] @ lit '' '' @ [0]"

section \<open>The ring buffer\<close>

definition keyboard_push_char :: "u8 \<Rightarrow> kbd \<Rightarrow> kbd" where
  "keyboard_push_char c k =
     (let next_head = (kbd_head k + 1) mod KBD_BUFFER_SIZE
      in if next_head = kbd_tail k then k
         else k\<lparr>kbd_buffer := (kbd_buffer k)(kbd_head k := c), kbd_head := next_head\<rparr>)"

text \<open>
  \<open>keyboard_pop_char\<close>: the argument says whether the caller's pointer is non-null. \<open>Some c\<close> is the
  result 1 with \<open>c\<close> stored through the pointer, \<open>None\<close> the result 0 with nothing stored.
\<close>

definition keyboard_pop_char :: "bool \<Rightarrow> kbd \<Rightarrow> u8 option \<times> kbd" where
  "keyboard_pop_char out_char k =
     (if \<not> out_char then (None, k)
      else if kbd_head k = kbd_tail k then (None, k)
      else (Some (kbd_buffer k (kbd_tail k)), k\<lparr>kbd_tail := (kbd_tail k + 1) mod KBD_BUFFER_SIZE\<rparr>))"

section \<open>Scancodes\<close>

definition ps2_init :: "io \<Rightarrow> io" where
  "ps2_init s = outb PS2_CMD_PORT 0xAE s"

text \<open>The polling loop; \<open>None\<close>: the controller never reports data.\<close>

partial_function (option) ps2_wait_output :: "device \<Rightarrow> io \<Rightarrow> io option" where
  "ps2_wait_output dev s =
     (let (status, s) = inb dev PS2_STATUS_PORT s
      in if status AND PS2_STATUS_OUTPUT_BUFFER = 0 then ps2_wait_output dev s else Some s)"

definition ps2_read_scancode :: "device \<Rightarrow> io \<Rightarrow> (u8 \<times> io) option" where
  "ps2_read_scancode dev s = do { s \<leftarrow> ps2_wait_output dev s; Some (inb dev PS2_DATA_PORT s) }"

definition ps2_scancode_to_ascii :: "u8 \<Rightarrow> kbd \<Rightarrow> u8 \<times> kbd" where
  "ps2_scancode_to_ascii scancode k =
     (if scancode AND 0x80 \<noteq> 0 then
        (0, if scancode AND 0x7F = 0x2A \<or> scancode AND 0x7F = 0x36 then k\<lparr>shift_pressed := 0\<rparr> else k)
      else if scancode = 0x2A \<or> scancode = 0x36 then (0, k\<lparr>shift_pressed := 1\<rparr>)
      else
        let table = (if shift_pressed k \<noteq> 0 then ps2_shifted else ps2_normal)
        in if unat scancode < length ps2_normal then (table ! unat scancode, k) else (0, k))"

section \<open>Initialisation and interrupt handlers\<close>

definition keyboard_init :: "device \<Rightarrow> io \<Rightarrow> io" where
  "keyboard_init dev s =
     (let s = ps2_init s;
          s = pic_clear_irq_mask dev 0 s;
          s = pic_clear_irq_mask dev 1 s
      in println (lit ''KBD: IRQs unmask'') s)"

definition timer_handler :: "kbd \<times> io \<Rightarrow> kbd \<times> io" where
  "timer_handler ks = (case ks of (k, s) \<Rightarrow> (k\<lparr>timer_ticks := timer_ticks k + 1\<rparr>, pic_send_eoi 0 s))"

definition keyboard_handler :: "device \<Rightarrow> kbd \<times> io \<Rightarrow> kbd \<times> io" where
  "keyboard_handler dev ks =
     (case ks of (k, s) \<Rightarrow>
        let (status, s) = inb dev PS2_STATUS_PORT s;
            (k, s) = (if status AND PS2_STATUS_OUTPUT_BUFFER \<noteq> 0 then
                        let (scancode, s) = inb dev PS2_DATA_PORT s;
                            (c, k) = ps2_scancode_to_ascii scancode k
                        in (if c \<noteq> 0 then keyboard_push_char c k else k, s)
                      else (k, s))
        in (k, pic_send_eoi 1 s))"

section \<open>The buffer as a queue\<close>

text \<open>One slot stays empty: the buffer holds at most 127 characters.\<close>

definition kbd_wf :: "kbd \<Rightarrow> bool" where
  "kbd_wf k \<longleftrightarrow> kbd_head k < 128 \<and> kbd_tail k < 128"

definition pending :: "kbd \<Rightarrow> nat" where
  "pending k = (unat (kbd_head k) + 128 - unat (kbd_tail k)) mod 128"

definition typed :: "kbd \<Rightarrow> u8 list" where
  "typed k = map (\<lambda>i. kbd_buffer k (of_nat ((unat (kbd_tail k) + i) mod 128))) [0..<pending k]"

lemma unat_next_slot: "i < 128 \<Longrightarrow> unat ((i + 1) mod 128 :: u32) = (unat i + 1) mod 128"
proof -
  assume "i < 128"
  then have "unat i + unat (1 :: u32) < 4294967296" by (simp add: nat_of_word)
  then have "unat (i + 1) = unat i + 1" by (simp add: unat_add_nowrap)
  then show ?thesis by (simp add: unat_mod)
qed

lemma typed_push:
  assumes wf: "kbd_wf k"
  shows "kbd_wf (keyboard_push_char c k)"
    and "typed (keyboard_push_char c k) = (if length (typed k) < 127 then typed k @ [c] else typed k)"
proof -
  let ?h = "unat (kbd_head k)" and ?t = "unat (kbd_tail k)" and ?n = "(kbd_head k + 1) mod 128"
  have b: "?h < 128" "?t < 128" using wf by (simp_all add: kbd_wf_def nat_of_word)
  have n: "unat ?n = (?h + 1) mod 128" using wf unat_next_slot by (simp add: kbd_wf_def)
  then have "?n < 128" by (simp add: nat_of_word)
  with wf show "kbd_wf (keyboard_push_char c k)"
    by (simp add: kbd_wf_def keyboard_push_char_def KBD_BUFFER_SIZE_def Let_def)
  have full: "?n = kbd_tail k \<longleftrightarrow> \<not> pending k < 127"
  proof -
    have "?n = kbd_tail k \<longleftrightarrow> (?h + 1) mod 128 = ?t" using n by (simp add: word_unat_eq_iff)
    also have "\<dots> \<longleftrightarrow> \<not> pending k < 127" using b by (auto simp: pending_def mod_if)
    finally show ?thesis .
  qed
  show "typed (keyboard_push_char c k) = (if length (typed k) < 127 then typed k @ [c] else typed k)"
  proof (cases "pending k < 127")
    case False
    with full have "keyboard_push_char c k = k" by (simp add: keyboard_push_char_def KBD_BUFFER_SIZE_def)
    with False show ?thesis by (simp add: typed_def)
  next
    case True
    let ?k = "k\<lparr>kbd_buffer := (kbd_buffer k)(kbd_head k := c), kbd_head := ?n\<rparr>"
    have k': "keyboard_push_char c k = ?k"
      using True full by (simp add: keyboard_push_char_def KBD_BUFFER_SIZE_def Let_def)
    have p: "pending ?k = pending k + 1" using True b n by (auto simp: pending_def mod_if split: if_splits)
    have slot: "of_nat ((?t + i) mod 128) = kbd_head k \<longleftrightarrow> i = pending k" if "i \<le> pending k" for i
    proof -
      have "(of_nat ((?t + i) mod 128) :: u32) = kbd_head k \<longleftrightarrow> (?t + i) mod 128 = ?h"
      proof -
        have "(?t + i) mod 128 < 4294967296" by (rule less_trans [of _ 128]) simp_all
        then have "unat (of_nat ((?t + i) mod 128) :: u32) = (?t + i) mod 128" by (simp add: unat_of_nat)
        then show ?thesis by (simp only: word_unat_eq_iff)
      qed
      also have "\<dots> \<longleftrightarrow> i = pending k" using that True b by (auto simp: pending_def mod_if split: if_splits)
      finally show ?thesis .
    qed
    have "typed ?k = map (\<lambda>i. kbd_buffer ?k (of_nat ((?t + i) mod 128))) [0..<pending k] @ [c]"
      using slot [of "pending k"] by (simp add: typed_def p)
    moreover have "map (\<lambda>i. kbd_buffer ?k (of_nat ((?t + i) mod 128))) [0..<pending k] = typed k"
      using slot by (auto simp: typed_def)
    ultimately show ?thesis using True k' by (simp add: typed_def)
  qed
qed

lemma typed_pop:
  assumes wf: "kbd_wf k"
  shows "kbd_wf (snd (keyboard_pop_char True k))"
    and "typed k = [] \<Longrightarrow> keyboard_pop_char True k = (None, k)"
    and "typed k = a # q \<Longrightarrow> fst (keyboard_pop_char True k) = Some a \<and> typed (snd (keyboard_pop_char True k)) = q"
proof -
  let ?h = "unat (kbd_head k)" and ?t = "unat (kbd_tail k)" and ?n = "(kbd_tail k + 1) mod 128"
  have b: "?h < 128" "?t < 128" using wf by (simp_all add: kbd_wf_def nat_of_word)
  have n: "unat ?n = (?t + 1) mod 128" using wf unat_next_slot by (simp add: kbd_wf_def)
  then have "?n < 128" by (simp add: nat_of_word)
  with wf show "kbd_wf (snd (keyboard_pop_char True k))"
    by (simp add: kbd_wf_def keyboard_pop_char_def KBD_BUFFER_SIZE_def)
  have empty: "kbd_head k = kbd_tail k \<longleftrightarrow> pending k = 0"
  proof -
    have "kbd_head k = kbd_tail k \<longleftrightarrow> ?h = ?t" by (simp add: word_unat_eq_iff)
    also have "\<dots> \<longleftrightarrow> pending k = 0" using b by (auto simp: pending_def mod_if)
    finally show ?thesis .
  qed
  show "typed k = [] \<Longrightarrow> keyboard_pop_char True k = (None, k)"
    using empty by (simp add: typed_def keyboard_pop_char_def)
  assume q: "typed k = a # q"
  then obtain m where m: "pending k = Suc m" by (cases "pending k") (simp_all add: typed_def)
  let ?k = "k\<lparr>kbd_tail := ?n\<rparr>"
  have pop: "keyboard_pop_char True k = (Some (kbd_buffer k (kbd_tail k)), ?k)"
    using empty m by (simp add: keyboard_pop_char_def KBD_BUFFER_SIZE_def)
  have p: "pending ?k = m" using m b n by (auto simp: pending_def mod_if split: if_splits)
  have "typed k = kbd_buffer k (of_nat (?t mod 128)) # map (\<lambda>i. kbd_buffer k (of_nat ((?t + Suc i) mod 128))) [0..<m]"
    by (simp add: typed_def m upt_conv_Cons del: upt_Suc) (simp add: map_Suc_upt [symmetric] del: map_Suc_upt upt_Suc)
  moreover have "(of_nat (?t mod 128) :: u32) = kbd_tail k" using b by simp
  moreover have "(?t + Suc i) mod 128 = ((?t + 1) mod 128 + i) mod 128" for i by (simp add: mod_add_left_eq)
  ultimately show "fst (keyboard_pop_char True k) = Some a \<and> typed (snd (keyboard_pop_char True k)) = q"
    using q pop by (simp add: typed_def p n)
qed

interpretation kb: bounded_fifo keyboard_push_char "keyboard_pop_char True" typed kbd_wf 127
  by unfold_locales (simp_all add: typed_push typed_pop)

text \<open>A sequence of scancodes, decoded in order.\<close>

fun decode_all :: "u8 list \<Rightarrow> kbd \<Rightarrow> u8 list" where
  "decode_all [] k = []"
| "decode_all (c # cs) k = (let (a, k) = ps2_scancode_to_ascii c k in a # decode_all cs k)"

definition key_of :: "u8 list \<Rightarrow> u8 \<Rightarrow> u8" where
  "key_of table code = (if unat code < 59 then table ! unat code else 0)"

definition letter_pair :: "u8 \<Rightarrow> u8 \<Rightarrow> bool" where
  "letter_pair a b \<longleftrightarrow> (if 97 \<le> a \<and> a \<le> 122 then b = a - 32 else \<not> (65 \<le> b \<and> b \<le> 90))"

lemma table_lengths: "length ps2_normal = 59" "length ps2_shifted = 59"
  by (simp_all add: ps2_normal_def ps2_shifted_def lit_def)

lemma tables_pair: "list_all2 letter_pair ps2_normal ps2_shifted"
  by (simp add: ps2_normal_def ps2_shifted_def lit_def letter_pair_def)

lemma decode_plain:
  assumes "code AND 0x80 = 0" "code \<noteq> 0x2A" "code \<noteq> 0x36"
  shows "ps2_scancode_to_ascii code k = (key_of (if shift_pressed k \<noteq> 0 then ps2_shifted else ps2_normal) code, k)"
  using assms by (simp add: ps2_scancode_to_ascii_def key_of_def table_lengths Let_def)

section \<open>Properties\<close>

text \<open>
  C10. Let interrupts push characters and readers take them, in any interleaving. The
  ring buffer delivers exactly what a queue of capacity 127 delivers: the characters that come out,
  followed by those still buffered, are those that went in, in order and without duplicates, less
  the ones that met a full buffer; with at most 127 characters in all, none is lost.
\<close>

theorem keyboard_fifo:
  assumes "kbd_wf k" and "run_fifo keyboard_push_char (keyboard_pop_char True) ops k = (outs, k')"
  shows "kbd_wf k' \<and> queue_run 127 ops (typed k) = (outs, typed k')
    \<and> (\<exists>acc. subseq acc (pushes ops) \<and> outs @ typed k' = typed k @ acc)
    \<and> (length (typed k) + length (pushes ops) \<le> 127 \<longrightarrow> outs @ typed k' = typed k @ pushes ops)"
  using kb.run_refines [OF assms] queue_run_order queue_run_complete by blast

theorem keyboard_fifo_witness:
  "kbd_wf kbd_boot \<and> (let (outs, k') = run_fifo keyboard_push_char (keyboard_pop_char True) [Push 104, Pop, Push 105, Pop, Pop] kbd_boot
    in outs @ typed k' = [104, 105])"
proof -
  obtain outs k' where r: "run_fifo keyboard_push_char (keyboard_pop_char True) [Push 104, Pop, Push 105, Pop, Pop] kbd_boot = (outs, k')"
    by fastforce
  have "kbd_wf kbd_boot" "typed kbd_boot = []" by (simp_all add: kbd_wf_def kbd_boot_def typed_def pending_def)
  with keyboard_fifo [OF _ r] r show ?thesis by simp
qed

text \<open>
  C27. One keyboard interrupt keeps the buffer well formed, reads the data port exactly
  when the controller reports data, appends the decoded character if there is one and room for it,
  and always ends with one end-of-interrupt command to the master controller.
\<close>

theorem keyboard_irq:
  assumes "kbd_wf k" and "keyboard_handler dev (k, s) = (k', s')"
  shows "kbd_wf k' \<and> (let ready = dev (events s) 0x64 AND 1 \<noteq> 0;
        code = dev (events s @ [Inb 0x64 (dev (events s) 0x64)]) 0x60;
        c = (if ready then fst (ps2_scancode_to_ascii code k) else 0)
      in typed k' = (if c \<noteq> 0 \<and> length (typed k) < 127 then typed k @ [c] else typed k)
       \<and> shift_pressed k' = (if ready then shift_pressed (snd (ps2_scancode_to_ascii code k)) else shift_pressed k)
       \<and> events s' = events s @ [Inb 0x64 (dev (events s) 0x64)] @ (if ready then [Inb 0x60 code] else []) @ [Outb 0x20 0x20])"
proof -
  have shift: "kbd_wf (snd (ps2_scancode_to_ascii c k))" "typed (snd (ps2_scancode_to_ascii c k)) = typed k" for c
    using assms(1) by (auto simp: ps2_scancode_to_ascii_def Let_def kbd_wf_def typed_def pending_def)
  have sp: "shift_pressed (keyboard_push_char c k) = shift_pressed k" for c k
    by (simp add: keyboard_push_char_def Let_def)
  note defs = keyboard_handler_def inb_def PS2_STATUS_PORT_def PS2_DATA_PORT_def PS2_STATUS_OUTPUT_BUFFER_def
    pic_send_eoi_def PIC_MASTER_CMD_def PIC_EOI_def outb_def
  have irq1: "\<not> (8 :: u8) \<le> 1" by (simp add: word_le_nat_alt)
  show ?thesis
  proof (cases "dev (events s) 0x64 AND 1 = 0")
    case True
    then show ?thesis using assms irq1 by (auto simp: defs Let_def)
  next
    case False
    let ?code = "dev (events s @ [Inb 0x64 (dev (events s) 0x64)]) 0x60"
    obtain c k1 where ck: "ps2_scancode_to_ascii ?code k = (c, k1)" by fastforce
    with shift [of ?code] have "kbd_wf k1" "typed k1 = typed k" by simp_all
    then show ?thesis
      using assms(2) False ck typed_push [of k1 c] irq1 by (auto simp: defs Let_def sp)
  qed
qed

theorem keyboard_irq_witness:
  "kbd_wf kbd_boot \<and> (\<exists>k' s'. keyboard_handler (\<lambda>es port. if port = 0x64 then 1 else 0x1E) (kbd_boot, io_sample) = (k', s')
     \<and> typed k' = [97])"
proof -
  let ?dev = "\<lambda>(es :: port_event list) port. if port = (0x64 :: u16) then 1 else (0x1E :: u8)"
  obtain k' s' where h: "keyboard_handler ?dev (kbd_boot, io_sample) = (k', s')" by fastforce
  have wf: "kbd_wf kbd_boot" and em: "typed kbd_boot = []" by (simp_all add: kbd_wf_def kbd_boot_def typed_def pending_def)
  have "fst (ps2_scancode_to_ascii 0x1E kbd_boot) = 97"
    by (simp add: ps2_scancode_to_ascii_def kbd_boot_def ps2_normal_def lit_def)
  then have "typed k' = [97]" using keyboard_irq [OF wf h] em by (simp add: Let_def)
  with wf h show ?thesis by blast
qed

text \<open>
  From any state, pressing and releasing a shift key selects the shifted and
  the plain table for the keys in between and after; and the two tables agree on which key is which
  letter: a key is a lower-case letter in the plain table exactly when the shifted table has the
  same letter in upper case.
\<close>

theorem shift_selects_case:
  assumes "code AND 0x80 = 0" and "code \<notin> {0x2A, 0x36}" and "shift \<in> {0x2A, 0x36}"
  shows "decode_all [shift, code, shift OR 0x80, code] k = [0, key_of ps2_shifted code, 0, key_of ps2_normal code]
    \<and> list_all2 letter_pair ps2_normal ps2_shifted"
proof -
  have up: "ps2_scancode_to_ascii (shift OR 0x80) k = (0, k\<lparr>shift_pressed := 0\<rparr>)" for k
    using assms(3) by (auto simp: ps2_scancode_to_ascii_def)
  have down: "ps2_scancode_to_ascii shift k = (0, k\<lparr>shift_pressed := 1\<rparr>)" for k
    using assms(3) by (auto simp: ps2_scancode_to_ascii_def)
  show ?thesis using assms(1,2) by (simp add: up down decode_plain tables_pair)
qed

theorem shift_selects_case_witness:
  "decode_all [0x2A, 0x1E, 0x2A OR 0x80, 0x1E] kbd_boot = [0, 65, 0, 97]"
proof -
  have "key_of ps2_shifted 0x1E = 65" "key_of ps2_normal 0x1E = 97"
    by (simp_all add: key_of_def ps2_normal_def ps2_shifted_def lit_def)
  then show ?thesis using shift_selects_case [of "0x1E" "0x2A" kbd_boot] by simp
qed

end
