(* ===== verification/Cstring.thy ===== *)
theory Cstring
  imports Arctic_Base "HOL-Library.Sublist"
begin

text \<open>
  NUL-terminated strings in memory: the byte loops that \<open>fs/initrd.c\<close> and \<open>kernel/kmain.c\<close> run over
  them, and what they compute when the bytes are a terminated string. A loop over bytes with no
  terminator need not end, so the loops have option results.
\<close>

section \<open>Strings in memory\<close>

fun str_at :: "mem \<Rightarrow> u32 \<Rightarrow> cstr \<Rightarrow> bool" where
  "str_at m p [] \<longleftrightarrow> m p = 0"
| "str_at m p (c # cs) \<longleftrightarrow> m p = c \<and> c \<noteq> 0 \<and> str_at m (p + 1) cs"

section \<open>The loops\<close>

partial_function (option) cstr_len_from :: "mem \<Rightarrow> u32 \<Rightarrow> u32 \<Rightarrow> u32 option" where
  "cstr_len_from m str len = (if m (str + len) \<noteq> 0 then cstr_len_from m str (len + 1) else Some len)"

definition cstr_len :: "mem \<Rightarrow> u32 \<Rightarrow> u32 option" where
  "cstr_len m str = cstr_len_from m str 0"

partial_function (option) cstr_eq_from :: "mem \<Rightarrow> u32 \<Rightarrow> u32 \<Rightarrow> u32 \<Rightarrow> bool option" where
  "cstr_eq_from m a b i =
     (if m (a + i) \<noteq> 0 \<and> m (b + i) \<noteq> 0 then
        if m (a + i) \<noteq> m (b + i) then Some False else cstr_eq_from m a b (i + 1)
      else Some (m (a + i) = m (b + i)))"

definition cstr_eq :: "mem \<Rightarrow> u32 \<Rightarrow> u32 \<Rightarrow> bool option" where
  "cstr_eq m a b = cstr_eq_from m a b 0"

partial_function (option) cstr_prefix_from :: "mem \<Rightarrow> u32 \<Rightarrow> u32 \<Rightarrow> u32 \<Rightarrow> bool option" where
  "cstr_prefix_from m str pre i =
     (if m (pre + i) \<noteq> 0 then
        if m (str + i) = 0 \<or> m (str + i) \<noteq> m (pre + i) then Some False else cstr_prefix_from m str pre (i + 1)
      else Some True)"

definition cstr_has_prefix :: "mem \<Rightarrow> u32 \<Rightarrow> u32 \<Rightarrow> bool option" where
  "cstr_has_prefix m str pre =
     (if str = 0 \<or> pre = 0 then Some False else cstr_prefix_from m str pre 0)"

text \<open>The bytes \<open>print\<close> walks over.\<close>

partial_function (option) load_cstr :: "mem \<Rightarrow> u32 \<Rightarrow> cstr option" where
  "load_cstr m p = (if m p \<noteq> 0 then do { cs \<leftarrow> load_cstr m (p + 1); Some (m p # cs) } else Some [])"

section \<open>What they compute\<close>

lemma str_at_unique: "str_at m p cs \<Longrightarrow> str_at m p ds \<Longrightarrow> cs = ds"
proof (induction cs arbitrary: p ds)
  case Nil
  then show ?case by (cases ds) auto
next
  case (Cons c cs)
  then show ?case by (cases ds) auto
qed

lemma cstr_len_from_eq: "str_at m (p + i) cs \<Longrightarrow> cstr_len_from m p i = Some (i + of_nat (length cs))"
proof (induction cs arbitrary: i)
  case Nil
  then show ?case by (simp add: cstr_len_from.simps [of m p i])
next
  case (Cons c cs)
  then have "cstr_len_from m p (i + 1) = Some (i + 1 + of_nat (length cs))" by (simp add: add.assoc)
  with Cons show ?case by (simp add: cstr_len_from.simps [of m p i] add.assoc)
qed

lemma cstr_len_eq: "str_at m p cs \<Longrightarrow> cstr_len m p = Some (of_nat (length cs))"
  using cstr_len_from_eq [of m p 0 cs] by (simp add: cstr_len_def)

lemma cstr_eq_from_eq:
  "str_at m (a + i) cs \<Longrightarrow> str_at m (b + i) ds \<Longrightarrow> cstr_eq_from m a b i = Some (cs = ds)"
proof (induction cs arbitrary: i ds)
  case Nil
  then show ?case by (cases ds) (simp_all add: cstr_eq_from.simps [of m a b i])
next
  case (Cons c cs)
  show ?case
  proof (cases ds)
    case Nil
    with Cons show ?thesis by (simp add: cstr_eq_from.simps [of m a b i])
  next
    case (Cons d ds')
    then have "c = d \<Longrightarrow> cstr_eq_from m a b (i + 1) = Some (cs = ds')"
      using Cons.IH [of "i + 1" ds'] Cons.prems by (simp add: add.assoc)
    with Cons Cons.prems show ?thesis by (auto simp: cstr_eq_from.simps [of m a b i])
  qed
qed

lemma cstr_eq_eq: "str_at m a cs \<Longrightarrow> str_at m b ds \<Longrightarrow> cstr_eq m a b = Some (cs = ds)"
  using cstr_eq_from_eq [of m a 0 cs b ds] by (simp add: cstr_eq_def)

lemma cstr_prefix_from_eq:
  "str_at m (a + i) cs \<Longrightarrow> str_at m (b + i) ds \<Longrightarrow> cstr_prefix_from m a b i = Some (prefix ds cs)"
proof (induction ds arbitrary: i cs)
  case Nil
  then show ?case by (simp add: cstr_prefix_from.simps [of m a b i])
next
  case (Cons d ds)
  show ?case
  proof (cases cs)
    case Nil
    with Cons show ?thesis by (simp add: cstr_prefix_from.simps [of m a b i])
  next
    case (Cons c cs')
    then have "c = d \<Longrightarrow> cstr_prefix_from m a b (i + 1) = Some (prefix ds cs')"
      using Cons.IH [of "i + 1" cs'] Cons.prems by (simp add: add.assoc)
    with Cons Cons.prems show ?thesis by (auto simp: cstr_prefix_from.simps [of m a b i])
  qed
qed

lemma cstr_has_prefix_eq:
  "a \<noteq> 0 \<Longrightarrow> b \<noteq> 0 \<Longrightarrow> str_at m a cs \<Longrightarrow> str_at m b ds \<Longrightarrow> cstr_has_prefix m a b = Some (prefix ds cs)"
  using cstr_prefix_from_eq [of m a 0 cs b ds] by (simp add: cstr_has_prefix_def)

lemma load_cstr_eq: "str_at m p cs \<Longrightarrow> load_cstr m p = Some cs"
  by (induction cs arbitrary: p) (simp_all add: load_cstr.simps)

lemma str_at_bytes:
  "str_at m p cs \<Longrightarrow> i < length cs \<Longrightarrow> m (p + of_nat i) = cs ! i \<and> cs ! i \<noteq> 0"
proof (induction cs arbitrary: p i)
  case (Cons c cs)
  then show ?case by (cases i) (auto simp: add.assoc [symmetric])
qed simp

lemma str_at_end: "str_at m p cs \<Longrightarrow> m (p + of_nat (length cs)) = 0"
  by (induction cs arbitrary: p) (simp_all add: add.assoc [symmetric])

lemma str_atI:
  "(\<And>i. i < length cs \<Longrightarrow> m (p + of_nat i) = cs ! i \<and> cs ! i \<noteq> 0) \<Longrightarrow> m (p + of_nat (length cs)) = 0 \<Longrightarrow> str_at m p cs"
proof (induction cs arbitrary: p)
  case (Cons c cs)
  have "m p = c \<and> c \<noteq> 0" using Cons.prems(1) [of 0] by simp
  moreover have "str_at m (p + 1) cs"
  proof (rule Cons.IH)
    fix i assume "i < length cs"
    then show "m (p + 1 + of_nat i) = cs ! i \<and> cs ! i \<noteq> 0" using Cons.prems(1) [of "Suc i"] by (simp add: add.assoc)
  qed (use Cons.prems(2) in \<open>simp add: add.assoc\<close>)
  ultimately show ?case by simp
qed simp

text \<open>A string with a terminator among the first \<open>n\<close> bytes.\<close>

lemma str_at_exists:
  assumes "m (p + of_nat k) = 0"
  shows "\<exists>cs. str_at m p cs \<and> length cs \<le> k"
  using assms
proof (induction k arbitrary: p)
  case 0
  then have "str_at m p []" by simp
  then show ?case by fastforce
next
  case (Suc k)
  show ?case
  proof (cases "m p = 0")
    case True
    then have "str_at m p []" by simp
    then show ?thesis by fastforce
  next
    case False
    obtain cs where "str_at m (p + 1) cs" "length cs \<le> k"
      using Suc.IH [of "p + 1"] Suc.prems by (auto simp: add.assoc)
    with False have "str_at m p (m p # cs)" "length (m p # cs) \<le> Suc k" by simp_all
    then show ?thesis by blast
  qed
qed

lemma span_of_nat: "i < n \<Longrightarrow> p + of_nat i \<in> span p n"
proof -
  assume "i < n"
  have "unat (of_nat i :: u32) \<le> i" by (simp add: unat_of_nat)
  with \<open>i < n\<close> show ?thesis by (simp add: span_def)
qed

lemma str_at_cong:
  assumes "str_at m p cs" and "\<And>x. x \<in> span p (length cs + 1) \<Longrightarrow> m' x = m x"
  shows "str_at m' p cs"
  using assms str_at_bytes [OF assms(1)] str_at_end [OF assms(1)]
  by (intro str_atI) (simp_all add: span_of_nat)

end
