(* ===== verification/Initrd.thy ===== *)
theory Initrd
  imports Kheap_Props Cstring
begin

text \<open>
  The initial ramdisk, \<open>fs/initrd.c\<close>: the first boot module is a TAR archive, whose regular members are
  entered once, at boot, into an index on the kernel heap; lookups by name, by position and by prefix
  search that index.
\<close>

section \<open>State\<close>

text \<open>The five static variables; \<open>initrd_base\<close> and \<open>initrd_files\<close> are addresses.\<close>

record initrd =
  initrd_ready :: u8
  initrd_base :: u32
  initrd_size :: u32
  initrd_files :: u32
  initrd_files_count :: u32

definition initrd_boot :: initrd where
  "initrd_boot = \<lparr>initrd_ready = 0, initrd_base = 0, initrd_size = 0, initrd_files = 0, initrd_files_count = 0\<rparr>"

text \<open>\<open>initrd_file_t\<close>: the name at offset 0, the payload offset at 100, the size at 104; 108 bytes.\<close>

definition sizeof_initrd_file :: u32 where "sizeof_initrd_file = 108"

definition file_entry :: "u32 \<Rightarrow> u32 \<Rightarrow> u32" where
  "file_entry files i = files + sizeof_initrd_file * i"

definition entry_offset :: "mem \<Rightarrow> u32 \<Rightarrow> u32" where "entry_offset m e = read_u32 m (e + 100)"
definition entry_size :: "mem \<Rightarrow> u32 \<Rightarrow> u32" where "entry_size m e = read_u32 m (e + 104)"

text \<open>\<open>tar_header_t\<close>: the name at offset 0, the size field at 124, the type flag at 156.\<close>

definition tar_size_field :: "u32 \<Rightarrow> u32" where "tar_size_field h = h + 124"
definition tar_typeflag :: "mem \<Rightarrow> u32 \<Rightarrow> u8" where "tar_typeflag m h = m (h + 156)"

section \<open>Reading the archive\<close>

text \<open>The digits of a numeric field; \<open>char\<close> is signed, so the range check compares signed bytes.\<close>

definition octal_to_u32 :: "mem \<Rightarrow> u32 \<Rightarrow> u32 \<Rightarrow> u32 option" where
  "octal_to_u32 m str len =
     (case loop_u32 0 len (\<lambda>i (value :: u32).
             let c = m (str + i)
             in if c = 0 \<or> c = 0x20 then Some (Inl value)
                else if sint c < 0x30 \<or> sint c > 0x37 then Some (Inl value)
                else Some (Inr (push_bit 3 value + word_of_int (sint c - 0x30)))) 0 of
        None \<Rightarrow> None
      | Some (Inl value) \<Rightarrow> Some value
      | Some (Inr value) \<Rightarrow> Some value)"

definition tar_header_is_empty :: "mem \<Rightarrow> u32 \<Rightarrow> bool option" where
  "tar_header_is_empty m hdr =
     do {
       r \<leftarrow> search_u32 0 512 (\<lambda>i. Some (m (hdr + i) \<noteq> 0));
       Some (r = None)
     }"

definition tar_regular :: "mem \<Rightarrow> u32 \<Rightarrow> bool" where
  "tar_regular m hdr \<longleftrightarrow> tar_typeflag m hdr = 0x30 \<or> tar_typeflag m hdr = 0"

definition tar_jump :: "u32 \<Rightarrow> u32" where
  "tar_jump file_size = 512 + ((file_size + 511) AND NOT 511)"

text \<open>
  The two passes follow the sizes stored in the headers and their offsets wrap, so neither need end:
  \<open>None\<close> is a pass that goes on for ever.
\<close>

partial_function (option) tar_count :: "mem \<Rightarrow> u32 \<Rightarrow> u32 \<Rightarrow> u32 \<Rightarrow> u32 \<Rightarrow> u32 option" where
  "tar_count m base sz offset count =
     (if offset + 512 \<le> sz then
        Option.bind (tar_header_is_empty m (base + offset)) (\<lambda>empty.
          if empty then Some count
          else
            Option.bind (octal_to_u32 m (tar_size_field (base + offset)) 12) (\<lambda>file_size.
              let count = (if tar_regular m (base + offset) then count + 1 else count);
                  jump = tar_jump file_size
              in if jump = 0 then Some count else tar_count m base sz (offset + jump) count))
      else Some count)"

definition store_entry :: "u32 \<Rightarrow> u32 \<Rightarrow> u32 \<Rightarrow> u32 \<Rightarrow> mem \<Rightarrow> mem option" where
  "store_entry e hdr payload_offset file_size m =
     do {
       name_len \<leftarrow> cstr_len m hdr;
       let name_len = (if name_len \<ge> 100 then 99 else name_len);
           m = for_u32 0 name_len (\<lambda>i m. m(e + i := m (hdr + i))) m;
           m = m(e + name_len := 0);
           m = write_u32 m (e + 100) payload_offset
       in Some (write_u32 m (e + 104) file_size)
     }"

partial_function (option) tar_fill ::
    "u32 \<Rightarrow> u32 \<Rightarrow> u32 \<Rightarrow> u32 \<Rightarrow> u32 \<Rightarrow> u32 \<Rightarrow> mem \<Rightarrow> (u32 \<times> mem) option" where
  "tar_fill base sz files count offset index m =
     (if offset + 512 \<le> sz \<and> index < count then
        Option.bind (tar_header_is_empty m (base + offset)) (\<lambda>empty.
          if empty then Some (index, m)
          else
            Option.bind (octal_to_u32 m (tar_size_field (base + offset)) 12) (\<lambda>file_size.
              let payload_offset = offset + 512
              in Option.bind
                   (if tar_regular m (base + offset) \<and> payload_offset + file_size \<le> sz
                    then map_option (Pair (index + 1))
                           (store_entry (file_entry files index) (base + offset) payload_offset file_size m)
                    else Some (index, m))
                   (\<lambda>(index, m).
                     let jump = tar_jump file_size
                     in if jump = 0 then Some (index, m)
                        else tar_fill base sz files count (offset + jump) index m)))
      else Some (index, m))"

definition initrd_init :: "u32 \<Rightarrow> heap \<Rightarrow> (initrd \<times> heap) option" where
  "initrd_init mbi s =
     (let st = initrd_boot; m = hmem s
      in if mbi_flags m mbi AND push_bit 3 1 = 0 \<or> mbi_mods_count m mbi = 0 then Some (st, s)
         else
           let mods = mbi_mods_addr m mbi;
               st = st\<lparr>initrd_base := mod_start m mods 0, initrd_size := mod_end m mods 0 - mod_start m mods 0\<rparr>
           in do {
                count \<leftarrow> tar_count m (initrd_base st) (initrd_size st) 0 0;
                if count = 0 then Some (st\<lparr>initrd_ready := 1\<rparr>, s)
                else do {
                  (files, s) \<leftarrow> kcalloc count sizeof_initrd_file s;
                  let st = st\<lparr>initrd_files := files\<rparr>
                  in if files = 0 then Some (st, s)
                     else do {
                       (index, m) \<leftarrow> tar_fill (initrd_base st) (initrd_size st) files count 0 0 (hmem s);
                       Some (st\<lparr>initrd_files_count := index, initrd_ready := 1\<rparr>, s\<lparr>hmem := m\<rparr>)
                     }
                }
              })"

section \<open>Lookups\<close>

definition initrd_is_ready :: "initrd \<Rightarrow> u8" where "initrd_is_ready st = initrd_ready st"

definition initrd_file_count :: "initrd \<Rightarrow> u32" where "initrd_file_count st = initrd_files_count st"

text \<open>
  The loop both lookups by name share. An out-parameter \<open>uint32_t* size\<close> is the value stored through
  it, \<open>None\<close> when nothing is stored; \<open>has_size\<close> says that the pointer is not null.
\<close>

definition find_name :: "mem \<Rightarrow> initrd \<Rightarrow> u32 \<Rightarrow> u32 option option" where
  "find_name m st name =
     search_u32 0 (initrd_files_count st) (\<lambda>i. cstr_eq m (file_entry (initrd_files st) i) name)"

definition initrd_get_file_data :: "mem \<Rightarrow> initrd \<Rightarrow> u32 \<Rightarrow> bool \<Rightarrow> (u32 \<times> u32 option) option" where
  "initrd_get_file_data m st name has_size =
     (if initrd_ready st = 0 \<or> initrd_files st = 0 \<or> name = 0 then Some (0, None)
      else
        do {
          r \<leftarrow> find_name m st name;
          Some (case r of
              Some i \<Rightarrow>
                let e = file_entry (initrd_files st) i
                in (initrd_base st + entry_offset m e, if has_size then Some (entry_size m e) else None)
            | None \<Rightarrow> (0, None))
        })"

definition initrd_get_file_size_by_name :: "mem \<Rightarrow> initrd \<Rightarrow> u32 \<Rightarrow> bool \<Rightarrow> (u8 \<times> u32 option) option" where
  "initrd_get_file_size_by_name m st name has_size =
     (if \<not> has_size \<or> initrd_ready st = 0 \<or> initrd_files st = 0 \<or> name = 0 then Some (0, None)
      else
        do {
          r \<leftarrow> find_name m st name;
          Some (case r of
              Some i \<Rightarrow> (1, Some (entry_size m (file_entry (initrd_files st) i)))
            | None \<Rightarrow> (0, None))
        })"

definition initrd_get_file_name :: "initrd \<Rightarrow> u32 \<Rightarrow> u32" where
  "initrd_get_file_name st index =
     (if initrd_ready st = 0 \<or> initrd_files st = 0 \<or> index \<ge> initrd_files_count st then 0
      else file_entry (initrd_files st) index)"

definition initrd_get_file_size :: "mem \<Rightarrow> initrd \<Rightarrow> u32 \<Rightarrow> bool \<Rightarrow> u8 \<times> u32 option" where
  "initrd_get_file_size m st index has_size =
     (if \<not> has_size \<or> initrd_ready st = 0 \<or> initrd_files st = 0 \<or> index \<ge> initrd_files_count st then (0, None)
      else (1, Some (entry_size m (file_entry (initrd_files st) index))))"

definition initrd_count_prefix :: "mem \<Rightarrow> initrd \<Rightarrow> u32 \<Rightarrow> u32 option" where
  "initrd_count_prefix m st pre =
     (if pre = 0 \<or> initrd_ready st = 0 \<or> initrd_files st = 0 then Some 0
      else
        case loop_u32 0 (initrd_files_count st) (\<lambda>i count.
               do {
                 b \<leftarrow> cstr_has_prefix m (file_entry (initrd_files st) i) pre;
                 Some (Inr (if b then count + 1 else count))
               }) 0 of
          None \<Rightarrow> None
        | Some (Inl r) \<Rightarrow> Some r
        | Some (Inr count) \<Rightarrow> Some count)"

definition initrd_get_file_name_by_prefix :: "mem \<Rightarrow> initrd \<Rightarrow> u32 \<Rightarrow> u32 \<Rightarrow> u32 option" where
  "initrd_get_file_name_by_prefix m st pre index =
     (if pre = 0 \<or> initrd_ready st = 0 \<or> initrd_files st = 0 then Some 0
      else
        case loop_u32 0 (initrd_files_count st) (\<lambda>i seen.
               do {
                 b \<leftarrow> cstr_has_prefix m (file_entry (initrd_files st) i) pre;
                 Some (if b then
                         if seen = index then Inl (file_entry (initrd_files st) i) else Inr (seen + 1)
                       else Inr seen)
               }) 0 of
          None \<Rightarrow> None
        | Some (Inl r) \<Rightarrow> Some r
        | Some (Inr seen) \<Rightarrow> Some 0)"

end
