(* ===== verification/Initrd_Index.thy ===== *)
theory Initrd_Index
  imports Initrd
begin

text \<open>
  What the two passes over the archive compute: a TAR archive described as the list of its members,
  and the index on the heap described as the list of the members it holds.
\<close>

section \<open>Archives as lists of members\<close>

datatype member = Member (tname: cstr) (ttype: u8) (toff: nat) (tsize: nat)

definition padded :: "nat \<Rightarrow> nat" where "padded n = (n + 511) div 512 * 512"

definition blank_header :: "mem \<Rightarrow> u32 \<Rightarrow> bool" where
  "blank_header m h \<longleftrightarrow> (\<forall>x \<in> span h 512. m x = 0)"

text \<open>
  \<open>tar_image m base sz off ts\<close>: from offset \<open>off\<close> on, the archive of \<open>sz\<close> bytes at \<open>base\<close> consists of
  the members \<open>ts\<close>. It ends where no whole header is left or at an empty header. No offset reaches
  the top of the 32-bit range and every name ends within its header.
\<close>

fun tar_image :: "mem \<Rightarrow> u32 \<Rightarrow> u32 \<Rightarrow> nat \<Rightarrow> member list \<Rightarrow> bool" where
  "tar_image m base sz off [] \<longleftrightarrow>
     unat sz < off + 512 \<or> blank_header m (base + of_nat off)"
| "tar_image m base sz off (t # ts) \<longleftrightarrow>
     off + 512 \<le> unat sz \<and> \<not> blank_header m (base + of_nat off)
     \<and> str_at m (base + of_nat off) (tname t) \<and> length (tname t) < 512
     \<and> tar_typeflag m (base + of_nat off) = ttype t
     \<and> octal_to_u32 m (tar_size_field (base + of_nat off)) 12 = Some (of_nat (tsize t))
     \<and> toff t = off + 512 \<and> off + 1024 + padded (tsize t) < 4294967296
     \<and> tar_image m base sz (off + 512 + padded (tsize t)) ts"

definition regular :: "member \<Rightarrow> bool" where
  "regular t \<longleftrightarrow> ttype t = 0x30 \<or> ttype t = 0"

text \<open>The members the index holds: the regular ones whose contents lie within the archive.\<close>

definition tar_files :: "u32 \<Rightarrow> member list \<Rightarrow> member list" where
  "tar_files sz ts = filter (\<lambda>t. regular t \<and> toff t + tsize t \<le> unat sz) ts"

definition entry_for :: "mem \<Rightarrow> u32 \<Rightarrow> member \<Rightarrow> bool" where
  "entry_for m e t \<longleftrightarrow> str_at m e (take 99 (tname t))
     \<and> entry_offset m e = of_nat (toff t) \<and> entry_size m e = of_nat (tsize t)"

definition indexed :: "mem \<Rightarrow> initrd \<Rightarrow> member list \<Rightarrow> bool" where
  "indexed m st fs \<longleftrightarrow> initrd_ready st \<noteq> 0 \<and> (fs \<noteq> [] \<longrightarrow> initrd_files st \<noteq> 0)
     \<and> unat (initrd_files_count st) = length fs
     \<and> (\<forall>i < length fs. file_entry (initrd_files st) (of_nat i) \<noteq> 0
          \<and> entry_for m (file_entry (initrd_files st) (of_nat i)) (fs ! i))"

section \<open>Header fields\<close>

lemma tar_header_is_empty_eq: "tar_header_is_empty m h = Some (blank_header m h)"
proof -
  obtain r where r: "search_u32 0 512 (\<lambda>i. Some (m (h + i) \<noteq> 0)) = Some r"
    "case r of None \<Rightarrow> \<forall>i. 0 \<le> i \<longrightarrow> i < 512 \<longrightarrow> \<not> m (h + i) \<noteq> 0
     | Some i \<Rightarrow> 0 \<le> i \<and> i < 512 \<and> m (h + i) \<noteq> 0 \<and> (\<forall>j. 0 \<le> j \<longrightarrow> j < i \<longrightarrow> \<not> m (h + j) \<noteq> 0)"
    using search_u32_total [of 0 512 "\<lambda>i. Some (m (h + i) \<noteq> 0)" "\<lambda>i. m (h + i) \<noteq> 0"] by blast
  have sp: "x \<in> span h 512 \<longleftrightarrow> (\<exists>i < 512. x = h + i)" for x
  proof
    assume "x \<in> span h 512"
    then have "x - h < 512" by (simp add: span_def nat_of_word)
    then show "\<exists>i < 512. x = h + i" by (intro exI [of _ "x - h"]) simp
  qed (auto simp: span_def nat_of_word)
  from r(2) have "r = None \<longleftrightarrow> (\<forall>x \<in> span h 512. m x = 0)" by (cases r) (auto simp: sp)
  with r(1) show ?thesis by (simp add: tar_header_is_empty_def blank_header_def)
qed

lemma unat_and_not_511: "unat ((x :: u32) AND - 512) = unat x div 512 * 512"
  using unat_and_not_mask [of x 9] by (simp add: mask_eq_decr_exp)

lemma padded_bounds: "n \<le> padded n" "padded n \<le> n + 511"
  by (simp_all add: padded_def)

lemma tar_jump_eq:
  assumes "512 + padded n < 4294967296"
  shows "tar_jump (of_nat n) = of_nat (512 + padded n)" and "tar_jump (of_nat n) \<noteq> 0"
    and "unat (of_nat n :: u32) = n"
proof -
  have n: "n + 511 < 4294967296" using assms padded_bounds(1) [of n] by linarith
  then show un: "unat (of_nat n :: u32) = n" by (simp add: unat_of_nat)
  have "unat (of_nat n + 511 :: u32) = n + 511" using n un unat_add_nowrap [of "of_nat n" 511] by simp
  then have "unat ((of_nat n + 511 :: u32) AND - 512) = padded n" by (simp add: unat_and_not_511 padded_def)
  then have u: "unat (tar_jump (of_nat n)) = 512 + padded n"
    unfolding tar_jump_def using assms unat_add_nowrap [of 512 "(of_nat n + 511) AND - 512"] by simp
  then show "tar_jump (of_nat n) = of_nat (512 + padded n)"
    unfolding u [symmetric] by simp
  show "tar_jump (of_nat n) \<noteq> 0" using u by auto
qed

section \<open>The octal size field\<close>

text \<open>
  The size field as \<open>tar\<close> writes it: eleven octal digits, most significant first, and a NUL or a space.
\<close>

definition octal_field :: "mem \<Rightarrow> u32 \<Rightarrow> nat \<Rightarrow> bool" where
  "octal_field m p n \<longleftrightarrow>
     (\<forall>i < 11. m (p + of_nat i) = 0x30 + of_nat (n div 8 ^ (10 - i) mod 8)) \<and> m (p + 11) \<in> {0, 0x20}"

lemma octal_digit:
  assumes "d < 8"
  shows "sint (0x30 + of_nat d :: u8) = 0x30 + int d" and "(0x30 + of_nat d :: u8) \<notin> {0, 0x20}"
proof -
  have "d \<in> {0, 1, 2, 3, 4, 5, 6, 7}" using assms by auto
  then show "sint (0x30 + of_nat d :: u8) = 0x30 + int d" "(0x30 + of_nat d :: u8) \<notin> {0, 0x20}"
    by auto
qed

lemma octal_step:
  assumes "k < 11"
  shows "push_bit 3 (of_nat (n div 8 ^ (11 - k))) + of_nat (n div 8 ^ (10 - k) mod 8) = (of_nat (n div 8 ^ (10 - k)) :: u32)"
proof -
  have "11 - k = Suc (10 - k)" using assms by simp
  then have "n div 8 ^ (11 - k) = n div 8 ^ (10 - k) div 8" by (simp add: div_mult2_eq [symmetric] mult.commute)
  then have "of_nat (n div 8 ^ (10 - k)) = (of_nat (n div 8 ^ (11 - k) * 8 + n div 8 ^ (10 - k) mod 8) :: u32)"
    by simp
  then show ?thesis by (simp add: push_bit_eq_mult)
qed

lemma octal_to_u32_eq:
  assumes f: "octal_field m p n" and n: "n < 4294967296"
  shows "octal_to_u32 m p 12 = Some (of_nat n)"
proof -
  let ?P = "\<lambda>(i :: u32) (v :: u32). i \<le> 11 \<and> v = of_nat (n div 8 ^ (11 - unat i))"
  let ?b = "\<lambda>i (value :: u32).
             let c = m (p + i)
             in if c = 0 \<or> c = 0x20 then Some (Inl value)
                else if sint c < 0x30 \<or> sint c > 0x37 then Some (Inl value)
                else Some (Inr (push_bit 3 value + word_of_int (sint c - 0x30)))"
  have "\<exists>r. loop_u32 0 12 ?b 0 = Some r \<and> (case r of Inl v \<Rightarrow> v = of_nat n | Inr t \<Rightarrow> ?P 12 t)"
  proof (rule loop_u32_invariant [where P = ?P])
    show "?P 0 0" using n by simp
    fix i :: u32 and v :: u32 assume i: "0 \<le> i" "i < 12" "?P i v"
    show "\<exists>r. ?b i v = Some r \<and> (case r of Inl v \<Rightarrow> v = of_nat n | Inr t \<Rightarrow> ?P (i + 1) t)"
    proof (cases "i = 11")
      case True
      then show ?thesis using f i by (auto simp: octal_field_def)
    next
      case False
      with i have k: "unat i < 11" by (auto simp: nat_of_word word_unat_eq_iff)
      let ?d = "n div 8 ^ (10 - unat i) mod 8"
      have d: "?d < 8" by simp
      have c: "m (p + i) = 0x30 + of_nat ?d" using f k by (auto simp: octal_field_def)
      have i1: "unat (i + 1) = Suc (unat i)" using i unat_suc_less [of i 12] by simp
      have "?b i v = Some (Inr (push_bit 3 v + of_nat ?d))"
        using octal_digit [OF d] d unfolding c Let_def by simp
      moreover have "push_bit 3 v + of_nat ?d = of_nat (n div 8 ^ (11 - unat (i + 1)))"
        using octal_step [OF k, of n] i(3) i1 by simp
      ultimately show ?thesis using k i1 by (simp add: word_le_nat_alt)
    qed
  qed simp
  then obtain r where "loop_u32 0 12 ?b 0 = Some r" "case r of Inl v \<Rightarrow> v = of_nat n | Inr t \<Rightarrow> ?P 12 t" by blast
  then show ?thesis by (cases r) (simp_all add: octal_to_u32_def)
qed

section \<open>The counting pass\<close>

lemma unat_offset: "off + 512 < 4294967296 \<Longrightarrow> unat (of_nat off + 512 :: u32) = off + 512"
  using unat_add_nowrap [of "of_nat off" 512] by (simp add: unat_of_nat)

lemma tar_guard:
  "off + 512 < 4294967296 \<Longrightarrow> of_nat off + 512 \<le> sz \<longleftrightarrow> off + 512 \<le> unat (sz :: u32)"
  by (simp add: nat_of_word unat_offset)

lemma image_regular: "tar_image m base sz off (t # ts) \<Longrightarrow> tar_regular m (base + of_nat off) \<longleftrightarrow> regular t"
  by (simp add: tar_regular_def regular_def)

lemma image_next:
  assumes "tar_image m base sz off (t # ts)"
  defines "next \<equiv> off + 512 + padded (tsize t)"
  shows "tar_image m base sz next ts" and "next + 512 < 4294967296"
    and "of_nat off + tar_jump (of_nat (tsize t)) = of_nat next" and "tar_jump (of_nat (tsize t)) \<noteq> 0"
    and "unat (of_nat (tsize t) :: u32) = tsize t"
  using assms(1) tar_jump_eq [of "tsize t"] by (simp_all add: next_def ac_simps)

lemma tar_count_eq:
  "tar_image m base sz off ts \<Longrightarrow> off + 512 < 4294967296 \<Longrightarrow>
    tar_count m base sz (of_nat off) c = Some (c + of_nat (length (filter regular ts)))"
proof (induction ts arbitrary: off c)
  case Nil
  then show ?case
    by (auto simp: tar_count.simps [of m base sz "of_nat off"] tar_header_is_empty_eq tar_guard)
next
  case (Cons t ts)
  note nx = image_next [OF Cons.prems(1)]
  have "tar_count m base sz (of_nat off) c =
      tar_count m base sz (of_nat off + tar_jump (of_nat (tsize t))) (if regular t then c + 1 else c)"
    using Cons.prems nx(4) image_regular [OF Cons.prems(1)]
    by (simp add: tar_count.simps [of m base sz "of_nat off"] tar_header_is_empty_eq tar_guard)
  also have "\<dots> = Some ((if regular t then c + 1 else c) + of_nat (length (filter regular ts)))"
    unfolding nx(3) by (rule Cons.IH [OF nx(1,2)])
  finally show ?case by (simp add: add.assoc)
qed

text \<open>A header takes 512 bytes, so an archive below 4 GiB has fewer than \<open>2 ^ 23\<close> members.\<close>

lemma image_length: "tar_image m base sz off ts \<Longrightarrow> off + 512 * length ts \<le> max off 4294967296"
proof (induction ts arbitrary: off)
  case (Cons t ts)
  from Cons.IH [OF image_next(1) [OF Cons.prems]] image_next(2) [OF Cons.prems] show ?case by simp
qed simp

section \<open>Memory the archive does not share\<close>

lemma image_header_span:
  assumes "off + 512 \<le> unat (sz :: u32)"
  shows "span (base + of_nat off) 512 \<subseteq> span base (unat sz)"
proof
  fix x assume "x \<in> span (base + of_nat off) 512"
  then have u: "unat (x - (base + of_nat off)) < 512" by (simp add: span_def)
  have off: "unat (of_nat off :: u32) = off" using assms unat_less_2p32 [of sz] by (simp add: unat_of_nat)
  have "unat (x - base) = unat ((x - (base + of_nat off)) + of_nat off)" by (simp add: algebra_simps)
  also have "\<dots> = unat (x - (base + of_nat off)) + off"
    using unat_add_nowrap [of "x - (base + of_nat off)" "of_nat off"] u off assms unat_less_2p32 [of sz] by simp
  finally show "x \<in> span base (unat sz)" using u assms by (simp add: span_def)
qed

lemma octal_to_u32_cong:
  assumes "\<And>x. x \<in> span p (unat n) \<Longrightarrow> m' x = m x"
  shows "octal_to_u32 m' p n = octal_to_u32 m p n"
proof -
  have "m' (p + i) = m (p + i)" if "i < n" for i
    using that by (intro assms) (simp add: span_def nat_of_word)
  then show ?thesis unfolding octal_to_u32_def by (subst loop_u32_cong) auto
qed

lemma tar_image_cong:
  assumes "tar_image m base sz off ts" and same: "\<And>x. x \<in> span base (unat sz) \<Longrightarrow> m' x = m x"
  shows "tar_image m' base sz off ts"
  using assms(1)
proof (induction ts arbitrary: off)
  case Nil
  then show ?case
    using image_header_span [of off sz base] same by (fastforce simp: blank_header_def)
next
  case (Cons t ts)
  then have le: "off + 512 \<le> unat sz" by simp
  let ?h = "base + of_nat off"
  have hd: "x \<in> span ?h 512 \<Longrightarrow> m' x = m x" for x using image_header_span [OF le, of base] same by blast
  have "str_at m' ?h (tname t)"
    by (rule str_at_cong [of m]) (use Cons.prems hd span_mono [of "length (tname t) + 1" 512 ?h] in auto)
  moreover have "tar_typeflag m' ?h = tar_typeflag m ?h"
    unfolding tar_typeflag_def by (rule hd) (simp add: span_def)
  moreover have "octal_to_u32 m' (tar_size_field ?h) 12 = octal_to_u32 m (tar_size_field ?h) 12"
  proof (rule octal_to_u32_cong)
    fix x assume "x \<in> span (tar_size_field ?h) (unat (12 :: u32))"
    then have "unat (x - ?h - 124) < 12" unfolding span_def tar_size_field_def by (simp add: diff_diff_add)
    then have "unat (x - ?h) < 512" using unat_add_nowrap [of "x - ?h - 124" 124] by simp
    then show "m' x = m x" by (intro hd) (simp add: span_def)
  qed
  moreover have "blank_header m' ?h = blank_header m ?h" using hd by (simp add: blank_header_def)
  ultimately show ?case using Cons by simp
qed

section \<open>The filling pass\<close>

lemma store_entry_spec:
  assumes nm: "str_at m h cs" "length cs < 512" and dj: "span e 108 \<inter> span h 512 = {}"
  shows "\<exists>m'. store_entry e h po fs m = Some m' \<and> str_at m' e (take 99 cs)
    \<and> entry_offset m' e = po \<and> entry_size m' e = fs \<and> (\<forall>x. x \<notin> span e 108 \<longrightarrow> m' x = m x)"
proof -
  let ?k = "min 99 (length cs)"
  let ?n = "of_nat ?k :: u32"
  have un: "unat ?n = ?k" by (simp add: unat_of_nat)
  have len: "unat (of_nat (length cs) :: u32) = length cs" using nm(2) by (simp add: unat_of_nat)
  then have cl: "(if of_nat (length cs) \<ge> (100 :: u32) then 99 else of_nat (length cs)) = ?n"
    by (auto simp: word_le_nat_alt word_unat_eq_iff min_def)
  define m1 where "m1 = for_u32 0 ?n (\<lambda>i m. m(e + i := m (h + i))) m"
  define m2 where "m2 = m1(e + ?n := 0)"
  define m3 where "m3 = write_u32 m2 (e + 100) po"
  define m4 where "m4 = write_u32 m3 (e + 104) fs"
  have st: "store_entry e h po fs m = Some m4"
    unfolding store_entry_def cstr_len_eq [OF nm(1)] Option.bind.bind_lunit Let_def cl m4_def m3_def m2_def m1_def ..
  have "?k \<le> 108" "?k \<le> 512" by simp_all
  then have "span e ?k \<inter> span h ?k = {}" using dj span_mono by blast
  then have m1: "m1 x = (if x \<in> span e ?k then m (h + (x - e)) else m x)" for x
    unfolding m1_def by (subst for_u32_copy) (simp_all only: un)
  have out: "i \<le> 99 \<Longrightarrow> m4 (e + of_nat i) = m2 (e + of_nat i)" for i
    using span_offset_iff [of i 100 4 e] span_offset_iff [of i 104 4 e] by (simp add: m4_def m3_def mem_simps)
  have in_k: "i < 4294967296 \<Longrightarrow> e + of_nat i \<in> span e ?k \<longleftrightarrow> i < ?k" for i
    using span_offset_iff [of i 0 ?k e] by simp
  have "str_at m4 e (take 99 cs)"
  proof (rule str_atI)
    fix i assume "i < length (take 99 cs)"
    then have i: "i < ?k" "i < length cs" by auto
    then have "(of_nat i :: u32) \<noteq> ?n" using un by (auto simp: unat_of_nat dest!: arg_cong [where f = unat])
    then have "m4 (e + of_nat i) = m (h + of_nat i)" using out [of i] i in_k [of i] by (simp add: m2_def m1)
    with str_at_bytes [OF nm(1) i(2)] i show "m4 (e + of_nat i) = take 99 cs ! i \<and> take 99 cs ! i \<noteq> 0" by simp
  next
    show "m4 (e + of_nat (length (take 99 cs))) = 0" using out [of ?k] by (simp add: m2_def min.commute)
  qed
  moreover have "entry_offset m4 e = po"
  proof -
    have "span (e + 104) 4 \<inter> span (e + 100) 4 = {}"
      using span_offset_iff [of _ 104 4 e] by (auto simp: span_4 add.assoc)
    then show ?thesis by (simp add: entry_offset_def m4_def read_write_u32_disjoint) (simp add: m3_def)
  qed
  moreover have "entry_size m4 e = fs" by (simp add: entry_size_def m4_def)
  moreover have "m4 x = m x" if x: "x \<notin> span e 108" for x
  proof -
    define i where "i = unat (x - e)"
    have i: "x = e + of_nat i" "108 \<le> i" "i < 4294967296"
      using x unat_less_2p32 [of "x - e"] by (simp_all add: i_def span_def)
    have "e + ?n \<in> span e 108" by (rule span_of_nat) simp
    then have "x \<noteq> e + ?n" using x by blast
    moreover have "x \<notin> span (e + 100) 4" "x \<notin> span (e + 104) 4" "x \<notin> span e ?k"
      using span_offset_iff [of i 100 4 e] span_offset_iff [of i 104 4 e] in_k [of i] i by auto
    ultimately show ?thesis by (simp add: m4_def m3_def m2_def m1 mem_simps)
  qed
  ultimately show ?thesis using st by blast
qed

lemma entry_for_cong:
  assumes "entry_for m e t" and "\<And>x. x \<in> span e 108 \<Longrightarrow> m' x = m x"
  shows "entry_for m' e t"
proof -
  have sub: "span (e + 100) 4 \<subseteq> span e 108" "span (e + 104) 4 \<subseteq> span e 108"
    by (auto simp: span_4 add.assoc) (simp_all add: span_def)
  have "length (take 99 (tname t)) + 1 \<le> 108" by simp
  then have "span e (length (take 99 (tname t)) + 1) \<subseteq> span e 108" by (rule span_mono)
  then have "m' x = m x" if "x \<in> span e (length (take 99 (tname t)) + 1)" for x using assms(2) that by blast
  moreover have "str_at m e (take 99 (tname t))" using assms(1) by (simp add: entry_for_def)
  ultimately have "str_at m' e (take 99 (tname t))" by (rule str_at_cong [rotated])
  moreover have "entry_offset m' e = entry_offset m e" "entry_size m' e = entry_size m e"
    unfolding entry_offset_def entry_size_def using sub assms(2) by - (rule read_u32_cong; blast)+
  ultimately show ?thesis using assms(1) by (simp add: entry_for_def)
qed

lemma file_entry_Suc: "file_entry files (of_nat (Suc k)) = file_entry files (of_nat k) + 108"
  by (simp add: file_entry_def sizeof_initrd_file_def algebra_simps)

lemma file_entry_nat: "file_entry files (of_nat k) = files + of_nat (108 * k)"
  by (simp add: file_entry_def sizeof_initrd_file_def)

lemma file_entry_span:
  assumes "k < n" "108 * n \<le> 4294967295"
  shows "span (file_entry files (of_nat k)) 108 \<subseteq> span files (108 * n)"
proof
  fix x assume x: "x \<in> span (file_entry files (of_nat k)) 108"
  define i where "i = unat (x - files)"
  have i: "x = files + of_nat i" "i < 4294967296" using unat_less_2p32 [of "x - files"] by (simp_all add: i_def)
  have "108 * k + 108 \<le> 108 * n" using assms(1) by simp
  moreover from x have "108 * k \<le> i \<and> i < 108 * k + 108"
    using span_offset_iff [of i "108 * k" 108 files] i calculation assms(2) unfolding file_entry_nat by simp
  ultimately have "i < 108 * n" by simp
  then show "x \<in> span files (108 * n)" by (simp add: span_def i_def)
qed

lemma file_entry_apart:
  assumes "j < k" "k < n" "108 * n \<le> 4294967295"
  shows "span (file_entry files (of_nat j)) 108 \<inter> span (file_entry files (of_nat k)) 108 = {}"
proof -
  have "x \<notin> span (file_entry files (of_nat k)) 108" if x: "x \<in> span (file_entry files (of_nat j)) 108" for x
  proof -
    define i where "i = unat (x - files)"
    have i: "x = files + of_nat i" "i < 4294967296" using unat_less_2p32 [of "x - files"] by (simp_all add: i_def)
    have "108 * j + 108 \<le> 108 * k" "108 * k + 108 \<le> 108 * n" using assms(1,2) by simp_all
    with x i assms(3) show ?thesis
      using span_offset_iff [of i "108 * j" 108 files] span_offset_iff [of i "108 * k" 108 files]
      unfolding file_entry_nat by auto
  qed
  then show ?thesis by blast
qed

text \<open>
  \<open>filled\<close>: the entries from position \<open>k\<close> on hold the members \<open>fs\<close>; earlier entries and everything
  outside the index are as before.
\<close>

definition filled :: "u32 \<Rightarrow> nat \<Rightarrow> nat \<Rightarrow> member list \<Rightarrow> mem \<Rightarrow> mem \<Rightarrow> bool" where
  "filled files n k fs m m' \<longleftrightarrow>
     (\<forall>x. x \<notin> span files (108 * n) \<longrightarrow> m' x = m x)
     \<and> (\<forall>j < k. \<forall>x \<in> span (file_entry files (of_nat j)) 108. m' x = m x)
     \<and> (\<forall>i < length fs. entry_for m' (file_entry files (of_nat (k + i))) (fs ! i))"

lemma filled_Nil: "filled files n k [] m m"
  by (simp add: filled_def)

lemma filled_Cons:
  assumes "entry_for m1 (file_entry files (of_nat k)) t"
    and out: "\<And>x. x \<notin> span (file_entry files (of_nat k)) 108 \<Longrightarrow> m1 x = m x"
    and k: "k < n" "108 * n \<le> 4294967295" and f: "filled files n (Suc k) fs m1 m'"
  shows "filled files n k (t # fs) m m'"
proof -
  have kept: "m' x = m1 x" if "x \<in> span (file_entry files (of_nat k)) 108" for x
    using f that by (auto simp: filled_def)
  have "m' x = m x" if "x \<notin> span files (108 * n)" for x
    using f that out [of x] file_entry_span [OF k, of files] by (auto simp: filled_def)
  moreover have "m' x = m x" if "j < k" "x \<in> span (file_entry files (of_nat j)) 108" for j x
  proof -
    have "x \<notin> span (file_entry files (of_nat k)) 108" using file_entry_apart [OF that(1) k, of files] that(2) by blast
    moreover have "m' x = m1 x" using f that less_SucI [OF that(1)] unfolding filled_def by blast
    ultimately show ?thesis using out by simp
  qed
  moreover have "entry_for m' (file_entry files (of_nat (k + i))) ((t # fs) ! i)" if "i < length (t # fs)" for i
  proof (cases i)
    case 0
    then show ?thesis using entry_for_cong [OF assms(1) kept] by simp
  next
    case (Suc i')
    then show ?thesis using f that by (simp add: filled_def)
  qed
  ultimately show ?thesis by (simp add: filled_def)
qed

lemma tar_files_Cons:
  "tar_files sz (t # ts) = (if regular t \<and> toff t + tsize t \<le> unat sz then t # tar_files sz ts else tar_files sz ts)"
  by (simp add: tar_files_def)

lemma tar_fill_eq:
  assumes "tar_image m base sz off ts" and "off + 512 < 4294967296"
    and "k + length (filter regular ts) \<le> n" and n: "108 * n \<le> 4294967295"
    and dj: "span files (108 * n) \<inter> span base (unat sz) = {}"
  shows "\<exists>m'. tar_fill base sz files (of_nat n) (of_nat off) (of_nat k) m
      = Some (of_nat (k + length (tar_files sz ts)), m') \<and> filled files n k (tar_files sz ts) m m'"
  using assms(1-3)
proof (induction ts arbitrary: off k m)
  case Nil
  then have "tar_fill base sz files (of_nat n) (of_nat off) (of_nat k) m = Some (of_nat k, m)"
    by (auto simp: tar_fill.simps [of base sz files _ "of_nat off"] tar_header_is_empty_eq tar_guard)
  then show ?case by (simp add: tar_files_def filled_Nil)
next
  case (Cons t ts)
  note nx = image_next [OF Cons.prems(1)] and reg = image_regular [OF Cons.prems(1)]
  have un: "unat (of_nat n :: u32) = n" "unat (of_nat k :: u32) = k"
    using n Cons.prems(3) by (simp_all add: unat_of_nat)
  show ?case
  proof (cases "k < n")
    case False
    then have "length (filter regular (t # ts)) = 0" using Cons.prems(3) by linarith
    then have "filter regular (t # ts) = []" by (simp only: length_0_conv)
    then have none: "tar_files sz (t # ts) = []" by (auto simp: tar_files_def filter_empty_conv split: if_splits)
    have "tar_fill base sz files (of_nat n) (of_nat off) (of_nat k) m = Some (of_nat k, m)"
      using False un by (simp add: tar_fill.simps [of base sz files _ "of_nat off"] word_less_nat_alt)
    then show ?thesis unfolding none by (simp add: filled_Nil)
  next
    case k: True
    let ?h = "base + of_nat off" and ?e = "file_entry files (of_nat k)"
    have le: "off + 512 \<le> unat sz" using Cons.prems(1) by simp
    have po: "of_nat off + 512 = (of_nat (toff t) :: u32)" using Cons.prems(1) by simp
    have guard: "of_nat (toff t) \<le> sz" using tar_guard [OF Cons.prems(2), of sz] le po by simp
    have fits: "of_nat (toff t) + of_nat (tsize t) \<le> sz \<longleftrightarrow> toff t + tsize t \<le> unat sz"
    proof -
      have "toff t + tsize t < 4294967296" using Cons.prems(1) padded_bounds(1) [of "tsize t"] by simp
      then show ?thesis by (simp add: word_le_nat_alt unat_of_nat flip: of_nat_add)
    qed
    have step: "tar_fill base sz files (of_nat n) (of_nat off) (of_nat k) m =
       Option.bind (if regular t \<and> toff t + tsize t \<le> unat sz
          then map_option (Pair (of_nat k + 1)) (store_entry ?e ?h (of_nat (toff t)) (of_nat (tsize t)) m)
          else Some (of_nat k, m))
        (\<lambda>(index, m). tar_fill base sz files (of_nat n) (of_nat (off + 512 + padded (tsize t))) index m)"
      using Cons.prems(1,2) nx(4) reg k un fits po guard
      by (simp add: tar_fill.simps [of base sz files _ "of_nat off"] tar_header_is_empty_eq tar_guard
          word_less_nat_alt nx(3) del: of_nat_add)
    show ?thesis
    proof (cases "regular t \<and> toff t + tsize t \<le> unat sz")
      case False
      have "k + length (filter regular ts) \<le> n" using Cons.prems(3) by (simp split: if_splits)
      then show ?thesis
        using Cons.IH [OF nx(1,2), of k] unfolding step tar_files_Cons if_not_P [OF False] by simp
    next
      case True
      have sub: "span ?e 108 \<subseteq> span files (108 * n)" by (rule file_entry_span [OF k n])
      then have "span ?e 108 \<inter> span ?h 512 = {}" using image_header_span [OF le, of base] dj by blast
      then obtain m1 where m1: "store_entry ?e ?h (of_nat (toff t)) (of_nat (tsize t)) m = Some m1"
        "entry_for m1 ?e t" "\<And>x. x \<notin> span ?e 108 \<Longrightarrow> m1 x = m x"
        using store_entry_spec [of m ?h "tname t" ?e] Cons.prems(1) by (fastforce simp: entry_for_def)
      have "tar_image m1 base sz (off + 512 + padded (tsize t)) ts"
        by (rule tar_image_cong [OF nx(1)]) (use m1(3) sub dj in blast)
      then obtain m' where m': "tar_fill base sz files (of_nat n) (of_nat (off + 512 + padded (tsize t))) (of_nat (Suc k)) m1
          = Some (of_nat (Suc k + length (tar_files sz ts)), m')" "filled files n (Suc k) (tar_files sz ts) m1 m'"
        using Cons.IH [OF _ nx(2), of m1 "Suc k"] Cons.prems(3) True by auto
      have "filled files n k (t # tar_files sz ts) m m'" by (rule filled_Cons [OF m1(2,3) k n m'(2)])
      with step True m1(1) m'(1) show ?thesis by (simp add: tar_files_Cons add.commute)
    qed
  qed
qed

section \<open>Building the index\<close>

text \<open>
  \<open>index_owned\<close>: the index lies inside one block in use, so the other users of the heap leave it alone.
\<close>

definition index_owned :: "initrd \<Rightarrow> blk list \<Rightarrow> bool" where
  "index_owned st bs \<longleftrightarrow> initrd_files st = 0
     \<or> (\<exists>b \<in> live bs. span (initrd_files st) (108 * unat (initrd_files_count st)) \<subseteq> payload b)"

lemma tar_files_length: "length (tar_files sz ts) \<le> length (filter regular ts)"
  unfolding tar_files_def by (induction ts) auto

lemma block_array_entry:
  assumes "blk_ok b" "108 * n \<le> unat (bsize b)" "i < n"
  shows "file_entry (addr b + 12) (of_nat i) \<noteq> 0"
proof -
  have b: "unat (addr b) + 12 + unat (bsize b) \<le> 4294967296" using assms(1) by (simp add: blk_ok_def)
  have i: "108 * i + 108 \<le> unat (bsize b)" using assms(2,3) by simp
  then have "unat (of_nat (108 * i) :: u32) = 108 * i" using b by (simp add: unat_of_nat del: of_nat_mult)
  moreover have "unat (addr b + 12) = unat (addr b) + 12" using b i unat_add_nowrap [of "addr b" 12] by simp
  ultimately have "unat (addr b + 12 + of_nat (108 * i)) = unat (addr b) + 12 + 108 * i"
    using b i unat_add_nowrap [of "addr b + 12" "of_nat (108 * i)"] by simp
  then show ?thesis unfolding file_entry_nat by (metis add_gr_0 less_irrefl unat_0 zero_less_numeral)
qed

lemma initrd_fill:
  assumes inv: "heap_inv s bs" and b: "b \<in> live bs" "108 * n \<le> unat (bsize b)"
    and img: "tar_image (hmem s) base sz 0 ts" and n: "length (filter regular ts) = n"
    and dj: "span base (unat sz) \<inter> managed (hpmm s) bs = {}"
  defines "files \<equiv> addr b + 12"
  shows "\<exists>m'. tar_fill base sz files (of_nat n) 0 0 (hmem s) = Some (of_nat (length (tar_files sz ts)), m')
    \<and> heap_inv (s\<lparr>hmem := m'\<rparr>) bs \<and> heap_frame s bs (s\<lparr>hmem := m'\<rparr>) bs
    \<and> span files (108 * n) \<subseteq> payload b \<and> (\<forall>x. x \<notin> payload b \<longrightarrow> m' x = hmem s x)
    \<and> (\<forall>i < length (tar_files sz ts). file_entry files (of_nat i) \<noteq> 0
          \<and> entry_for m' (file_entry files (of_nat i)) (tar_files sz ts ! i))"
proof -
  have bok: "blk_ok b" "payload b \<subseteq> extent b" using live_ok [OF inv b(1)] by auto
  have sub: "span files (108 * n) \<subseteq> payload b" unfolding files_def by (rule payload_span [OF bok(1) b(2)])
  have man: "payload b \<subseteq> managed (hpmm s) bs" using bok(2) b(1) live_subset by (auto simp: managed_def)
  have n1: "108 * n \<le> 4294967295" using b(2) unat_less_2p32 [of "bsize b"] by simp
  have "span files (108 * n) \<inter> span base (unat sz) = {}" using sub man dj by blast
  then obtain m' where m': "tar_fill base sz files (of_nat n) 0 0 (hmem s) = Some (of_nat (length (tar_files sz ts)), m')"
    "filled files n 0 (tar_files sz ts) (hmem s) m'"
    using tar_fill_eq [OF img, of 0 n files] n n1 by auto
  have out: "m' x = hmem s x" if "x \<notin> payload b" for x using m'(2) sub that by (auto simp: filled_def)
  then have "heap_inv (s\<lparr>hmem := m'\<rparr>) bs" using b(1) live_subset by (intro heap_inv_store [OF inv, of b]) auto
  moreover have "heap_frame s bs (s\<lparr>hmem := m'\<rparr>) bs" using out man by (auto simp: heap_frame_def)
  moreover have "file_entry files (of_nat i) \<noteq> 0" if "i < length (tar_files sz ts)" for i
    unfolding files_def by (rule block_array_entry [OF bok(1) b(2)]) (use that n tar_files_length [of sz ts] in simp)
  ultimately show ?thesis using m' sub out by (simp add: filled_def)
qed

lemma initrd_init_spec:
  assumes inv: "heap_inv s bs" and img: "tar_image (hmem s) base sz 0 ts"
    and dj: "span base (unat sz) \<inter> managed (hpmm s) bs = {}"
    and mbi: "mbi_flags (hmem s) mbi AND push_bit 3 1 \<noteq> 0" "mbi_mods_count (hmem s) mbi \<noteq> 0"
    and base: "base = mod_start (hmem s) (mbi_mods_addr (hmem s) mbi) 0"
    and sz: "sz = mod_end (hmem s) (mbi_mods_addr (hmem s) mbi) 0 - base"
  shows "\<exists>st s' bs'. initrd_init mbi s = Some (st, s') \<and> heap_inv s' bs' \<and> heap_frame s bs s' bs'
    \<and> live bs \<subseteq> live bs' \<and> (\<forall>c \<in> live bs. \<forall>x \<in> payload c. hmem s' x = hmem s x)
    \<and> initrd_base st = base \<and> initrd_size st = sz \<and> index_owned st bs'
    \<and> (if initrd_ready st = 0
       then filter regular ts \<noteq> []
         \<and> (\<exists>s1. kcalloc (of_nat (length (filter regular ts))) sizeof_initrd_file s = Some (0, s1))
       else indexed (hmem s') st (tar_files sz ts))"
proof -
  let ?n = "length (filter regular ts)" and ?m = "hmem s"
  let ?st = "initrd_boot\<lparr>initrd_base := base, initrd_size := sz\<rparr>"
  have "512 * ?n \<le> 512 * length ts" by simp
  also have "\<dots> \<le> 4294967296" using image_length [OF img] by simp
  finally have n: "?n \<le> 8388608" by simp
  then have un: "unat (of_nat ?n :: u32) = ?n" by (simp add: unat_of_nat)
  have cnt: "tar_count ?m base sz 0 0 = Some (of_nat ?n)" using tar_count_eq [OF img, of 0] by simp
  have "mbi_flags ?m mbi AND 8 \<noteq> 0" using mbi(1) by simp
  note init = initrd_init_def [of mbi s] cnt base [symmetric] sz [symmetric] this mbi(2) sizeof_initrd_file_def
  show ?thesis
  proof (cases "?n = 0")
    case True
    then have "tar_files sz ts = []" using tar_files_length [of sz ts] by simp
    moreover have "initrd_init mbi s = Some (?st\<lparr>initrd_ready := 1\<rparr>, s)" using True by (simp add: init Let_def)
    ultimately show ?thesis using inv
      by (intro exI [of _ "?st\<lparr>initrd_ready := 1\<rparr>"] exI [of _ s] exI [of _ bs])
        (simp add: initrd_boot_def indexed_def index_owned_def heap_frame_refl)
  next
    case False
    then have nz: "(of_nat ?n :: u32) \<noteq> 0" using un by (metis unat_0)
    obtain p s1 bs1 where kc: "kcalloc (of_nat ?n) 108 s = Some (p, s1)"
      and res: "alloc_result (align8 (of_nat ?n * 108)) s bs p s1 bs1"
      using kcalloc_spec [OF inv, of "of_nat ?n" 108] un n by auto
    have r: "heap_inv s1 bs1" "heap_frame s bs s1 bs1" "\<forall>c \<in> live bs. \<forall>x \<in> payload c. hmem s1 x = hmem s x"
      using res by (auto simp: alloc_result_def)
    show ?thesis
    proof (cases "p = 0")
      case True
      then have "initrd_init mbi s = Some (?st, s1)" using kc nz by (simp add: init Let_def initrd_boot_def)
      moreover have "live bs1 = live bs" using res True by (simp add: alloc_result_def)
      ultimately show ?thesis using r True kc False
        by (intro exI [of _ ?st] exI [of _ s1] exI [of _ bs1])
          (simp add: initrd_boot_def index_owned_def sizeof_initrd_file_def)
    next
      case p: False
      then obtain b where b: "live bs1 = insert b (live bs)" "p = addr b + 12" "align8 (of_nat ?n * 108) \<le> bsize b"
        "b \<notin> live bs" using res by (auto simp: alloc_result_def)
      have "unat (of_nat ?n * 108 :: u32) = 108 * ?n" using un n by (simp add: unat_word_ariths)
      then have cap: "108 * ?n \<le> unat (bsize b)"
        using align8_bounds(1) [of "of_nat ?n * 108"] b(3) n by (simp add: word_le_nat_alt)
      have same: "hmem s1 x = hmem s x" if "x \<in> span base (unat sz)" for x
        using r(2) dj that unfolding heap_frame_def by blast
      have dj1: "span base (unat sz) \<inter> managed (hpmm s1) bs1 = {}" using r(2) dj by (auto simp: heap_frame_def)
      from initrd_fill [OF r(1) _ cap tar_image_cong [OF img same] refl dj1] b(1,2) obtain m' where
        f: "tar_fill base sz p (of_nat ?n) 0 0 (hmem s1) = Some (of_nat (length (tar_files sz ts)), m')"
        "heap_inv (s1\<lparr>hmem := m'\<rparr>) bs1" "heap_frame s1 bs1 (s1\<lparr>hmem := m'\<rparr>) bs1"
        "span p (108 * ?n) \<subseteq> payload b" "\<And>x. x \<notin> payload b \<Longrightarrow> m' x = hmem s1 x"
        "\<forall>i < length (tar_files sz ts). file_entry p (of_nat i) \<noteq> 0
          \<and> entry_for m' (file_entry p (of_nat i)) (tar_files sz ts ! i)" by auto
      let ?st' = "?st\<lparr>initrd_files := p, initrd_files_count := of_nat (length (tar_files sz ts)), initrd_ready := 1\<rparr>"
      have lf: "unat (of_nat (length (tar_files sz ts)) :: u32) = length (tar_files sz ts)"
        using n tar_files_length [of sz ts] by (simp add: unat_of_nat)
      have "initrd_init mbi s = Some (?st', s1\<lparr>hmem := m'\<rparr>)"
        using kc nz p f(1) by (simp add: init Let_def initrd_boot_def)
      moreover have "m' x = hmem s x" if "c \<in> live bs" "x \<in> payload c" for c x
      proof -
        have "x \<notin> payload b" using payload_apart [OF r(1), of b c x] that b(1,4) by auto
        then show ?thesis using f(5) r(3) that by simp
      qed
      moreover have "index_owned ?st' bs1"
        using f(4) b(1) lf span_mono [of "108 * length (tar_files sz ts)" "108 * ?n" p] tar_files_length [of sz ts]
        by (auto simp: index_owned_def initrd_boot_def)
      moreover have "indexed m' ?st' (tar_files sz ts)" using f(6) lf p by (simp add: indexed_def)
      moreover have "heap_frame s bs (s1\<lparr>hmem := m'\<rparr>) bs1" using heap_frame_trans [OF r(2) f(3)] .
      ultimately show ?thesis using f(2) b(1)
        by (intro exI [of _ ?st'] exI [of _ "s1\<lparr>hmem := m'\<rparr>"] exI [of _ bs1]) auto
    qed
  qed
qed

end
