(* ===== verification/Initrd_Props.thy ===== *)
theory Initrd_Props
  imports Initrd_Index
begin

text \<open>
  The lookups on an index that holds a list of members, and the properties of the initial ramdisk.
\<close>

section \<open>Lookups\<close>

text \<open>A name is stored with at most 99 bytes; a lookup compares the stored name.\<close>

definition fname :: "member \<Rightarrow> cstr" where "fname t = take 99 (tname t)"

definition lookup :: "member list \<Rightarrow> cstr \<Rightarrow> member option" where
  "lookup fs cs = find (\<lambda>t. fname t = cs) fs"

definition listing :: "member list \<Rightarrow> cstr \<Rightarrow> member list" where
  "listing fs ps = filter (\<lambda>t. prefix ps (fname t)) fs"

lemma indexed_entry:
  assumes "indexed m st fs" "i < initrd_files_count st"
  shows "unat i < length fs" and "str_at m (file_entry (initrd_files st) i) (fname (fs ! unat i))"
    and "entry_offset m (file_entry (initrd_files st) i) = of_nat (toff (fs ! unat i))"
    and "entry_size m (file_entry (initrd_files st) i) = of_nat (tsize (fs ! unat i))"
    and "file_entry (initrd_files st) i \<noteq> 0"
proof -
  show i: "unat i < length fs" using assms by (simp add: indexed_def word_less_nat_alt)
  have "of_nat (unat i) = i" by simp
  with assms(1) i have "entry_for m (file_entry (initrd_files st) i) (fs ! unat i)"
    "file_entry (initrd_files st) i \<noteq> 0" by (metis indexed_def)+
  then show "str_at m (file_entry (initrd_files st) i) (fname (fs ! unat i))"
    "entry_offset m (file_entry (initrd_files st) i) = of_nat (toff (fs ! unat i))"
    "entry_size m (file_entry (initrd_files st) i) = of_nat (tsize (fs ! unat i))"
    "file_entry (initrd_files st) i \<noteq> 0" by (simp_all add: entry_for_def fname_def)
qed

lemma find_name_eq:
  assumes ix: "indexed m st fs" and nm: "str_at m name cs"
  shows "\<exists>r. find_name m st name = Some r \<and>
    (case r of None \<Rightarrow> lookup fs cs = None
     | Some i \<Rightarrow> i < initrd_files_count st \<and> lookup fs cs = Some (fs ! unat i))"
proof -
  let ?P = "\<lambda>i :: u32. fname (fs ! unat i) = cs"
  have "cstr_eq m (file_entry (initrd_files st) i) name = Some (?P i)" if "i < initrd_files_count st" for i
    using cstr_eq_eq [OF indexed_entry(2) [OF ix that] nm] .
  then obtain r where r: "find_name m st name = Some r"
    "case r of None \<Rightarrow> \<forall>i. 0 \<le> i \<longrightarrow> i < initrd_files_count st \<longrightarrow> \<not> ?P i
     | Some i \<Rightarrow> 0 \<le> i \<and> i < initrd_files_count st \<and> ?P i \<and> (\<forall>j. 0 \<le> j \<longrightarrow> j < i \<longrightarrow> \<not> ?P j)"
    using search_u32_total [of 0 "initrd_files_count st" "\<lambda>i. cstr_eq m (file_entry (initrd_files st) i) name" ?P]
    unfolding find_name_def by blast
  have ct: "length fs = unat (initrd_files_count st)" using ix by (simp add: indexed_def)
  have nat_i: "unat (of_nat j :: u32) = j" if "j < length fs" for j
    using that ct unat_less_2p32 [of "initrd_files_count st"] by (simp add: unat_of_nat)
  show ?thesis
  proof (cases r)
    case None
    have "fname (fs ! j) \<noteq> cs" if j: "j < length fs" for j
    proof -
      have "(of_nat j :: u32) < initrd_files_count st" using nat_i [OF j] ct j by (simp add: word_less_nat_alt)
      then have "\<not> ?P (of_nat j)" using r(2) [unfolded None option.case, rule_format, of "of_nat j"] by simp
      then show ?thesis unfolding nat_i [OF j] .
    qed
    then have "lookup fs cs = None" by (auto simp: lookup_def find_None_iff in_set_conv_nth)
    with r(1) None show ?thesis by simp
  next
    case (Some i)
    have i: "i < initrd_files_count st" "unat i < length fs" "?P i" using r(2) Some ct by (auto simp: word_less_nat_alt)
    have "fname (fs ! j) \<noteq> cs" if j: "j < unat i" for j
    proof -
      have "unat (of_nat j :: u32) = j" using nat_i j i(2) by simp
      moreover from this have "(of_nat j :: u32) < i" using j by (simp add: word_less_nat_alt)
      ultimately show ?thesis using r(2) by (auto simp: Some)
    qed
    then have "lookup fs cs = Some (fs ! unat i)" using i by (auto simp: lookup_def find_Some_iff)
    with r(1) i(1) Some show ?thesis by simp
  qed
qed

lemma lookup_no_index: "indexed m st fs \<Longrightarrow> initrd_files st = 0 \<Longrightarrow> fs = []"
  by (auto simp: indexed_def)

lemma initrd_get_file_data_eq:
  assumes ix: "indexed m st fs" and nm: "str_at m name cs" "name \<noteq> 0"
  shows "initrd_get_file_data m st name has_size = Some (case lookup fs cs of None \<Rightarrow> (0, None)
    | Some t \<Rightarrow> (initrd_base st + of_nat (toff t), if has_size then Some (of_nat (tsize t)) else None))"
proof (cases "initrd_files st = 0")
  case True
  with lookup_no_index [OF ix] show ?thesis by (simp add: initrd_get_file_data_def lookup_def)
next
  case False
  have "initrd_ready st \<noteq> 0" using ix by (simp add: indexed_def)
  moreover obtain r where "find_name m st name = Some r" "case r of None \<Rightarrow> lookup fs cs = None
     | Some i \<Rightarrow> i < initrd_files_count st \<and> lookup fs cs = Some (fs ! unat i)"
    using find_name_eq [OF ix nm(1)] by blast
  ultimately show ?thesis using False nm(2) indexed_entry [OF ix]
    by (cases r) (simp_all add: initrd_get_file_data_def Let_def)
qed

lemma initrd_get_file_size_by_name_eq:
  assumes ix: "indexed m st fs" and nm: "str_at m name cs" "name \<noteq> 0"
  shows "initrd_get_file_size_by_name m st name True = Some (case lookup fs cs of None \<Rightarrow> (0, None)
    | Some t \<Rightarrow> (1, Some (of_nat (tsize t))))"
proof (cases "initrd_files st = 0")
  case True
  with lookup_no_index [OF ix] show ?thesis by (simp add: initrd_get_file_size_by_name_def lookup_def)
next
  case False
  have "initrd_ready st \<noteq> 0" using ix by (simp add: indexed_def)
  moreover obtain r where "find_name m st name = Some r" "case r of None \<Rightarrow> lookup fs cs = None
     | Some i \<Rightarrow> i < initrd_files_count st \<and> lookup fs cs = Some (fs ! unat i)"
    using find_name_eq [OF ix nm(1)] by blast
  ultimately show ?thesis using False nm(2) indexed_entry [OF ix]
    by (cases r) (simp_all add: initrd_get_file_size_by_name_def)
qed

lemma indexed_in_range:
  assumes ix: "indexed m st fs"
  shows "initrd_ready st = 0 \<or> initrd_files st = 0 \<or> i \<ge> initrd_files_count st \<longleftrightarrow> \<not> unat i < length fs"
  using ix by (auto simp: indexed_def word_le_nat_alt)

lemma initrd_get_file_name_eq:
  assumes ix: "indexed m st fs"
  shows "if unat i < length fs then initrd_get_file_name st i \<noteq> 0 \<and> str_at m (initrd_get_file_name st i) (fname (fs ! unat i))
    else initrd_get_file_name st i = 0"
  unfolding initrd_get_file_name_def indexed_in_range [OF ix]
  using indexed_entry [OF ix, of i] ix by (simp add: indexed_def word_less_nat_alt)

lemma initrd_get_file_size_eq:
  assumes ix: "indexed m st fs"
  shows "initrd_get_file_size m st i True
    = (if unat i < length fs then (1, Some (of_nat (tsize (fs ! unat i)))) else (0, None))"
  using indexed_entry(4) [OF ix, of i] ix indexed_in_range [OF ix, of i]
  by (simp add: initrd_get_file_size_def indexed_def word_less_nat_alt)

section \<open>Listing by prefix\<close>

lemma prefix_test:
  assumes ix: "indexed m st fs" and ps: "str_at m pre ps" "pre \<noteq> 0" and i: "i < initrd_files_count st"
  shows "cstr_has_prefix m (file_entry (initrd_files st) i) pre = Some (prefix ps (fname (fs ! unat i)))"
  using indexed_entry [OF ix i] ps by (intro cstr_has_prefix_eq)

lemma listing_take_Suc:
  "n < length fs \<Longrightarrow> listing (take (Suc n) fs) ps
    = (if prefix ps (fname (fs ! n)) then listing (take n fs) ps @ [fs ! n] else listing (take n fs) ps)"
  by (simp add: listing_def take_Suc_conv_app_nth)

lemma initrd_count_prefix_eq:
  assumes ix: "indexed m st fs" and ps: "str_at m pre ps" "pre \<noteq> 0"
  shows "initrd_count_prefix m st pre = Some (of_nat (length (listing fs ps)))"
proof (cases "initrd_files st = 0")
  case True
  with lookup_no_index [OF ix] show ?thesis by (simp add: initrd_count_prefix_def listing_def)
next
  case False
  let ?b = "\<lambda>i count. do {
                 b \<leftarrow> cstr_has_prefix m (file_entry (initrd_files st) i) pre;
                 Some (Inr (if b then count + 1 else count))
               }" and ?P = "\<lambda>i c. c = (of_nat (length (listing (take (unat i) fs) ps)) :: u32)"
  have len: "unat (initrd_files_count st) = length fs" using ix by (simp add: indexed_def)
  have "\<exists>r. loop_u32 0 (initrd_files_count st) ?b 0 = Some r \<and>
      (case r of Inl (v :: u32) \<Rightarrow> False | Inr t \<Rightarrow> ?P (initrd_files_count st) t)"
  proof (rule loop_u32_invariant [where P = ?P and Q = "\<lambda>_. False"])
    fix i t assume i: "i < initrd_files_count st" "?P i t"
    have "unat (i + 1) = Suc (unat i)" using unat_suc_less [OF i(1)] .
    then show "\<exists>r. ?b i t = Some r \<and> (case r of Inl (v :: u32) \<Rightarrow> False | Inr t' \<Rightarrow> ?P (i + 1) t')"
      using i listing_take_Suc [OF indexed_entry(1) [OF ix i(1)], of ps] by (simp add: prefix_test [OF ix ps])
  qed (simp_all add: listing_def)
  then obtain r where "loop_u32 0 (initrd_files_count st) ?b 0 = Some r"
    "case r of Inl (v :: u32) \<Rightarrow> False | Inr t \<Rightarrow> ?P (initrd_files_count st) t" by blast
  then show ?thesis using False ps(2) ix len by (cases r) (simp_all add: initrd_count_prefix_def indexed_def)
qed

lemma initrd_get_file_name_by_prefix_eq:
  assumes ix: "indexed m st fs" and ps: "str_at m pre ps" "pre \<noteq> 0"
  shows "\<exists>p. initrd_get_file_name_by_prefix m st pre index = Some p \<and>
    (if unat index < length (listing fs ps)
     then p \<noteq> 0 \<and> str_at m p (fname (listing fs ps ! unat index)) else p = 0)"
proof (cases "initrd_files st = 0")
  case True
  with lookup_no_index [OF ix] show ?thesis by (simp add: initrd_get_file_name_by_prefix_def listing_def)
next
  case False
  let ?b = "\<lambda>i seen. do {
                 b \<leftarrow> cstr_has_prefix m (file_entry (initrd_files st) i) pre;
                 Some (if b then
                         if seen = index then Inl (file_entry (initrd_files st) i) else Inr (seen + 1)
                       else Inr seen)
               }"
    and ?P = "\<lambda>i seen. unat seen = length (listing (take (unat i) fs) ps) \<and> seen \<le> index"
    and ?Q = "\<lambda>p. unat index < length (listing fs ps) \<and> p \<noteq> 0 \<and> str_at m p (fname (listing fs ps ! unat index))"
  have len: "unat (initrd_files_count st) = length fs" using ix by (simp add: indexed_def)
  have "\<exists>r. loop_u32 0 (initrd_files_count st) ?b 0 = Some r \<and>
      (case r of Inl v \<Rightarrow> ?Q v | Inr t \<Rightarrow> ?P (initrd_files_count st) t)"
  proof (rule loop_u32_invariant [where P = ?P and Q = ?Q])
    fix i seen assume i: "i < initrd_files_count st" "?P i seen"
    let ?l = "listing (take (unat i) fs) ps"
    note e = indexed_entry [OF ix i(1)]
    have i1: "unat (i + 1) = Suc (unat i)" using unat_suc_less [OF i(1)] .
    have split: "listing fs ps = listing (take (Suc (unat i)) fs) ps @ listing (drop (Suc (unat i)) fs) ps"
      by (metis append_take_drop_id filter_append listing_def)
    show "\<exists>r. ?b i seen = Some r \<and> (case r of Inl v \<Rightarrow> ?Q v | Inr t' \<Rightarrow> ?P (i + 1) t')"
    proof (cases "prefix ps (fname (fs ! unat i))")
      case False
      then show ?thesis using i i1 listing_take_Suc [OF e(1), of ps] by (simp add: prefix_test [OF ix ps])
    next
      case pr: True
      then have l: "listing (take (Suc (unat i)) fs) ps = ?l @ [fs ! unat i]"
        using listing_take_Suc [OF e(1), of ps] by simp
      show ?thesis
      proof (cases "seen = index")
        case True
        then have "listing fs ps ! unat index = fs ! unat i" "unat index < length (listing fs ps)"
          using i(2) unfolding split l by (auto simp: nth_append)
        with True pr e i(1) show ?thesis by (simp add: prefix_test [OF ix ps])
      next
        case False
        then have lt: "seen < index" using i(2) by (simp add: order_less_le)
        then have "unat (seen + 1) = Suc (unat seen)" by (rule unat_suc_less)
        then have "?P (i + 1) (seen + 1)" using i(2) lt l i1 by (simp add: word_le_nat_alt word_less_nat_alt)
        with False pr i(1) show ?thesis by (simp add: prefix_test [OF ix ps])
      qed
    qed
  qed (simp_all add: listing_def)
  then obtain r where r: "loop_u32 0 (initrd_files_count st) ?b 0 = Some r"
    "case r of Inl v \<Rightarrow> ?Q v | Inr t \<Rightarrow> ?P (initrd_files_count st) t" by blast
  have "initrd_ready st \<noteq> 0" using ix by (simp add: indexed_def)
  then show ?thesis using False ps(2) r len
    by (cases r) (auto simp: initrd_get_file_name_by_prefix_def word_le_nat_alt)
qed

section \<open>A sample archive\<close>

text \<open>
  Boot information at \<open>0x9000\<close> with one module at \<open>0x300000\<close>: an archive of one regular member \<open>a\<close>
  whose contents are the byte 7.
\<close>

definition tar_mem :: mem where
  "tar_mem = (\<lambda>_. 0)(0x9000 := 8, 0x9014 := 1, 0x9019 := 0x91, 0x9102 := 0x30, 0x9105 := 4, 0x9106 := 0x30,
     0x300000 := 0x61, 0x30007C := 0x31, 0x30009C := 0x30, 0x300200 := 7)"

definition tar_heap :: heap where
  "tar_heap = \<lparr>hmem = tar_mem, hpmm = pmm_sample, heap_head = 0\<rparr>"

definition member_sample :: member where "member_sample = Member [0x61] 0x30 512 1"

lemma tar_heap_inv: "heap_inv tar_heap []"
  by (simp add: heap_inv_def tar_heap_def pmm_sample_wf blks_ok_def frames_held_def)

lemma tar_heap_boot:
  "mbi_flags tar_mem 0x9000 = 8" "mbi_mods_count tar_mem 0x9000 = 1" "mbi_mods_addr tar_mem 0x9000 = 0x9100"
  "mod_start tar_mem 0x9100 0 = 0x300000" "mod_end tar_mem 0x9100 0 = 0x300400"
  by (simp_all add: mbi_flags_def mbi_mods_count_def mbi_mods_addr_def mod_start_def mod_end_def
      sizeof_multiboot_module_def read_u32_def tar_mem_def push_bit_eq_mult)

lemma tar_image_sample: "tar_image tar_mem 0x300000 0x400 0 [member_sample]"
proof -
  have "\<not> blank_header tar_mem 0x300000"
    unfolding blank_header_def by (rule notI, drule bspec [of _ _ "0x300000"]) (simp_all add: tar_mem_def)
  moreover have "octal_to_u32 tar_mem 0x30007C 12 = Some 1"
    by (simp add: octal_to_u32_def tar_mem_def loop_u32.simps)
  ultimately show ?thesis
    by (simp add: member_sample_def padded_def tar_typeflag_def tar_size_field_def) (simp add: tar_mem_def)
qed

lemma tar_files_sample: "tar_files 0x400 [member_sample] = [member_sample]" "filter regular [member_sample] = [member_sample]"
  by (simp_all add: tar_files_def regular_def member_sample_def)

lemma tar_heap_apart: "span 0x300000 (unat (0x400 :: u32)) \<inter> managed (hpmm tar_heap) [] = {}"
proof -
  have "frame_of x \<noteq> 256" if "x \<in> span 0x300000 1024" for x
    using that span_nowrap [of "0x300000" 1024 x] by (auto simp: frame_of_def word_unat_eq_iff unat_div)
  then show ?thesis by (auto simp: managed_def tar_heap_def pmm_sample_free)
qed

text \<open>With at most 37 members the index fits a block, and there is one while a frame is free.\<close>

lemma initrd_init_ready:
  assumes inv: "heap_inv s bs" and img: "tar_image (hmem s) base sz 0 ts"
    and dj: "span base (unat sz) \<inter> managed (hpmm s) bs = {}"
    and mbi: "mbi_flags (hmem s) mbi AND push_bit 3 1 \<noteq> 0" "mbi_mods_count (hmem s) mbi \<noteq> 0"
      "base = mod_start (hmem s) (mbi_mods_addr (hmem s) mbi) 0"
      "sz = mod_end (hmem s) (mbi_mods_addr (hmem s) mbi) 0 - base"
  shows "\<exists>st s' bs'. initrd_init mbi s = Some (st, s') \<and> heap_inv s' bs' \<and> heap_frame s bs s' bs'
    \<and> live bs \<subseteq> live bs' \<and> (\<forall>c \<in> live bs. \<forall>x \<in> payload c. hmem s' x = hmem s x)
    \<and> initrd_base st = base \<and> index_owned st bs'
    \<and> (initrd_ready st \<noteq> 0 \<longrightarrow> indexed (hmem s') st (tar_files sz ts))
    \<and> (length (filter regular ts) \<le> 37 \<longrightarrow> free_set (hpmm s) \<noteq> {} \<longrightarrow> 0 \<notin> free_set (hpmm s) \<longrightarrow> initrd_ready st \<noteq> 0)"
proof -
  let ?n = "length (filter regular ts)"
  have small: "\<exists>p s'. kcalloc (of_nat ?n) sizeof_initrd_file s = Some (p, s') \<and> p \<noteq> 0"
    if "?n \<le> 37" "?n \<noteq> 0" "free_set (hpmm s) \<noteq> {}" "0 \<notin> free_set (hpmm s)"
  proof -
    have "unat (of_nat ?n :: u32) = ?n" using that(1) by (simp add: unat_of_nat)
    then show ?thesis using that unfolding sizeof_initrd_file_def
      by (intro kcalloc_small [OF inv]) (auto simp: word_unat_eq_iff)
  qed
  from initrd_init_spec [OF assms] obtain st s' bs' where
    r: "initrd_init mbi s = Some (st, s')" "heap_inv s' bs'" "heap_frame s bs s' bs'" "live bs \<subseteq> live bs'"
    "\<forall>c \<in> live bs. \<forall>x \<in> payload c. hmem s' x = hmem s x" "initrd_base st = base" "index_owned st bs'"
    "if initrd_ready st = 0 then filter regular ts \<noteq> []
         \<and> (\<exists>s1. kcalloc (of_nat ?n) sizeof_initrd_file s = Some (0, s1))
       else indexed (hmem s') st (tar_files sz ts)" by blast
  have "initrd_ready st \<noteq> 0" if "?n \<le> 37" "free_set (hpmm s) \<noteq> {}" "0 \<notin> free_set (hpmm s)"
    using r(8) small that by auto
  then show ?thesis using r by (intro exI [of _ st] exI [of _ s'] exI [of _ bs']) auto
qed

section \<open>Properties\<close>

text \<open>
  C4. For an archive in memory that neither the heap nor the frame allocator
  owns, \<open>initrd_init\<close> always returns and writes only into the heap. It becomes ready exactly with the
  index of the regular members whose contents lie within the archive, in archive order, stored inside
  one heap block of its own; it stays not ready only if the allocation of the index failed, which does
  not happen for at most 37 regular members while a frame is free.
\<close>

theorem initrd_init_builds_index:
  assumes inv: "heap_inv s bs" and img: "tar_image (hmem s) base sz 0 ts"
    and dj: "span base (unat sz) \<inter> managed (hpmm s) bs = {}"
    and mbi: "mbi_flags (hmem s) mbi AND push_bit 3 1 \<noteq> 0" "mbi_mods_count (hmem s) mbi \<noteq> 0"
      "base = mod_start (hmem s) (mbi_mods_addr (hmem s) mbi) 0"
      "sz = mod_end (hmem s) (mbi_mods_addr (hmem s) mbi) 0 - base"
  shows "\<exists>st s' bs'. initrd_init mbi s = Some (st, s') \<and> heap_inv s' bs' \<and> heap_frame s bs s' bs'
    \<and> live bs \<subseteq> live bs' \<and> (\<forall>c \<in> live bs. \<forall>x \<in> payload c. hmem s' x = hmem s x)
    \<and> initrd_base st = base \<and> index_owned st bs'
    \<and> (initrd_ready st \<noteq> 0 \<longrightarrow> indexed (hmem s') st (tar_files sz ts))
    \<and> (length (filter regular ts) \<le> 37 \<longrightarrow> free_set (hpmm s) \<noteq> {} \<longrightarrow> 0 \<notin> free_set (hpmm s) \<longrightarrow> initrd_ready st \<noteq> 0)"
  using initrd_init_ready [OF assms] .

theorem initrd_init_builds_index_witness:
  "heap_inv tar_heap [] \<and> tar_image (hmem tar_heap) 0x300000 0x400 0 [member_sample]
   \<and> (\<exists>st s' bs'. initrd_init 0x9000 tar_heap = Some (st, s') \<and> heap_inv s' bs'
        \<and> initrd_base st = 0x300000 \<and> indexed (hmem s') st [member_sample])"
proof -
  have m: "hmem tar_heap = tar_mem" by (simp add: tar_heap_def)
  have img: "tar_image (hmem tar_heap) 0x300000 0x400 0 [member_sample]" using tar_image_sample by (simp only: m)
  have boot: "mbi_flags (hmem tar_heap) 0x9000 AND push_bit 3 1 \<noteq> 0" "mbi_mods_count (hmem tar_heap) 0x9000 \<noteq> 0"
    "0x300000 = mod_start (hmem tar_heap) (mbi_mods_addr (hmem tar_heap) 0x9000) 0"
    "0x400 = mod_end (hmem tar_heap) (mbi_mods_addr (hmem tar_heap) 0x9000) 0 - 0x300000"
    by (simp_all add: m tar_heap_boot)
  have fr: "free_set (hpmm tar_heap) = {256}" by (simp add: tar_heap_def pmm_sample_free)
  obtain st s' bs' where r: "initrd_init 0x9000 tar_heap = Some (st, s')" "heap_inv s' bs'" "initrd_base st = 0x300000"
    "initrd_ready st \<noteq> 0 \<longrightarrow> indexed (hmem s') st (tar_files 0x400 [member_sample])"
    "length (filter regular [member_sample]) \<le> 37 \<longrightarrow> free_set (hpmm tar_heap) \<noteq> {}
      \<longrightarrow> 0 \<notin> free_set (hpmm tar_heap) \<longrightarrow> initrd_ready st \<noteq> 0"
    using initrd_init_builds_index [OF tar_heap_inv img tar_heap_apart boot] by blast
  have "initrd_ready st \<noteq> 0" using r(5) by (simp add: tar_files_sample(2) fr)
  then have "indexed (hmem s') st [member_sample]" using r(4) by (simp add: tar_files_sample)
  then show ?thesis using r(1-3) tar_heap_inv img by blast
qed

text \<open>
  C18. On an index of the members \<open>fs\<close> the lookups by name find the first member
  stored under exactly that name, compare nothing but the names, and return the address and the size
  of its contents; for a name that is not there they return null, 0 and leave the size alone.
\<close>

theorem initrd_lookup_by_name:
  assumes "indexed m st fs" and "str_at m name cs" and "name \<noteq> 0"
  shows "initrd_get_file_data m st name True = Some (case find (\<lambda>t. fname t = cs) fs of
      None \<Rightarrow> (0, None) | Some t \<Rightarrow> (initrd_base st + of_nat (toff t), Some (of_nat (tsize t))))
    \<and> initrd_get_file_size_by_name m st name True = Some (case find (\<lambda>t. fname t = cs) fs of
      None \<Rightarrow> (0, None) | Some t \<Rightarrow> (1, Some (of_nat (tsize t))))"
  using initrd_get_file_data_eq [OF assms, of True] initrd_get_file_size_by_name_eq [OF assms]
  by (simp add: lookup_def split: option.split)

text \<open>An index of one entry at \<open>0x5000\<close>; the name looked up is at \<open>0x6000\<close>.\<close>

definition index_mem :: mem where
  "index_mem = (\<lambda>_. 0)(0x5000 := 0x61, 0x5065 := 2, 0x5068 := 1, 0x6000 := 0x61)"

definition index_sample :: initrd where
  "index_sample = \<lparr>initrd_ready = 1, initrd_base = 0x300000, initrd_size = 0x400,
     initrd_files = 0x5000, initrd_files_count = 1\<rparr>"

lemma indexed_sample: "indexed index_mem index_sample [member_sample]"
  by (simp add: indexed_def index_sample_def member_sample_def file_entry_def entry_for_def entry_offset_def
      entry_size_def index_mem_def read_u32_def push_bit_eq_mult)

theorem initrd_lookup_by_name_witness:
  "indexed index_mem index_sample [member_sample] \<and> str_at index_mem 0x6000 [0x61]
   \<and> initrd_get_file_data index_mem index_sample 0x6000 True = Some (0x300200, Some 1)
   \<and> initrd_get_file_size_by_name index_mem index_sample 0x6000 True = Some (1, Some 1)"
  using initrd_lookup_by_name [OF indexed_sample, of "0x6000" "[0x61]"] indexed_sample
  by (simp add: index_mem_def fname_def member_sample_def index_sample_def)

text \<open>
  C19. \<open>initrd_count_prefix\<close> is the number of members whose stored name begins
  with the prefix, and \<open>initrd_get_file_name_by_prefix\<close> enumerates exactly those, in index order: every
  position below the count gives the name of that member, every other position null.
\<close>

theorem initrd_listing_by_prefix:
  assumes "indexed m st fs" and "str_at m pre ps" and "pre \<noteq> 0"
  shows "\<exists>p. initrd_count_prefix m st pre = Some (of_nat (length (listing fs ps)))
    \<and> initrd_get_file_name_by_prefix m st pre index = Some p
    \<and> (if unat index < length (listing fs ps)
       then p \<noteq> 0 \<and> str_at m p (fname (listing fs ps ! unat index)) else p = 0)"
  using initrd_count_prefix_eq [OF assms] initrd_get_file_name_by_prefix_eq [OF assms] by blast

theorem initrd_listing_by_prefix_witness:
  "indexed index_mem index_sample [member_sample]
   \<and> (\<exists>p. initrd_get_file_name_by_prefix index_mem index_sample 0x6000 0 = Some p \<and> str_at index_mem p [0x61])
   \<and> initrd_count_prefix index_mem index_sample 0x6000 = Some 1"
proof -
  have "str_at index_mem 0x6000 [0x61]" by (simp add: index_mem_def)
  moreover have "listing [member_sample] [0x61] = [member_sample]" "fname member_sample = [0x61]"
    by (simp_all add: listing_def fname_def member_sample_def)
  ultimately show ?thesis
    using initrd_listing_by_prefix [OF indexed_sample, of "0x6000" "[0x61]" 0] indexed_sample by auto
qed

text \<open>
  C34. Every 32-bit size written into a TAR size field as eleven octal digits and
  a terminating NUL or space is read back unchanged.
\<close>

theorem octal_size_roundtrip:
  assumes "octal_field m p n" and "n < 4294967296"
  shows "octal_to_u32 m p 12 = Some (of_nat n)"
  using assms by (rule octal_to_u32_eq)

definition octal_mem :: mem where
  "octal_mem p = (if p < 11 then 0x30 + of_nat (420 div 8 ^ (10 - unat p) mod 8) else 0)"

theorem octal_size_roundtrip_witness: "octal_field octal_mem 0 420 \<and> octal_to_u32 octal_mem 0 12 = Some 420"
proof -
  have "octal_field octal_mem 0 420"
    by (auto simp: octal_field_def octal_mem_def word_less_nat_alt unat_of_nat)
  then show ?thesis using octal_size_roundtrip [of octal_mem 0 420] by simp
qed

end
