(* ===== verification/Vfs.thy ===== *)
theory Vfs
  imports Initrd_Props
begin

text \<open>
  The virtual file layer, \<open>fs/vfs.c\<close>: handles on the contents of ramdisk files, read and positioned
  like a byte stream.
\<close>

section \<open>Handles\<close>

record vfs_file =
  vdata :: u32
  vsize :: u32
  vposition :: u32
  vvalid :: u8

definition vfs_closed :: vfs_file where
  "vfs_closed = \<lparr>vdata = 0, vsize = 0, vposition = 0, vvalid = 0\<rparr>"

definition VFS_SEEK_SET :: u32 where "VFS_SEEK_SET = 0"
definition VFS_SEEK_CUR :: u32 where "VFS_SEEK_CUR = 1"
definition VFS_SEEK_END :: u32 where "VFS_SEEK_END = 2"

section \<open>Operations\<close>

text \<open>
  A handle argument is a pointer: \<open>None\<close> is the null pointer, \<open>Some file\<close> points to \<open>file\<close>, and the
  operation returns the handle as it leaves it. \<open>vfs_open\<close> starts with \<open>size = 0\<close>.
\<close>

definition vfs_open :: "mem \<Rightarrow> initrd \<Rightarrow> u32 \<Rightarrow> vfs_file option" where
  "vfs_open m st path =
     do {
       (data, out) \<leftarrow> initrd_get_file_data m st path True;
       let size = (case out of None \<Rightarrow> 0 | Some v \<Rightarrow> v);
           file = \<lparr>vdata = 0, vsize = 0, vposition = 0, vvalid = 0\<rparr>
       in Some (if data \<noteq> 0 then file\<lparr>vdata := data, vsize := size, vvalid := 1\<rparr> else file)
     }"

definition vfs_read :: "vfs_file option \<Rightarrow> u32 \<Rightarrow> u32 \<Rightarrow> mem \<Rightarrow> u32 \<times> vfs_file option \<times> mem" where
  "vfs_read file buffer sz m =
     (case file of
        None \<Rightarrow> (0, file, m)
      | Some f \<Rightarrow>
          if buffer = 0 \<or> vvalid f = 0 \<or> sz = 0 then (0, file, m)
          else if vposition f \<ge> vsize f then (0, file, m)
          else
            let remaining = vsize f - vposition f;
                to_read = (if sz < remaining then sz else remaining);
                m = for_u32 0 to_read (\<lambda>i m. m(buffer + i := m (vdata f + (vposition f + i)))) m
            in (to_read, Some (f\<lparr>vposition := vposition f + to_read\<rparr>), m))"

text \<open>
  The 64-bit sums cannot overflow: the base is at most \<open>2 ^ 32\<close> and the offset a 32-bit integer.
\<close>

definition vfs_seek :: "vfs_file option \<Rightarrow> u32 \<Rightarrow> u32 \<Rightarrow> u32 \<times> vfs_file option" where
  "vfs_seek file offset whence =
     (case file of
        None \<Rightarrow> (- 1, file)
      | Some f \<Rightarrow>
          if vvalid f = 0 then (- 1, file)
          else
            case (if whence = VFS_SEEK_SET then Some 0
                  else if whence = VFS_SEEK_CUR then Some (uint (vposition f))
                  else if whence = VFS_SEEK_END then Some (uint (vsize f))
                  else None) of
              None \<Rightarrow> (- 1, file)
            | Some base \<Rightarrow>
                let target = base + sint offset
                in if target < 0 \<or> target > uint (vsize f) then (- 1, file)
                   else (word_of_int target, Some (f\<lparr>vposition := word_of_int target\<rparr>)))"

definition vfs_close :: "vfs_file option \<Rightarrow> vfs_file option" where
  "vfs_close file = map_option (\<lambda>f. f\<lparr>vdata := 0, vsize := 0, vposition := 0, vvalid := 0\<rparr>) file"

section \<open>Contents\<close>

definition bytes_at :: "mem \<Rightarrow> u32 \<Rightarrow> nat \<Rightarrow> u8 list" where
  "bytes_at m p n = map (\<lambda>i. m (p + of_nat i)) [0..<n]"

definition vfs_bytes :: "mem \<Rightarrow> vfs_file \<Rightarrow> u8 list" where
  "vfs_bytes m f = bytes_at m (vdata f) (unat (vsize f))"

text \<open>The invariant of a handle: the position never passes the end.\<close>

definition vfs_ok :: "vfs_file \<Rightarrow> bool" where
  "vfs_ok f \<longleftrightarrow> vposition f \<le> vsize f"

lemma length_bytes_at [simp]: "length (bytes_at m p n) = n"
  by (simp add: bytes_at_def)

lemma bytes_at_cong: "(\<And>x. x \<in> span p n \<Longrightarrow> m' x = m x) \<Longrightarrow> bytes_at m' p n = bytes_at m p n"
  by (auto simp: bytes_at_def span_of_nat)

lemma bytes_at_piece:
  assumes "k + j \<le> n"
  shows "take j (drop k (bytes_at m p n)) = bytes_at m (p + of_nat k) j"
  using assms by (intro nth_equalityI) (auto simp: bytes_at_def add.assoc)

lemma span_piece:
  assumes "k + j \<le> n" "n < 4294967296"
  shows "span (p + of_nat k) j \<subseteq> span p n"
proof
  fix x assume x: "x \<in> span (p + of_nat k) j"
  define i where "i = unat (x - p)"
  have i: "x = p + of_nat i" "i < 4294967296" using unat_less_2p32 [of "x - p"] by (simp_all add: i_def)
  with x have "k \<le> i \<and> i < k + j" using span_offset_iff [of i k j p] assms by simp
  then show "x \<in> span p n" using assms by (simp add: span_def i_def)
qed

section \<open>What the operations compute\<close>

text \<open>
  \<open>read_result\<close>: a read of \<open>n\<close> bytes copies the bytes from the position on, as many as asked for and
  available, to the buffer and nothing anywhere else.
\<close>

lemma vfs_read_spec:
  assumes ok: "vfs_ok f" "vvalid f \<noteq> 0" and buf: "buffer \<noteq> 0"
    and dj: "span buffer (unat n) \<inter> span (vdata f) (unat (vsize f)) = {}"
  shows "\<exists>m' k. k = min (unat n) (unat (vsize f) - unat (vposition f))
    \<and> vfs_read (Some f) buffer n m = (of_nat k, Some (f\<lparr>vposition := vposition f + of_nat k\<rparr>), m')
    \<and> bytes_at m' buffer k = take (unat n) (drop (unat (vposition f)) (vfs_bytes m f))
    \<and> (\<forall>x. x \<notin> span buffer k \<longrightarrow> m' x = m x)"
proof -
  let ?p = "unat (vposition f)" and ?s = "unat (vsize f)"
  have ps: "?p \<le> ?s" using ok(1) by (simp add: vfs_ok_def word_le_nat_alt)
  consider (none) "n = 0 \<or> ?s = ?p" | (some) "n \<noteq> 0" "?p < ?s" using ps by linarith
  then show ?thesis
  proof cases
    case none
    then have "vfs_read (Some f) buffer n m = (0, Some f, m)" using ps by (auto simp: vfs_read_def word_le_nat_alt)
    moreover have "min (unat n) (?s - ?p) = 0" using none by auto
    moreover have "take (unat n) (drop ?p (vfs_bytes m f)) = []" using none by (auto simp: vfs_bytes_def)
    ultimately show ?thesis by (intro exI [of _ m] exI [of _ 0]) (simp add: bytes_at_def)
  next
    case some
    define k where "k = (if n < vsize f - vposition f then n else vsize f - vposition f)"
    have k: "unat k = min (unat n) (?s - ?p)"
      unfolding k_def using unat_sub_le [of "vposition f" "vsize f"] ps by (auto simp: word_less_nat_alt)
    let ?src = "vdata f + vposition f"
    have src: "?src = vdata f + of_nat ?p" by simp
    have sub: "span ?src (unat k) \<subseteq> span (vdata f) ?s"
      unfolding src by (rule span_piece) (use k ps unat_less_2p32 [of "vsize f"] in auto)
    have "unat k \<le> unat n" using k by simp
    then have bsub: "span buffer (unat k) \<subseteq> span buffer (unat n)" by (rule span_mono)
    define m' where "m' = for_u32 0 k (\<lambda>i m. m(buffer + i := m (?src + i))) m"
    have m': "m' x = (if x \<in> span buffer (unat k) then m (?src + (x - buffer)) else m x)" for x
      unfolding m'_def by (rule for_u32_copy) (use sub bsub dj in blast)
    have "vfs_read (Some f) buffer n m = (k, Some (f\<lparr>vposition := vposition f + k\<rparr>), m')"
      unfolding m'_def k_def using some ok(2) buf by (simp add: vfs_read_def Let_def word_le_nat_alt add.assoc)
    moreover have "bytes_at m' buffer (unat k) = bytes_at m ?src (unat k)"
      by (rule nth_equalityI) (simp_all add: bytes_at_def m' span_of_nat)
    moreover have "bytes_at m ?src (unat k) = take (unat n) (drop ?p (vfs_bytes m f))"
    proof -
      have "bytes_at m ?src (unat k) = take (unat k) (drop ?p (vfs_bytes m f))"
        unfolding vfs_bytes_def src using k ps by (subst bytes_at_piece) auto
      then show ?thesis unfolding k by (simp add: vfs_bytes_def min_def)
    qed
    moreover have "\<forall>x. x \<notin> span buffer (unat k) \<longrightarrow> m' x = m x" using m' by simp
    ultimately have "vfs_read (Some f) buffer n m = (of_nat (unat k), Some (f\<lparr>vposition := vposition f + of_nat (unat k)\<rparr>), m')
        \<and> bytes_at m' buffer (unat k) = take (unat n) (drop ?p (vfs_bytes m f))
        \<and> (\<forall>x. x \<notin> span buffer (unat k) \<longrightarrow> m' x = m x)" by simp
    then show ?thesis unfolding k by blast
  qed
qed

lemma unat_seek_target:
  "0 \<le> t \<Longrightarrow> t \<le> uint (z :: u32) \<Longrightarrow> unat (word_of_int t :: u32) = nat t"
  using uint_lt2p [of z] by (simp add: unsigned_of_int take_bit_int_eq_self)

lemma vfs_seek_spec:
  assumes "vvalid f \<noteq> 0"
  shows "vfs_seek (Some f) offset whence =
    (case cursor_move (unat (vsize f)) offset whence (unat (vposition f)) of
       None \<Rightarrow> (- 1, Some f)
     | Some p \<Rightarrow> (of_nat p, Some (f\<lparr>vposition := of_nat p\<rparr>)))"
proof -
  have w: "whence > 2 \<longleftrightarrow> whence \<noteq> 0 \<and> whence \<noteq> 1 \<and> whence \<noteq> 2"
  proof -
    have "whence > 2 \<longleftrightarrow> \<not> unat whence \<le> 2" by (simp add: word_less_nat_alt not_le)
    also have "\<dots> \<longleftrightarrow> unat whence \<notin> {0, 1, 2}" by auto
    finally show ?thesis by (simp add: word_unat_eq_iff)
  qed
  show ?thesis
    using assms w
    by (auto simp: vfs_seek_def cursor_move_def VFS_SEEK_SET_def VFS_SEEK_CUR_def VFS_SEEK_END_def Let_def not_less)
qed

lemma vfs_open_spec:
  assumes "indexed m st fs" "str_at m path cs" "path \<noteq> 0"
    and "\<And>t. lookup fs cs = Some t \<Longrightarrow> initrd_base st + of_nat (toff t) \<noteq> 0"
  shows "vfs_open m st path = Some (case lookup fs cs of None \<Rightarrow> vfs_closed
    | Some t \<Rightarrow> \<lparr>vdata = initrd_base st + of_nat (toff t), vsize = of_nat (tsize t), vposition = 0, vvalid = 1\<rparr>)"
  using assms(4) initrd_get_file_data_eq [OF assms(1-3), of True]
  by (cases "lookup fs cs") (simp_all add: vfs_open_def vfs_closed_def)

lemma cursor_move_bound: "cursor_move len offset whence pos = Some p \<Longrightarrow> p \<le> len"
  by (auto simp: cursor_move_def Let_def split: if_splits)

section \<open>The position stays within the file\<close>

lemma vfs_open_ok: "vfs_open m st path = Some f \<Longrightarrow> vfs_ok f"
  by (auto simp: vfs_open_def vfs_ok_def Let_def bind_eq_Some_conv split: if_splits)

lemma vfs_read_ok:
  assumes ok: "vfs_ok f"
  shows "\<exists>k f' m'. vfs_read (Some f) buffer n m = (k, Some f', m') \<and> vfs_ok f' \<and> vvalid f' = vvalid f"
proof -
  have "vposition f + (if n < vsize f - vposition f then n else vsize f - vposition f) \<le> vsize f"
  proof (cases "n < vsize f - vposition f")
    case True
    have "unat (vposition f) \<le> unat (vsize f)" using ok by (simp add: vfs_ok_def word_le_nat_alt)
    moreover from this True have "unat n < unat (vsize f) - unat (vposition f)"
      by (simp add: word_less_nat_alt unat_sub_le)
    ultimately show ?thesis
      using True unat_less_2p32 [of "vsize f"] unat_add_nowrap [of "vposition f" n] by (simp add: word_le_nat_alt)
  qed simp
  then show ?thesis using ok by (simp add: vfs_read_def Let_def vfs_ok_def)
qed

lemma vfs_seek_ok:
  assumes "vfs_ok f"
  shows "\<exists>r f'. vfs_seek (Some f) offset whence = (r, Some f') \<and> vfs_ok f' \<and> vvalid f' = vvalid f"
proof (cases "vvalid f = 0")
  case False
  show ?thesis
  proof (cases "cursor_move (unat (vsize f)) offset whence (unat (vposition f))")
    case (Some p)
    have "p \<le> unat (vsize f)" using cursor_move_bound [OF Some] .
    then have "unat (of_nat p :: u32) \<le> unat (vsize f)"
      using unat_less_2p32 [of "vsize f"] by (simp add: unat_of_nat)
    then show ?thesis using Some vfs_seek_spec [OF False] by (simp add: vfs_ok_def word_le_nat_alt)
  qed (use assms vfs_seek_spec [OF False] in simp)
qed (use assms in \<open>simp add: vfs_seek_def\<close>)

section \<open>A handle is a byte stream\<close>

text \<open>The state of the stream is the handle and the memory; reads go to the buffer at \<open>buf\<close>.\<close>

definition read_into :: "u32 \<Rightarrow> u32 \<Rightarrow> vfs_file \<times> mem \<Rightarrow> u8 list \<times> vfs_file \<times> mem" where
  "read_into buf n s =
     (case vfs_read (Some (fst s)) buf n (snd s) of
        (k, Some f, m) \<Rightarrow> (bytes_at m buf (unat k), f, m)
      | (k, None, m) \<Rightarrow> ([], s))"

definition seek_to :: "u32 \<Rightarrow> u32 \<Rightarrow> vfs_file \<times> mem \<Rightarrow> vfs_file \<times> mem" where
  "seek_to offset whence s =
     (case vfs_seek (Some (fst s)) offset whence of (_, Some f) \<Rightarrow> (f, snd s) | (_, None) \<Rightarrow> s)"

definition stream_bytes :: "vfs_file \<times> mem \<Rightarrow> u8 list" where "stream_bytes s = vfs_bytes (snd s) (fst s)"

definition stream_pos :: "vfs_file \<times> mem \<Rightarrow> nat" where "stream_pos s = unat (vposition (fst s))"

definition stream_inv :: "u32 \<Rightarrow> nat \<Rightarrow> vfs_file \<times> mem \<Rightarrow> bool" where
  "stream_inv buf cap s \<longleftrightarrow> vfs_ok (fst s) \<and> vvalid (fst s) \<noteq> 0 \<and> buf \<noteq> 0
     \<and> span buf cap \<inter> span (vdata (fst s)) (unat (vsize (fst s))) = {}"

lemma read_into_law:
  assumes inv: "stream_inv buf cap s" and n: "unat n \<le> cap" and rd: "read_into buf n s = (bs, s')"
  shows "stream_inv buf cap s' \<and> stream_bytes s' = stream_bytes s
    \<and> bs = take (unat n) (drop (stream_pos s) (stream_bytes s)) \<and> stream_pos s' = stream_pos s + length bs"
proof -
  obtain f m where s: "s = (f, m)" by fastforce
  let ?k = "min (unat n) (unat (vsize f) - unat (vposition f))"
  have dj: "span buf (unat n) \<inter> span (vdata f) (unat (vsize f)) = {}"
    using inv span_mono [OF n, of buf] by (auto simp: stream_inv_def s)
  obtain m' where m': "vfs_read (Some f) buf n m = (of_nat ?k, Some (f\<lparr>vposition := vposition f + of_nat ?k\<rparr>), m')"
    "bytes_at m' buf ?k = take (unat n) (drop (unat (vposition f)) (vfs_bytes m f))"
    "\<And>x. x \<notin> span buf ?k \<Longrightarrow> m' x = m x"
    using vfs_read_spec [of f buf n m] inv dj by (auto simp: stream_inv_def s)
  have sz: "unat (vsize f) < 4294967296" by (rule unat_less_2p32)
  have le: "unat (vposition f) \<le> unat (vsize f)" using inv by (simp add: stream_inv_def s vfs_ok_def word_le_nat_alt)
  have k: "unat (of_nat ?k :: u32) = ?k" using sz by (simp add: unat_of_nat)
  then have pos: "unat (vposition f + of_nat ?k) = unat (vposition f) + ?k"
    using le sz unat_add_nowrap [of "vposition f" "of_nat ?k"] by simp
  have s': "bs = bytes_at m' buf ?k" "s' = (f\<lparr>vposition := vposition f + of_nat ?k\<rparr>, m')"
    using rd k by (auto simp: read_into_def s m'(1))
  have "span buf ?k \<subseteq> span buf (unat n)" by (rule span_mono) simp
  then have "vfs_bytes m' f = vfs_bytes m f"
    unfolding vfs_bytes_def by (intro bytes_at_cong m'(3)) (use dj in blast)
  then have "stream_bytes s' = stream_bytes s" by (simp add: stream_bytes_def s s'(2)) (simp add: vfs_bytes_def)
  moreover have "stream_inv buf cap s'" using inv pos le by (auto simp: stream_inv_def s s'(2) vfs_ok_def word_le_nat_alt)
  moreover have "stream_pos s' = stream_pos s + length bs" using pos by (simp add: stream_pos_def s s')
  moreover have "bs = take (unat n) (drop (stream_pos s) (stream_bytes s))"
    using m'(2) by (simp add: s'(1) stream_pos_def stream_bytes_def s)
  ultimately show ?thesis by blast
qed

lemma seek_to_law:
  assumes inv: "stream_inv buf cap s"
  shows "stream_inv buf cap (seek_to offset whence s) \<and> stream_bytes (seek_to offset whence s) = stream_bytes s
    \<and> stream_pos (seek_to offset whence s)
        = (case cursor_move (length (stream_bytes s)) offset whence (stream_pos s) of None \<Rightarrow> stream_pos s | Some p \<Rightarrow> p)"
proof -
  obtain f m where s: "s = (f, m)" by fastforce
  have v: "vvalid f \<noteq> 0" using inv by (simp add: stream_inv_def s)
  let ?c = "cursor_move (unat (vsize f)) offset whence (unat (vposition f))"
  have len: "length (stream_bytes s) = unat (vsize f)" by (simp add: stream_bytes_def vfs_bytes_def s)
  show ?thesis
  proof (cases ?c)
    case None
    then have "seek_to offset whence s = s" using vfs_seek_spec [OF v] by (simp add: seek_to_def s)
    then show ?thesis using None inv len by (simp add: stream_pos_def s)
  next
    case (Some p)
    then have st: "seek_to offset whence s = (f\<lparr>vposition := of_nat p\<rparr>, m)" using vfs_seek_spec [OF v] by (simp add: seek_to_def s)
    have "p \<le> unat (vsize f)" using cursor_move_bound [OF Some] .
    then have "unat (of_nat p :: u32) = p" using unat_less_2p32 [of "vsize f"] by (simp add: unat_of_nat)
    then show ?thesis unfolding st using Some inv len \<open>p \<le> unat (vsize f)\<close>
      by (simp add: stream_pos_def s stream_inv_def stream_bytes_def vfs_bytes_def vfs_ok_def word_le_nat_alt)
  qed
qed

interpretation vs: byte_stream "read_into buf" seek_to stream_bytes stream_pos "stream_inv buf cap" cap for buf cap
  by unfold_locales (use read_into_law seek_to_law in blast)+

section \<open>Properties\<close>

text \<open>A handle on the contents of the sample archive, with a buffer at \<open>0x7000\<close>.\<close>

definition file_sample :: vfs_file where
  "file_sample = \<lparr>vdata = 0x300200, vsize = 1, vposition = 0, vvalid = 1\<rparr>"

lemma file_sample_apart: "n \<le> 16 \<Longrightarrow> span 0x7000 n \<inter> span (vdata file_sample) (unat (vsize file_sample)) = {}"
  using span_nowrap [of "0x7000" n] span_nowrap [of "0x300200" 1] by (auto simp: file_sample_def)

lemma file_sample_inv: "stream_inv 0x7000 16 (file_sample, tar_mem)"
  using file_sample_apart [of 16] by (simp add: stream_inv_def) (simp add: file_sample_def vfs_ok_def)

lemma file_sample_bytes: "vfs_bytes tar_mem file_sample = [7]"
  by (simp add: vfs_bytes_def bytes_at_def file_sample_def tar_mem_def)

text \<open>
  Any sequence of reads and seeks on an open handle delivers exactly what the
  same sequence delivers on a cursor over the list of the bytes of the file, as long as no read can
  write over the file: short reads at the end, refused seeks and the position included.
\<close>

theorem vfs_refines_cursor:
  assumes "stream_inv buf cap (f, m)" and "\<And>n. Rd n \<in> set ops \<Longrightarrow> unat n \<le> cap"
    and "run_stream (read_into buf) seek_to ops (f, m) = (outs, f', m')"
  shows "cursor_run (vfs_bytes m f) ops (unat (vposition f)) = (outs, unat (vposition f'))
    \<and> vfs_bytes m' f' = vfs_bytes m f \<and> stream_inv buf cap (f', m')"
  using vs.run_refines [OF assms] by (simp add: stream_bytes_def stream_pos_def)

theorem vfs_refines_cursor_witness:
  "stream_inv 0x7000 16 (file_sample, tar_mem)
   \<and> fst (run_stream (read_into 0x7000) seek_to [Rd 4, Rd 4, Sk 0 0, Rd 4] (file_sample, tar_mem)) = [[7], [], [7]]"
proof -
  obtain outs f' m' where r: "run_stream (read_into 0x7000) seek_to [Rd 4, Rd 4, Sk 0 0, Rd 4] (file_sample, tar_mem)
    = (outs, f', m')" by (metis prod_cases3)
  have "cursor_run [7] [Rd 4, Rd 4, Sk 0 0, Rd 4] 0 = (outs, unat (vposition f'))"
    using vfs_refines_cursor [OF file_sample_inv _ r] unfolding file_sample_bytes by (simp add: file_sample_def)
  then have "outs = [[7], [], [7]]" by (simp add: cursor_move_def Let_def)
  with r file_sample_inv show ?thesis by simp
qed

text \<open>
  A read of \<open>n\<close> bytes returns the number of bytes it delivers, the
  smaller of \<open>n\<close> and what is left of the file; exactly that many bytes of the buffer are written, with
  the bytes of the file from the position on, nothing else in memory changes, and the position moves
  on by that number.
\<close>

theorem vfs_read_writes_buffer_only:
  assumes "vfs_ok f" and "vvalid f \<noteq> 0" and "buffer \<noteq> 0"
    and "span buffer (unat n) \<inter> span (vdata f) (unat (vsize f)) = {}"
  shows "\<exists>m' k. k = min (unat n) (unat (vsize f) - unat (vposition f))
    \<and> vfs_read (Some f) buffer n m = (of_nat k, Some (f\<lparr>vposition := vposition f + of_nat k\<rparr>), m')
    \<and> bytes_at m' buffer k = take (unat n) (drop (unat (vposition f)) (vfs_bytes m f))
    \<and> (\<forall>x. x \<notin> span buffer k \<longrightarrow> m' x = m x)"
  using assms by (rule vfs_read_spec)

theorem vfs_read_writes_buffer_only_witness:
  "vfs_ok file_sample \<and> (\<exists>m'. vfs_read (Some file_sample) 0x7000 16 tar_mem
     = (1, Some (file_sample\<lparr>vposition := 1\<rparr>), m') \<and> m' 0x7000 = 7 \<and> (\<forall>x. x \<notin> span 0x7000 1 \<longrightarrow> m' x = tar_mem x))"
proof -
  have f: "vfs_ok file_sample" "vvalid file_sample \<noteq> 0" "(0x7000 :: u32) \<noteq> 0"
    by (simp_all add: file_sample_def vfs_ok_def)
  have dj: "span 0x7000 (unat (16 :: u32)) \<inter> span (vdata file_sample) (unat (vsize file_sample)) = {}"
    by (rule file_sample_apart) simp
  from vfs_read_writes_buffer_only [OF f dj, of tar_mem, unfolded file_sample_bytes] obtain m' k where
    r: "k = min (unat (16 :: u32)) (unat (vsize file_sample) - unat (vposition file_sample))"
    "vfs_read (Some file_sample) 0x7000 16 tar_mem = (of_nat k, Some (file_sample\<lparr>vposition := vposition file_sample + of_nat k\<rparr>), m')"
    "bytes_at m' 0x7000 k = take (unat (16 :: u32)) (drop (unat (vposition file_sample)) [7])"
    "\<forall>x. x \<notin> span 0x7000 k \<longrightarrow> m' x = tar_mem x" by blast
  have k: "k = 1" "vposition file_sample = 0" using r(1) by (simp_all add: file_sample_def)
  have "m' 0x7000 = 7" using r(3) k by (simp add: bytes_at_def)
  then show ?thesis using r(2,4) k f(1) by auto
qed

text \<open>
  C33. Whatever the arguments, no operation moves the position of a handle past
  the end of its file: \<open>vfs_open\<close> starts at 0, and reads, seeks and \<open>vfs_close\<close> keep the position within.
\<close>

theorem vfs_position_within_file:
  "(vfs_open m st path = Some f \<longrightarrow> vfs_ok f)
   \<and> (vfs_ok f \<longrightarrow> pred_option vfs_ok (fst (snd (vfs_read (Some f) buffer n m)))
        \<and> pred_option vfs_ok (snd (vfs_seek (Some f) offset whence))
        \<and> pred_option vfs_ok (vfs_close (Some f)))"
  using vfs_open_ok vfs_read_ok [of f buffer n m] vfs_seek_ok [of f offset whence] by (auto simp: vfs_close_def vfs_ok_def)

theorem vfs_position_within_file_witness:
  "vfs_ok file_sample \<and> pred_option vfs_ok (snd (vfs_seek (Some file_sample) 1 0))
     \<and> pred_option vfs_ok (fst (snd (vfs_read (Some file_sample) 0x7000 5 tar_mem)))"
  using vfs_position_within_file [of tar_mem index_sample 0 file_sample "0x7000" 5 1 0]
  by (simp add: file_sample_def vfs_ok_def)

text \<open>
  Opening a name of the index and reading at least as many bytes as the file
  has puts the contents of the first member of that name into the buffer and returns their number; an
  unknown name gives an invalid handle, from which nothing is read.
\<close>

theorem vfs_reads_whole_file:
  assumes ix: "indexed m st fs" and path: "str_at m path cs" "path \<noteq> 0"
    and t: "\<And>t. t \<in> set fs \<Longrightarrow> initrd_base st + of_nat (toff t) \<noteq> 0 \<and> tsize t \<le> unat n"
    and buf: "buffer \<noteq> 0"
      "\<And>t. t \<in> set fs \<Longrightarrow> span buffer (unat n) \<inter> span (initrd_base st + of_nat (toff t)) (tsize t) = {}"
  shows "\<exists>f k g m'. vfs_open m st path = Some f \<and> vfs_read (Some f) buffer n m = (k, g, m')
    \<and> (case lookup fs cs of
         None \<Rightarrow> vvalid f = 0 \<and> k = 0 \<and> m' = m
       | Some t \<Rightarrow> k = of_nat (tsize t)
           \<and> bytes_at m' buffer (tsize t) = bytes_at m (initrd_base st + of_nat (toff t)) (tsize t)
           \<and> (\<forall>x. x \<notin> span buffer (tsize t) \<longrightarrow> m' x = m x))"
proof (cases "lookup fs cs")
  case None
  then have "vfs_open m st path = Some vfs_closed" using vfs_open_spec [OF ix path] by simp
  moreover have "vfs_read (Some vfs_closed) buffer n m = (0, Some vfs_closed, m)" by (simp add: vfs_read_def vfs_closed_def)
  ultimately show ?thesis using None by (simp add: vfs_closed_def)
next
  case (Some t)
  then have mem: "t \<in> set fs" by (auto simp: lookup_def find_Some_iff)
  let ?f = "\<lparr>vdata = initrd_base st + of_nat (toff t), vsize = of_nat (tsize t), vposition = 0, vvalid = 1\<rparr>"
  have sz: "unat (of_nat (tsize t) :: u32) = tsize t"
    using t [OF mem] unat_less_2p32 [of n] by (simp add: unat_of_nat)
  have open_f: "vfs_open m st path = Some ?f" using vfs_open_spec [OF ix path] t [OF mem] Some by simp
  have "\<exists>m'. vfs_read (Some ?f) buffer n m = (of_nat (tsize t), Some (?f\<lparr>vposition := of_nat (tsize t)\<rparr>), m')
    \<and> bytes_at m' buffer (tsize t) = vfs_bytes m ?f \<and> (\<forall>x. x \<notin> span buffer (tsize t) \<longrightarrow> m' x = m x)"
    using vfs_read_spec [of ?f buffer n m] buf(1) buf(2) [OF mem] t [OF mem] sz
    by (simp add: vfs_ok_def vfs_bytes_def min_absorb2)
  then show ?thesis using open_f Some sz by (fastforce simp: vfs_bytes_def)
qed

theorem vfs_reads_whole_file_witness:
  "indexed index_mem index_sample [member_sample] \<and> lookup [member_sample] [0x61] = Some member_sample
   \<and> (\<exists>f g m'. vfs_open index_mem index_sample 0x6000 = Some f \<and> vfs_read (Some f) 0x7000 16 index_mem = (1, g, m'))"
proof -
  have path: "str_at index_mem 0x6000 [0x61]" "(0x6000 :: u32) \<noteq> 0" by (simp_all add: index_mem_def)
  have lk: "lookup [member_sample] [0x61] = Some member_sample" by (simp add: lookup_def fname_def member_sample_def)
  have "\<exists>f k g m'. vfs_open index_mem index_sample 0x6000 = Some f \<and> vfs_read (Some f) 0x7000 16 index_mem = (k, g, m')
    \<and> (case lookup [member_sample] [0x61] of None \<Rightarrow> vvalid f = 0 \<and> k = 0 \<and> m' = index_mem
       | Some t \<Rightarrow> k = of_nat (tsize t)
           \<and> bytes_at m' 0x7000 (tsize t) = bytes_at index_mem (initrd_base index_sample + of_nat (toff t)) (tsize t)
           \<and> (\<forall>x. x \<notin> span 0x7000 (tsize t) \<longrightarrow> m' x = index_mem x))"
    using file_sample_apart [of 16]
    by (intro vfs_reads_whole_file [OF indexed_sample path])
      (simp_all add: index_sample_def member_sample_def file_sample_def)
  then show ?thesis using lk indexed_sample by (fastforce simp: member_sample_def)
qed

end
