(* ===== verification/Syscall.thy ===== *)
theory Syscall
  imports Vfs Keyboard
begin

text \<open>
  The system calls, \<open>proc/syscall.c\<close>: the table of eight file descriptors and the dispatcher behind
  \<open>int 0x80\<close>.
\<close>

section \<open>State\<close>

record fd_entry =
  fd_file :: vfs_file
  fd_used :: u8

text \<open>
  The state of the running kernel: memory with the heap, the ramdisk index, the console and ports, the
  keyboard, and the static \<open>fd_table\<close>. User pointers address the memory of the heap record; the text
  buffer and the static variables are not reachable through them.
\<close>

record kernel =
  kheap :: heap
  kinitrd :: initrd
  kio :: io
  kkbd :: kbd
  fd_table :: "fd_entry list"

definition FD_COUNT :: u32 where "FD_COUNT = 8"

definition fd_boot :: "fd_entry list" where
  "fd_boot = replicate 8 \<lparr>fd_file = vfs_closed, fd_used = 0\<rparr>"

definition kmem :: "kernel \<Rightarrow> mem" where "kmem s = hmem (kheap s)"

definition set_kmem :: "mem \<Rightarrow> kernel \<Rightarrow> kernel" where
  "set_kmem m s = s\<lparr>kheap := (kheap s)\<lparr>hmem := m\<rparr>\<rparr>"

definition fd_at :: "kernel \<Rightarrow> u32 \<Rightarrow> fd_entry" where "fd_at s i = fd_table s ! unat i"

definition set_fd :: "u32 \<Rightarrow> fd_entry \<Rightarrow> kernel \<Rightarrow> kernel" where
  "set_fd i e s = s\<lparr>fd_table := (fd_table s)[unat i := e]\<rparr>"

section \<open>Copying a string to the caller\<close>

function copy_cstr_loop :: "u32 \<Rightarrow> u32 \<Rightarrow> u32 \<Rightarrow> u32 \<Rightarrow> mem \<Rightarrow> u32 \<times> mem" where
  "copy_cstr_loop dst dst_len src i m =
     (if i + 1 < dst_len \<and> m (src + i) \<noteq> 0
      then copy_cstr_loop dst dst_len src (i + 1) (m(dst + i := m (src + i))) else (i, m))"
  by pat_completeness auto
termination
proof (relation "measure (\<lambda>(_, dst_len, _, i, _). unat dst_len - unat (i + 1))", goal_cases)
  case 1
  show ?case by simp
next
  case (2 dst dst_len src i m)
  then have "unat (i + 1 + 1) = Suc (unat (i + 1))" using unat_suc_less by blast
  moreover have "unat (i + 1) < unat dst_len" using 2 by (simp add: word_less_nat_alt)
  ultimately show ?case by simp
qed

declare copy_cstr_loop.simps [simp del]

definition copy_cstr_to_user :: "u32 \<Rightarrow> u32 \<Rightarrow> u32 \<Rightarrow> mem \<Rightarrow> u32 \<times> mem" where
  "copy_cstr_to_user dst dst_len src m =
     (if dst = 0 \<or> src = 0 \<or> dst_len = 0 then (- 1, m)
      else let (i, m) = copy_cstr_loop dst dst_len src 0 m in (i, m(dst + i := 0)))"

section \<open>The calls\<close>

definition sys_write :: "u32 \<Rightarrow> u32 \<Rightarrow> u32 \<Rightarrow> kernel \<Rightarrow> u32 \<times> kernel" where
  "sys_write fd buffer len s =
     (if fd \<noteq> 1 \<or> buffer = 0 then (0, s)
      else (len, s\<lparr>kio := for_u32 0 len (\<lambda>i. printc (kmem s (buffer + i))) (kio s)\<rparr>))"

definition sys_exit :: "u32 \<Rightarrow> kernel \<Rightarrow> u32 \<times> kernel" where
  "sys_exit code s = (0, s\<lparr>kio := println (chr_nl # lit ''[sys_exit]'') (kio s)\<rparr>)"

definition sys_open :: "u32 \<Rightarrow> kernel \<Rightarrow> (u32 \<times> kernel) option" where
  "sys_open path s =
     (if path = 0 then Some (- 1, s)
      else do {
        file \<leftarrow> vfs_open (kmem s) (kinitrd s) path;
        if vvalid file = 0 then Some (- 1, s)
        else do {
          r \<leftarrow> search_u32 0 FD_COUNT (\<lambda>i. Some (fd_used (fd_at s i) = 0));
          Some (case r of
              Some i \<Rightarrow> (3 + i, set_fd i \<lparr>fd_file = file, fd_used = 1\<rparr> s)
            | None \<Rightarrow> (- 1, s))
        }
      })"

definition sys_read :: "u32 \<Rightarrow> u32 \<Rightarrow> u32 \<Rightarrow> kernel \<Rightarrow> (u32 \<times> kernel) option" where
  "sys_read fd buffer len s =
     (if buffer = 0 \<or> len = 0 then Some (0, s)
      else if fd = 0 then
        do {
          r \<leftarrow> loop_u32 0 len (\<lambda>read_count (k, m).
                 Some (case keyboard_pop_char True k of
                         (None, k) \<Rightarrow> Inl (read_count, k, m)
                       | (Some c, k) \<Rightarrow> Inr (k, m(buffer + read_count := c)))) (kkbd s, kmem s);
          case r of
            Inl (read_count, k, m) \<Rightarrow> Some (read_count, set_kmem m (s\<lparr>kkbd := k\<rparr>))
          | Inr (k, m) \<Rightarrow> Some (len, set_kmem m (s\<lparr>kkbd := k\<rparr>))
        }
      else if fd < 3 then Some (- 1, s)
      else
        let idx = fd - 3
        in if idx \<ge> FD_COUNT \<or> fd_used (fd_at s idx) = 0 then Some (- 1, s)
           else case vfs_read (Some (fd_file (fd_at s idx))) buffer len (kmem s) of
               (n, Some f, m) \<Rightarrow> Some (n, set_fd idx ((fd_at s idx)\<lparr>fd_file := f\<rparr>) (set_kmem m s))
             | (n, None, m) \<Rightarrow> Some (n, set_kmem m s))"

definition sys_close :: "u32 \<Rightarrow> kernel \<Rightarrow> u32 \<times> kernel" where
  "sys_close fd s =
     (if fd < 3 then (- 1, s)
      else
        let idx = fd - 3
        in if idx \<ge> FD_COUNT \<or> fd_used (fd_at s idx) = 0 then (- 1, s)
           else case vfs_close (Some (fd_file (fd_at s idx))) of
               Some f \<Rightarrow> (0, set_fd idx \<lparr>fd_file = f, fd_used = 0\<rparr> s)
             | None \<Rightarrow> (0, s))"

definition sys_seek :: "u32 \<Rightarrow> u32 \<Rightarrow> u32 \<Rightarrow> kernel \<Rightarrow> u32 \<times> kernel" where
  "sys_seek fd offset whence s =
     (if fd < 3 then (- 1, s)
      else
        let idx = fd - 3
        in if idx \<ge> FD_COUNT \<or> fd_used (fd_at s idx) = 0 then (- 1, s)
           else case vfs_seek (Some (fd_file (fd_at s idx))) offset whence of
               (r, Some f) \<Rightarrow> (r, set_fd idx ((fd_at s idx)\<lparr>fd_file := f\<rparr>) s)
             | (r, None) \<Rightarrow> (r, s))"

definition sys_file_count :: "kernel \<Rightarrow> u32" where
  "sys_file_count s = (if initrd_is_ready (kinitrd s) = 0 then 0 else initrd_file_count (kinitrd s))"

text \<open>The result of a copy, in the kernel state.\<close>

definition copy_out :: "u32 \<Rightarrow> u32 \<Rightarrow> u32 \<Rightarrow> kernel \<Rightarrow> u32 \<times> kernel" where
  "copy_out buffer buffer_len name s =
     (let (r, m) = copy_cstr_to_user buffer buffer_len name (kmem s) in (r, set_kmem m s))"

definition sys_file_name :: "u32 \<Rightarrow> u32 \<Rightarrow> u32 \<Rightarrow> kernel \<Rightarrow> u32 \<times> kernel" where
  "sys_file_name index buffer buffer_len s =
     (if initrd_is_ready (kinitrd s) = 0 then (- 1, s)
      else
        let name = initrd_get_file_name (kinitrd s) index
        in if name = 0 then (- 1, s) else copy_out buffer buffer_len name s)"

text \<open>The local \<open>size\<close> is stored whenever the lookup returns non-zero.\<close>

definition sys_file_size :: "u32 \<Rightarrow> kernel \<Rightarrow> u32" where
  "sys_file_size index s =
     (case initrd_get_file_size (kmem s) (kinitrd s) index True of
        (r, out) \<Rightarrow> if r = 0 then - 1 else case out of Some v \<Rightarrow> v | None \<Rightarrow> 0)"

definition sys_file_size_by_name :: "u32 \<Rightarrow> kernel \<Rightarrow> u32 option" where
  "sys_file_size_by_name name s =
     do {
       (r, out) \<leftarrow> initrd_get_file_size_by_name (kmem s) (kinitrd s) name True;
       Some (if r = 0 then - 1 else case out of Some v \<Rightarrow> v | None \<Rightarrow> 0)
     }"

definition sys_file_count_prefix :: "u32 \<Rightarrow> kernel \<Rightarrow> u32 option" where
  "sys_file_count_prefix pre s = initrd_count_prefix (kmem s) (kinitrd s) pre"

definition sys_file_name_prefix :: "u32 \<Rightarrow> u32 \<Rightarrow> u32 \<Rightarrow> u32 \<Rightarrow> kernel \<Rightarrow> (u32 \<times> kernel) option" where
  "sys_file_name_prefix pre index buffer buffer_len s =
     do {
       name \<leftarrow> initrd_get_file_name_by_prefix (kmem s) (kinitrd s) pre index;
       Some (if name = 0 then (- 1, s) else copy_out buffer buffer_len name s)
     }"

section \<open>The dispatcher\<close>

definition SYS_EXIT :: u32 where "SYS_EXIT = 0"
definition SYS_WRITE :: u32 where "SYS_WRITE = 1"
definition SYS_READ :: u32 where "SYS_READ = 2"
definition SYS_OPEN :: u32 where "SYS_OPEN = 3"
definition SYS_CLOSE :: u32 where "SYS_CLOSE = 4"
definition SYS_SEEK :: u32 where "SYS_SEEK = 5"
definition SYS_FILE_COUNT :: u32 where "SYS_FILE_COUNT = 6"
definition SYS_FILE_NAME :: u32 where "SYS_FILE_NAME = 7"
definition SYS_FILE_SIZE :: u32 where "SYS_FILE_SIZE = 8"
definition SYS_FILE_SIZE_BY_NAME :: u32 where "SYS_FILE_SIZE_BY_NAME = 9"
definition SYS_FILE_COUNT_PREFIX :: u32 where "SYS_FILE_COUNT_PREFIX = 10"
definition SYS_FILE_NAME_PREFIX :: u32 where "SYS_FILE_NAME_PREFIX = 11"

definition with_state :: "kernel \<Rightarrow> u32 option \<Rightarrow> (u32 \<times> kernel) option" where
  "with_state s r = map_option (\<lambda>v. (v, s)) r"

definition syscall_dispatch ::
    "u32 \<Rightarrow> u32 \<Rightarrow> u32 \<Rightarrow> u32 \<Rightarrow> u32 \<Rightarrow> u32 \<Rightarrow> kernel \<Rightarrow> (u32 \<times> kernel) option" where
  "syscall_dispatch number arg1 arg2 arg3 arg4 arg5 s =
     (if number = SYS_EXIT then Some (sys_exit arg1 s)
      else if number = SYS_WRITE then Some (sys_write arg1 arg2 arg3 s)
      else if number = SYS_READ then sys_read arg1 arg2 arg3 s
      else if number = SYS_OPEN then sys_open arg1 s
      else if number = SYS_CLOSE then Some (sys_close arg1 s)
      else if number = SYS_SEEK then Some (sys_seek arg1 arg2 arg3 s)
      else if number = SYS_FILE_COUNT then Some (sys_file_count s, s)
      else if number = SYS_FILE_NAME then Some (sys_file_name arg1 arg2 arg3 s)
      else if number = SYS_FILE_SIZE then Some (sys_file_size arg1 s, s)
      else if number = SYS_FILE_SIZE_BY_NAME then with_state s (sys_file_size_by_name arg1 s)
      else if number = SYS_FILE_COUNT_PREFIX then with_state s (sys_file_count_prefix arg1 s)
      else if number = SYS_FILE_NAME_PREFIX then sys_file_name_prefix arg1 arg2 arg3 arg4 s
      else Some (- 1, s))"

end
