(* ===== verification/Syscall_Props.thy ===== *)
theory Syscall_Props
  imports Syscall
begin

text \<open>
  What the system calls promise: the descriptor table stays well formed, a descriptor behaves like the
  file it was opened on, names are copied within the caller's buffer, and typed characters are
  delivered in order.
\<close>

section \<open>Copying a string to the caller\<close>

lemma copy_cstr_loop_eq:
  assumes "str_at m (src + i) cs" and "i < dst_len"
    and "\<And>x. x \<in> span (src + i) (length cs + 1) \<Longrightarrow> x \<notin> span dst (unat dst_len)"
  shows "\<exists>m' k. k = min (unat dst_len - 1 - unat i) (length cs)
    \<and> copy_cstr_loop dst dst_len src i m = (i + of_nat k, m')
    \<and> (\<forall>j < k. m' (dst + i + of_nat j) = cs ! j) \<and> (\<forall>x. x \<notin> span (dst + i) k \<longrightarrow> m' x = m x)"
  using assms
proof (induction cs arbitrary: i m)
  case Nil
  then show ?case by (intro exI [of _ m]) (simp add: copy_cstr_loop.simps [of dst dst_len src i])
next
  case (Cons c cs)
  have ui: "unat i < unat dst_len" "unat dst_len < 4294967296"
    using Cons.prems(2) unat_less_2p32 by (simp_all add: word_less_nat_alt)
  have i1: "unat (i + 1) = Suc (unat i)" using unat_suc_less [OF Cons.prems(2)] .
  show ?case
  proof (cases "i + 1 < dst_len")
    case False
    then have "unat dst_len - 1 - unat i = 0" using i1 by (simp add: word_less_nat_alt)
    then show ?thesis using False
      by (intro exI [of _ m]) (simp add: copy_cstr_loop.simps [of dst dst_len src i])
  next
    case True
    let ?m1 = "m(dst + i := c)"
    have c: "m (src + i) = c" "c \<noteq> 0" "str_at m (src + (i + 1)) cs" using Cons.prems(1) by (simp_all add: add.assoc)
    have sub: "x \<in> span (src + i) (length (c # cs) + 1)" if "x \<in> span (src + (i + 1)) (length cs + 1)" for x
    proof -
      have "unat (x - (src + i) - 1) < length cs + 1" using that by (simp add: span_def algebra_simps)
      moreover have "unat (x - (src + i)) \<le> unat (x - (src + i) - 1) + 1"
        using unat_word_ariths(1) [of "x - (src + i) - 1" 1] by simp
      ultimately show ?thesis by (simp add: span_def)
    qed
    have "dst + i \<in> span dst (unat dst_len)" using ui by (simp add: span_def)
    then have "str_at ?m1 (src + (i + 1)) cs"
      using Cons.prems(3) sub by (intro str_at_cong [OF c(3)]) auto
    then obtain m' k where ih: "k = min (unat dst_len - 1 - unat (i + 1)) (length cs)"
      "copy_cstr_loop dst dst_len src (i + 1) ?m1 = (i + 1 + of_nat k, m')"
      "\<forall>j < k. m' (dst + (i + 1) + of_nat j) = cs ! j" "\<forall>x. x \<notin> span (dst + (i + 1)) k \<longrightarrow> m' x = ?m1 x"
      using Cons.IH [OF _ True, of ?m1] Cons.prems(3) sub by metis
    have k: "Suc k = min (unat dst_len - 1 - unat i) (length (c # cs))" "k < 4294967295"
      using ih(1) i1 ui True by (auto simp: word_less_nat_alt)
    have off: "x \<in> span (dst + (i + 1)) k \<longleftrightarrow> x \<in> span (dst + i) (Suc k) \<and> x \<noteq> dst + i" for x
    proof -
      define j where "j = unat (x - (dst + i))"
      have j: "x = dst + i + of_nat j" "j < 4294967296" using unat_less_2p32 [of "x - (dst + i)"] by (simp_all add: j_def)
      have "x = dst + i \<longleftrightarrow> j = 0" by (auto simp: j_def unat_eq_zero)
      moreover have "x \<in> span (dst + i + of_nat 1) k \<longleftrightarrow> 1 \<le> j \<and> j < 1 + k"
        using span_offset_iff [of j 1 k "dst + i"] k(2) j(2) unfolding j(1) [symmetric] by simp
      moreover have "x \<in> span (dst + i) (Suc k) \<longleftrightarrow> j < Suc k" by (simp add: span_def j_def)
      ultimately show ?thesis by (auto simp: add.assoc)
    qed
    have "copy_cstr_loop dst dst_len src i m = (i + of_nat (Suc k), m')"
      using ih(2) True c by (simp add: copy_cstr_loop.simps [of dst dst_len src i] add.assoc)
    moreover have "m' (dst + i + of_nat j) = (c # cs) ! j" if "j < Suc k" for j
    proof (cases j)
      case 0
      then show ?thesis using ih(4) off [of "dst + i"] by simp
    next
      case (Suc j')
      then show ?thesis using ih(3) that by (simp add: add.assoc)
    qed
    moreover have "m' x = m x" if "x \<notin> span (dst + i) (Suc k)" for x
      using ih(4) off [of x] that by (auto simp: span_def)
    ultimately show ?thesis using k(1) by (intro exI [of _ m'] exI [of _ "Suc k"]) simp
  qed
qed

lemma copy_cstr_to_user_spec:
  assumes "str_at m src cs" "dst \<noteq> 0" "src \<noteq> 0" "dst_len \<noteq> 0"
    and dj: "span dst (unat dst_len) \<inter> span src (length cs + 1) = {}"
  shows "\<exists>m' k. k = min (unat dst_len - 1) (length cs)
    \<and> copy_cstr_to_user dst dst_len src m = (of_nat k, m')
    \<and> str_at m' dst (take k cs) \<and> (\<forall>x. x \<notin> span dst (Suc k) \<longrightarrow> m' x = m x)"
proof -
  have pos: "0 < dst_len" using assms(4) by (simp add: word_neq_0_conv)
  obtain m1 k where l: "k = min (unat dst_len - 1) (length cs)" "copy_cstr_loop dst dst_len src 0 m = (of_nat k, m1)"
    "\<forall>j < k. m1 (dst + of_nat j) = cs ! j" "\<forall>x. x \<notin> span dst k \<longrightarrow> m1 x = m x"
    using copy_cstr_loop_eq [of m src 0 cs dst_len dst] assms(1) pos dj by auto
  let ?m' = "m1(dst + of_nat k := 0)"
  have "0 < unat dst_len" using pos by (simp add: word_less_nat_alt)
  then have k: "k < 4294967295" using l(1) unat_less_2p32 [of dst_len] by simp
  have "str_at ?m' dst (take k cs)"
  proof (rule str_atI)
    fix j assume "j < length (take k cs)"
    then have j: "j < k" "j < length cs" by auto
    then have "(of_nat j :: u32) \<noteq> of_nat k" using k by (auto simp: word_unat_eq_iff unat_of_nat)
    then show "?m' (dst + of_nat j) = take k cs ! j \<and> take k cs ! j \<noteq> 0"
      using l(3) j str_at_bytes [OF assms(1) j(2)] by simp
  qed (use l(1) in simp)
  moreover have "?m' x = m x" if "x \<notin> span dst (Suc k)" for x
  proof -
    have "dst + of_nat k \<in> span dst (Suc k)" by (rule span_of_nat) simp
    then have "x \<noteq> dst + of_nat k" using that by blast
    moreover have "x \<notin> span dst k" using that by (auto simp: span_def)
    ultimately show ?thesis using l(4) by simp
  qed
  ultimately show ?thesis using l(1,2) assms(2-4) by (intro exI [of _ ?m'] exI [of _ k]) (simp add: copy_cstr_to_user_def)
qed

section \<open>Reading the keyboard\<close>

lemma bytes_at_Suc: "bytes_at m p (Suc n) = bytes_at m p n @ [m (p + of_nat n)]"
  by (simp add: bytes_at_def)

lemma bytes_at_store:
  assumes "n < 4294967296"
  shows "bytes_at (m(p + of_nat n := c)) p n = bytes_at m p n"
proof (rule bytes_at_cong)
  fix x assume "x \<in> span p n"
  then have "x \<noteq> p + of_nat n" using span_offset_iff [of n 0 n p] assms by auto
  then show "(m(p + of_nat n := c)) x = m x" by simp
qed

text \<open>\<open>delivered k0 m0 buffer n k m\<close>: the first \<open>n\<close> typed characters are in the buffer and no longer queued.\<close>

definition delivered :: "kbd \<Rightarrow> mem \<Rightarrow> u32 \<Rightarrow> nat \<Rightarrow> kbd \<Rightarrow> mem \<Rightarrow> bool" where
  "delivered k0 m0 buffer n k m \<longleftrightarrow> kbd_wf k \<and> n \<le> length (typed k0) \<and> typed k = drop n (typed k0)
     \<and> bytes_at m buffer n = take n (typed k0) \<and> (\<forall>x. x \<notin> span buffer n \<longrightarrow> m x = m0 x)"

lemma delivered_step:
  assumes d: "delivered k0 m0 buffer n k m" and n: "n < length (typed k0)" "n < 4294967296"
  shows "\<exists>k'. keyboard_pop_char True k = (Some (typed k0 ! n), k')
    \<and> delivered k0 m0 buffer (Suc n) k' (m(buffer + of_nat n := typed k0 ! n))"
proof -
  obtain r k' where p: "keyboard_pop_char True k = (r, k')" by fastforce
  have "typed k = typed k0 ! n # drop (Suc n) (typed k0)" "kbd_wf k"
    using d n by (simp_all add: delivered_def Cons_nth_drop_Suc)
  then have r: "r = Some (typed k0 ! n)" "typed k' = drop (Suc n) (typed k0)" "kbd_wf k'"
    using typed_pop(1,3) [of k] p by auto
  have "buffer + of_nat n \<in> span buffer (Suc n)" by (rule span_of_nat) simp
  then have "\<forall>x. x \<notin> span buffer (Suc n) \<longrightarrow> (m(buffer + of_nat n := typed k0 ! n)) x = m0 x"
    using d by (auto simp: delivered_def span_def)
  then have "delivered k0 m0 buffer (Suc n) k' (m(buffer + of_nat n := typed k0 ! n))"
    using d n r unfolding delivered_def bytes_at_Suc bytes_at_store [OF n(2)] by (simp add: take_Suc_conv_app_nth)
  with p r(1) show ?thesis by simp
qed

lemma sys_read_keyboard_spec:
  assumes wf: "kbd_wf (kkbd s)" and a: "buffer \<noteq> 0" "len \<noteq> 0"
  shows "\<exists>n k m. n = min (unat len) (length (typed (kkbd s)))
    \<and> sys_read 0 buffer len s = Some (of_nat n, set_kmem m (s\<lparr>kkbd := k\<rparr>)) \<and> delivered (kkbd s) (kmem s) buffer n k m"
proof -
  let ?t = "typed (kkbd s)"
  let ?b = "\<lambda>read_count (k, m). Some (case keyboard_pop_char True k of
                         (None, k) \<Rightarrow> Inl (read_count, k, m)
                       | (Some c, k) \<Rightarrow> Inr (k, m(buffer + read_count := c)))"
  let ?P = "\<lambda>i (k, m). delivered (kkbd s) (kmem s) buffer (unat i) k m"
  let ?Q = "\<lambda>(n :: u32, k, m). delivered (kkbd s) (kmem s) buffer (unat n) k m \<and> unat n = length ?t \<and> unat n \<le> unat len"
  have "\<exists>r. loop_u32 0 len ?b (kkbd s, kmem s) = Some r \<and> (case r of Inl v \<Rightarrow> ?Q v | Inr t \<Rightarrow> ?P len t)"
  proof (rule loop_u32_invariant [where P = ?P and Q = ?Q])
    show "?P 0 (kkbd s, kmem s)" using wf by (simp add: delivered_def bytes_at_def)
    fix i km assume i: "i < len" "?P i km"
    obtain k m where km: "km = (k, m)" by fastforce
    have d: "delivered (kkbd s) (kmem s) buffer (unat i) k m" using i(2) km by simp
    show "\<exists>r. ?b i km = Some r \<and> (case r of Inl v \<Rightarrow> ?Q v | Inr t' \<Rightarrow> ?P (i + 1) t')"
    proof (cases "unat i < length ?t")
      case True
      from delivered_step [OF d this unat_less_2p32] show ?thesis
        using unat_suc_less [OF i(1)] km by auto
    next
      case False
      then have "typed k = []" "unat i = length ?t" "kbd_wf k" using d by (auto simp: delivered_def)
      then show ?thesis using typed_pop(2) [of k] d i(1) km by (simp add: word_less_nat_alt)
    qed
  qed simp
  then obtain r where r: "loop_u32 0 len ?b (kkbd s, kmem s) = Some r" "case r of Inl v \<Rightarrow> ?Q v | Inr t \<Rightarrow> ?P len t" by blast
  show ?thesis
  proof (cases r)
    case (Inl v)
    obtain n k m where v: "v = (n, k, m)" using prod_cases3 by blast
    have q: "delivered (kkbd s) (kmem s) buffer (unat n) k m" "unat n = length ?t" "unat n \<le> unat len" using r(2) Inl v by auto
    moreover have "sys_read 0 buffer len s = Some (n, set_kmem m (s\<lparr>kkbd := k\<rparr>))"
      using r(1) Inl v a by (simp add: sys_read_def)
    moreover have "min (unat len) (length ?t) = unat n" using q(2,3) by simp
    moreover have "of_nat (unat n) = n" by simp
    ultimately show ?thesis by metis
  next
    case (Inr v)
    obtain k m where v: "v = (k, m)" by fastforce
    have d: "delivered (kkbd s) (kmem s) buffer (unat len) k m" using r(2) Inr v by simp
    moreover have "sys_read 0 buffer len s = Some (len, set_kmem m (s\<lparr>kkbd := k\<rparr>))"
      using r(1) Inr v a by (simp add: sys_read_def)
    moreover have "min (unat len) (length ?t) = unat len" "of_nat (unat len) = len" using d by (simp_all add: delivered_def)
    ultimately show ?thesis by metis
  qed
qed

section \<open>The descriptor table\<close>

text \<open>
  A free descriptor holds a closed handle, one in use a valid handle whose position is within its file.
\<close>

definition fd_ok :: "fd_entry \<Rightarrow> bool" where
  "fd_ok e \<longleftrightarrow> (if fd_used e = 0 then fd_file e = vfs_closed else vvalid (fd_file e) \<noteq> 0 \<and> vfs_ok (fd_file e))"

definition fds_ok :: "kernel \<Rightarrow> bool" where
  "fds_ok s \<longleftrightarrow> length (fd_table s) = 8 \<and> (\<forall>i < 8. fd_ok (fd_table s ! i))"

definition fd_in_use :: "kernel \<Rightarrow> u32 \<Rightarrow> bool" where
  "fd_in_use s fd \<longleftrightarrow> 3 \<le> fd \<and> fd < 11 \<and> fd_used (fd_at s (fd - 3)) \<noteq> 0"

lemma kernel_simps [simp]:
  "fd_table (set_kmem m s) = fd_table s" "kmem (set_kmem m s) = m" "kio (set_kmem m s) = kio s" "kkbd (set_kmem m s) = kkbd s"
  "kinitrd (set_kmem m s) = kinitrd s" "kmem (set_fd i e s) = kmem s" "kinitrd (set_fd i e s) = kinitrd s"
  "kio (set_fd i e s) = kio s" "kkbd (set_fd i e s) = kkbd s" "fd_table (set_fd i e s) = (fd_table s)[unat i := e]"
  by (simp_all add: set_kmem_def kmem_def set_fd_def)

lemma fd_index:
  assumes "3 \<le> fd" "fd < 11"
  shows "unat (fd - 3 :: u32) = unat fd - 3" "unat (fd - 3) < 8" "\<not> fd - 3 \<ge> FD_COUNT" "\<not> fd < 3"
  using assms unat_sub_le [of 3 fd] by (auto simp: FD_COUNT_def word_le_nat_alt word_less_nat_alt)

lemma fd_checks: "fd < 3 \<or> fd - 3 \<ge> FD_COUNT \<or> fd_used (fd_at s (fd - 3)) = 0 \<longleftrightarrow> \<not> fd_in_use s fd"
proof (cases "fd < 3")
  case True
  then show ?thesis by (auto simp: fd_in_use_def)
next
  case False
  then have "unat (fd - 3) = unat fd - 3" using unat_sub_le [of 3 fd] by (simp add: word_less_nat_alt)
  then show ?thesis using False by (auto simp: fd_in_use_def FD_COUNT_def word_le_nat_alt word_less_nat_alt)
qed

lemma fds_ok_set:
  assumes "fds_ok s" "fd_ok e"
  shows "fds_ok (set_fd i e s)"
  using assms by (cases "unat i < 8") (auto simp: fds_ok_def nth_list_update)

lemma fds_ok_at: "fds_ok s \<Longrightarrow> fd_in_use s fd \<Longrightarrow>
    vvalid (fd_file (fd_at s (fd - 3))) \<noteq> 0 \<and> vfs_ok (fd_file (fd_at s (fd - 3)))"
  using fd_index(2) [of fd] by (auto simp: fds_ok_def fd_ok_def fd_in_use_def fd_at_def)

lemma fds_ok_cong: "fd_table s' = fd_table s \<Longrightarrow> fds_ok s' \<longleftrightarrow> fds_ok s"
  by (simp add: fds_ok_def)

lemma sys_close_eq:
  "sys_close fd s = (if fd_in_use s fd then (0, set_fd (fd - 3) \<lparr>fd_file = vfs_closed, fd_used = 0\<rparr> s) else (- 1, s))"
proof (cases "fd_in_use s fd")
  case True
  then have c: "\<not> fd < 3" "\<not> (fd - 3 \<ge> FD_COUNT \<or> fd_used (fd_at s (fd - 3)) = 0)" using fd_checks [of fd s] by auto
  have "vfs_close (Some f) = Some vfs_closed" for f
    by (cases f) (simp add: vfs_close_def vfs_closed_def)
  with c True show ?thesis by (simp add: sys_close_def Let_def)
next
  case False
  then show ?thesis using fd_checks [of fd s] by (auto simp: sys_close_def Let_def)
qed

lemma sys_seek_eq:
  "sys_seek fd offset whence s = (if fd_in_use s fd then
     case vfs_seek (Some (fd_file (fd_at s (fd - 3)))) offset whence of
               (r, Some f) \<Rightarrow> (r, set_fd (fd - 3) ((fd_at s (fd - 3))\<lparr>fd_file := f\<rparr>) s)
             | (r, None) \<Rightarrow> (r, s) else (- 1, s))"
  using fd_checks [of fd s] by (auto simp: sys_seek_def Let_def)

lemma sys_read_eq:
  assumes "buffer \<noteq> 0" "len \<noteq> 0" "fd \<noteq> 0"
  shows "sys_read fd buffer len s = Some (if fd_in_use s fd then
     case vfs_read (Some (fd_file (fd_at s (fd - 3)))) buffer len (kmem s) of
               (n, Some f, m) \<Rightarrow> (n, set_fd (fd - 3) ((fd_at s (fd - 3))\<lparr>fd_file := f\<rparr>) (set_kmem m s))
             | (n, None, m) \<Rightarrow> (n, set_kmem m s) else (- 1, s))"
proof (cases "fd_in_use s fd")
  case True
  then have c: "\<not> fd < 3" "\<not> (fd - 3 \<ge> FD_COUNT \<or> fd_used (fd_at s (fd - 3)) = 0)" using fd_checks [of fd s] by auto
  with True assms show ?thesis by (simp add: sys_read_def Let_def split: prod.split option.split)
next
  case False
  then show ?thesis using fd_checks [of fd s] assms by (auto simp: sys_read_def Let_def)
qed

lemma sys_open_spec:
  assumes "path \<noteq> 0" "vfs_open (kmem s) (kinitrd s) path = Some f" "vvalid f \<noteq> 0"
  shows "\<exists>r. sys_open path s = Some r \<and>
    ((\<forall>i < 8. fd_used (fd_table s ! i) \<noteq> 0) \<and> r = (- 1, s) \<or>
     (\<exists>i < 8. fd_used (fd_table s ! i) = 0 \<and> (\<forall>j < i. fd_used (fd_table s ! j) \<noteq> 0)
        \<and> r = (of_nat (3 + i), s\<lparr>fd_table := (fd_table s)[i := \<lparr>fd_file = f, fd_used = 1\<rparr>]\<rparr>)))"
proof -
  let ?P = "\<lambda>i :: u32. fd_used (fd_at s i) = 0"
  obtain r where r: "search_u32 0 FD_COUNT (\<lambda>i. Some (?P i)) = Some r"
    "case r of None \<Rightarrow> \<forall>i. 0 \<le> i \<longrightarrow> i < FD_COUNT \<longrightarrow> \<not> ?P i
     | Some i \<Rightarrow> 0 \<le> i \<and> i < FD_COUNT \<and> ?P i \<and> (\<forall>j. 0 \<le> j \<longrightarrow> j < i \<longrightarrow> \<not> ?P j)"
    using search_u32_total [of 0 FD_COUNT "\<lambda>i. Some (?P i)" ?P] by blast
  have used: "?P (of_nat j) \<longleftrightarrow> fd_used (fd_table s ! j) = 0" if "j < 8" for j
    using that by (simp add: fd_at_def unat_of_nat)
  show ?thesis
  proof (cases r)
    case None
    have "fd_used (fd_table s ! j) \<noteq> 0" if "j < 8" for j
    proof -
      have "(of_nat j :: u32) < FD_COUNT" using that by (simp add: FD_COUNT_def word_less_nat_alt unat_of_nat)
      then have "\<not> ?P (of_nat j)" using r(2) [unfolded None option.case, rule_format, of "of_nat j"] by simp
      then show ?thesis using used [OF that] by blast
    qed
    moreover have "sys_open path s = Some (- 1, s)" using assms r(1) None by (simp add: sys_open_def)
    ultimately show ?thesis by blast
  next
    case (Some i)
    have i: "unat i < 8" "?P i" using r(2) Some by (auto simp: FD_COUNT_def word_less_nat_alt)
    have low: "fd_used (fd_table s ! j) \<noteq> 0" if "j < unat i" for j
    proof -
      have "unat (of_nat j :: u32) = j" using that i(1) by (simp add: unat_of_nat)
      then have "(of_nat j :: u32) < i" using that by (simp add: word_less_nat_alt)
      then have "\<not> ?P (of_nat j)" using r(2) Some by simp
      then show ?thesis using used [of j] that i(1) by simp
    qed
    have "sys_open path s = Some (of_nat (3 + unat i), s\<lparr>fd_table := (fd_table s)[unat i := \<lparr>fd_file = f, fd_used = 1\<rparr>]\<rparr>)"
      using assms r(1) Some by (simp add: sys_open_def set_fd_def)
    then show ?thesis using i low by (auto simp: fd_at_def)
  qed
qed

lemma fd_ok_handle:
  assumes ok: "fds_ok s" and use: "fd_in_use s fd" and f: "vfs_ok f" "vvalid f = vvalid (fd_file (fd_at s (fd - 3)))"
  shows "fd_ok ((fd_at s (fd - 3))\<lparr>fd_file := f\<rparr>)"
  using fds_ok_at [OF ok use] use f by (simp add: fd_ok_def fd_in_use_def)

lemma sys_read_fds:
  assumes ok: "fds_ok s" and r: "sys_read fd buffer len s = Some (v, s')"
  shows "fds_ok s'"
proof -
  consider "buffer = 0 \<or> len = 0" | "buffer \<noteq> 0" "len \<noteq> 0" "fd = 0" | "buffer \<noteq> 0" "len \<noteq> 0" "fd \<noteq> 0" by blast
  then show ?thesis
  proof cases
    case 1
    then show ?thesis using ok r by (auto simp: sys_read_def)
  next
    case 2
    then obtain y where y: "(case y of
            Inl (read_count, k, m) \<Rightarrow> Some (read_count, set_kmem m (s\<lparr>kkbd := k\<rparr>))
          | Inr (k, m) \<Rightarrow> Some (len, set_kmem m (s\<lparr>kkbd := k\<rparr>))) = Some (v, s')"
      using r by (auto simp: sys_read_def bind_eq_Some_conv)
    then have "fd_table s' = fd_table s" by (cases y) (auto split: prod.splits)
    then show ?thesis using ok fds_ok_cong by blast
  next
    case 3
    show ?thesis
    proof (cases "fd_in_use s fd")
      case True
      let ?f = "fd_file (fd_at s (fd - 3))"
      obtain n f' m where rd: "vfs_read (Some ?f) buffer len (kmem s) = (n, Some f', m)" "vfs_ok f'" "vvalid f' = vvalid ?f"
        using vfs_read_ok [of ?f buffer len "kmem s"] fds_ok_at [OF ok True] by blast
      then have "s' = set_fd (fd - 3) ((fd_at s (fd - 3))\<lparr>fd_file := f'\<rparr>) (set_kmem m s)"
        using r True unfolding sys_read_eq [OF 3] by simp
      moreover have "fds_ok (set_kmem m s)" using ok by (simp add: fds_ok_def)
      ultimately show ?thesis using fds_ok_set fd_ok_handle [OF ok True rd(2,3)] by simp
    qed (use ok r sys_read_eq [OF 3] in simp)
  qed
qed

lemma sys_seek_fds:
  assumes ok: "fds_ok s"
  shows "fds_ok (snd (sys_seek fd offset whence s))"
proof (cases "fd_in_use s fd")
  case True
  let ?f = "fd_file (fd_at s (fd - 3))"
  obtain n f' where "vfs_seek (Some ?f) offset whence = (n, Some f')" "vfs_ok f'" "vvalid f' = vvalid ?f"
    using vfs_seek_ok [of ?f offset whence] fds_ok_at [OF ok True] by blast
  then show ?thesis using True fds_ok_set [OF ok] fd_ok_handle [OF ok True] by (simp add: sys_seek_eq)
qed (use ok in \<open>simp add: sys_seek_eq\<close>)

lemma sys_close_fds: "fds_ok s \<Longrightarrow> fds_ok (snd (sys_close fd s))"
  by (simp add: sys_close_eq fds_ok_set fd_ok_def)

lemma sys_open_fds:
  assumes ok: "fds_ok s" and r: "sys_open path s = Some (v, s')"
  shows "fds_ok s'"
proof (cases "path = 0 \<or> (\<exists>f. vfs_open (kmem s) (kinitrd s) path = Some f \<and> vvalid f = 0)")
  case True
  then show ?thesis using ok r by (auto simp: sys_open_def split: if_splits)
next
  case False
  then obtain f where f: "path \<noteq> 0" "vfs_open (kmem s) (kinitrd s) path = Some f" "vvalid f \<noteq> 0"
    using r by (cases "vfs_open (kmem s) (kinitrd s) path") (auto simp: sys_open_def)
  have "fd_ok \<lparr>fd_file = f, fd_used = 1\<rparr>" using f(3) vfs_open_ok [OF f(2)] by (simp add: fd_ok_def)
  then have "fds_ok (s\<lparr>fd_table := (fd_table s)[i := \<lparr>fd_file = f, fd_used = 1\<rparr>]\<rparr>)" for i
    using ok by (cases "i < 8") (auto simp: fds_ok_def nth_list_update)
  then show ?thesis using sys_open_spec [OF f] ok r by auto
qed

lemma copy_out_fds: "fd_table (snd (copy_out buffer len name s)) = fd_table s"
  by (simp add: copy_out_def split: prod.split)

lemma sys_name_fds:
  "fd_table (snd (sys_file_name index buffer len s)) = fd_table s"
  "sys_file_name_prefix pre index buffer len s = Some (v, s') \<Longrightarrow> fd_table s' = fd_table s"
  using copy_out_fds [of buffer len _ s]
  by (auto simp: sys_file_name_def sys_file_name_prefix_def Let_def bind_eq_Some_conv split: if_splits) (metis snd_conv)+

section \<open>A descriptor is a byte stream\<close>

text \<open>Reads and seeks of descriptor \<open>fd\<close> through the dispatcher; reads go to the buffer at \<open>buf\<close>.\<close>

definition fd_read :: "u32 \<Rightarrow> u32 \<Rightarrow> u32 \<Rightarrow> kernel \<Rightarrow> u8 list \<times> kernel" where
  "fd_read fd buf n s =
     (case syscall_dispatch SYS_READ fd buf n 0 0 s of
        Some (k, s') \<Rightarrow> (bytes_at (kmem s') buf (unat k), s') | None \<Rightarrow> ([], s))"

definition fd_seek :: "u32 \<Rightarrow> u32 \<Rightarrow> u32 \<Rightarrow> kernel \<Rightarrow> kernel" where
  "fd_seek fd offset whence s =
     (case syscall_dispatch SYS_SEEK fd offset whence 0 0 s of Some (_, s') \<Rightarrow> s' | None \<Rightarrow> s)"

definition fd_stream :: "u32 \<Rightarrow> kernel \<Rightarrow> vfs_file \<times> mem" where
  "fd_stream fd s = (fd_file (fd_at s (fd - 3)), kmem s)"

definition fd_inv :: "u32 \<Rightarrow> u32 \<Rightarrow> nat \<Rightarrow> kernel \<Rightarrow> bool" where
  "fd_inv fd buf cap s \<longleftrightarrow> length (fd_table s) = 8 \<and> fd_in_use s fd \<and> stream_inv buf cap (fd_stream fd s)"

lemma fd_stream_set:
  assumes "length (fd_table s) = 8" "fd_in_use s fd"
  shows "fd_stream fd (set_fd (fd - 3) ((fd_at s (fd - 3))\<lparr>fd_file := f\<rparr>) (set_kmem m s)) = (f, m)"
    and "fd_in_use (set_fd (fd - 3) ((fd_at s (fd - 3))\<lparr>fd_file := f\<rparr>) (set_kmem m s)) fd"
  using assms fd_index(2) [of fd] by (auto simp: fd_stream_def fd_in_use_def fd_at_def)

lemma fd_read_stream:
  assumes inv: "fd_inv fd buf cap s" and n: "n \<noteq> 0" and rd: "fd_read fd buf n s = (bs, s')"
  shows "read_into buf n (fd_stream fd s) = (bs, fd_stream fd s') \<and> length (fd_table s') = 8 \<and> fd_in_use s' fd"
proof -
  have use: "fd_in_use s fd" "length (fd_table s) = 8" "buf \<noteq> 0" using inv by (auto simp: fd_inv_def stream_inv_def)
  then have fd: "fd \<noteq> 0" by (auto simp: fd_in_use_def word_le_nat_alt)
  let ?f = "fd_file (fd_at s (fd - 3))"
  have ok: "vfs_ok ?f" using inv by (simp add: fd_inv_def stream_inv_def fd_stream_def)
  obtain k f' m where r: "vfs_read (Some ?f) buf n (kmem s) = (k, Some f', m)"
    using vfs_read_ok [OF ok, of buf n "kmem s"] by blast
  let ?s = "set_fd (fd - 3) ((fd_at s (fd - 3))\<lparr>fd_file := f'\<rparr>) (set_kmem m s)"
  have "sys_read fd buf n s = Some (k, ?s)" using sys_read_eq [OF use(3) n fd, of s] r use(1) by simp
  then have s': "bs = bytes_at m buf (unat k)" "s' = ?s"
    using rd by (auto simp: fd_read_def syscall_dispatch_def SYS_READ_def SYS_EXIT_def SYS_WRITE_def)
  have "read_into buf n (fd_stream fd s) = (bs, f', m)" using r s'(1) by (simp add: read_into_def fd_stream_def)
  then show ?thesis using fd_stream_set [OF use(2,1), of f' m] use(2) s'(2) by simp
qed

lemma fd_seek_stream:
  assumes inv: "fd_inv fd buf cap s"
  shows "fd_stream fd (fd_seek fd offset whence s) = seek_to offset whence (fd_stream fd s)
    \<and> length (fd_table (fd_seek fd offset whence s)) = 8 \<and> fd_in_use (fd_seek fd offset whence s) fd"
proof -
  have use: "fd_in_use s fd" "length (fd_table s) = 8" using inv by (auto simp: fd_inv_def)
  let ?f = "fd_file (fd_at s (fd - 3))"
  have ok: "vfs_ok ?f" using inv by (simp add: fd_inv_def stream_inv_def fd_stream_def)
  obtain k f' where r: "vfs_seek (Some ?f) offset whence = (k, Some f')"
    using vfs_seek_ok [OF ok, of offset whence] by blast
  have same: "set_kmem (kmem s) s = s" by (simp add: set_kmem_def kmem_def)
  have "fd_seek fd offset whence s = set_fd (fd - 3) ((fd_at s (fd - 3))\<lparr>fd_file := f'\<rparr>) s"
    using r use(1) by (simp add: fd_seek_def syscall_dispatch_def sys_seek_eq SYS_EXIT_def SYS_WRITE_def SYS_READ_def
        SYS_OPEN_def SYS_CLOSE_def SYS_SEEK_def)
  then show ?thesis
    using fd_stream_set [OF use(2,1), of f' "kmem s"] use(2) r unfolding same by (simp add: seek_to_def fd_stream_def)
qed

lemma fd_read_zero: "fd_read fd buf 0 s = ([], s)"
  by (simp add: fd_read_def syscall_dispatch_def sys_read_def SYS_READ_def SYS_EXIT_def SYS_WRITE_def bytes_at_def)

interpretation fdst: byte_stream "fd_read fd buf" "fd_seek fd" "\<lambda>s. stream_bytes (fd_stream fd s)"
  "\<lambda>s. stream_pos (fd_stream fd s)" "fd_inv fd buf cap" cap for fd buf cap
proof (unfold_locales, goal_cases)
  case (1 s n bs s')
  show ?case
  proof (cases "n = 0")
    case True
    then show ?thesis using 1 by (simp add: fd_read_zero)
  next
    case False
    from fd_read_stream [OF 1(1) False 1(3)] show ?thesis
      using read_into_law [OF _ 1(2), of buf "fd_stream fd s" bs "fd_stream fd s'"] 1(1) by (simp add: fd_inv_def)
  qed
next
  case (2 s offset whence)
  then show ?case
    using fd_seek_stream [OF 2] seek_to_law [of buf cap "fd_stream fd s"] by (simp add: fd_inv_def)
qed

section \<open>Properties\<close>

lemmas syscall_numbers = SYS_EXIT_def SYS_WRITE_def SYS_READ_def SYS_OPEN_def SYS_CLOSE_def SYS_SEEK_def SYS_FILE_COUNT_def
  SYS_FILE_NAME_def SYS_FILE_SIZE_def SYS_FILE_SIZE_BY_NAME_def SYS_FILE_COUNT_PREFIX_def SYS_FILE_NAME_PREFIX_def

text \<open>A kernel over the sample index, with no open file, and one with the sample file open as descriptor 3.\<close>

definition kernel_sample :: kernel where
  "kernel_sample = \<lparr>kheap = \<lparr>hmem = index_mem, hpmm = pmm_sample, heap_head = 0\<rparr>, kinitrd = index_sample,
     kio = io_sample, kkbd = kbd_boot, fd_table = fd_boot\<rparr>"

definition kernel_open :: kernel where
  "kernel_open = kernel_sample\<lparr>kheap := tar_heap, fd_table := fd_boot[0 := \<lparr>fd_file = file_sample, fd_used = 1\<rparr>]\<rparr>"

lemma kernel_sample_fds: "fds_ok kernel_sample" "fds_ok kernel_open"
proof -
  have "fd_ok (fd_boot ! i)" if "i < 8" for i using that by (simp add: fd_boot_def fd_ok_def)
  moreover have "fd_ok \<lparr>fd_file = file_sample, fd_used = 1\<rparr>" by (simp add: fd_ok_def file_sample_def vfs_ok_def)
  moreover have "length fd_boot = 8" by (simp add: fd_boot_def)
  ultimately show "fds_ok kernel_sample" "fds_ok kernel_open"
    by (auto simp: fds_ok_def kernel_sample_def kernel_open_def nth_list_update)
qed

lemma kernel_open_stream: "fd_stream 3 kernel_open = (file_sample, tar_mem)"
  by (simp add: fd_stream_def fd_at_def kernel_open_def kmem_def tar_heap_def fd_boot_def)

lemma kernel_open_inv: "fd_inv 3 0x7000 16 kernel_open"
proof -
  have "fd_in_use kernel_open 3" by (simp add: fd_in_use_def fd_at_def kernel_open_def fd_boot_def)
  moreover have "length (fd_table kernel_open) = 8" by (simp add: kernel_open_def fd_boot_def)
  ultimately show ?thesis using file_sample_inv by (simp add: fd_inv_def kernel_open_stream)
qed

text \<open>
  C11. Whatever its number and arguments, a system call that returns leaves
  the descriptor table well formed: eight entries, every descriptor in use a valid handle positioned
  within its file, every free one a closed handle.
\<close>

theorem syscalls_keep_descriptors:
  assumes ok: "fds_ok s" and r: "syscall_dispatch number a1 a2 a3 a4 a5 s = Some (v, s')"
  shows "fds_ok s'"
proof -
  have io: "fds_ok (s\<lparr>kio := x\<rparr>)" for x using ok by (simp add: fds_ok_def)
  have copy: "fds_ok t" if "fd_table t = fd_table s" for t using ok that by (simp add: fds_ok_def)
  have "fds_ok (snd (sys_exit a1 s))" "fds_ok (snd (sys_write a1 a2 a3 s))"
    using io ok by (simp_all add: sys_exit_def sys_write_def)
  moreover have "fds_ok (snd (sys_file_name a1 a2 a3 s))" using copy sys_name_fds(1) by blast
  moreover have "sys_file_name_prefix a1 a2 a3 a4 s = Some (v, s') \<Longrightarrow> fds_ok s'" using copy sys_name_fds(2) by blast
  moreover note sys_read_fds [OF ok, of a1 a2 a3] sys_open_fds [OF ok, of a1] sys_close_fds [OF ok, of a1] sys_seek_fds [OF ok, of a1 a2 a3]
  ultimately show ?thesis using r ok
    by (auto simp: syscall_dispatch_def with_state_def split: if_splits)
qed

theorem syscalls_keep_descriptors_witness:
  "fds_ok kernel_sample \<and> syscall_dispatch 4 3 0 0 0 0 kernel_sample = Some (- 1, kernel_sample) \<and> fds_ok kernel_sample"
proof -
  have d: "syscall_dispatch 4 3 0 0 0 0 kernel_sample = Some (- 1, kernel_sample)"
    by (simp add: syscall_dispatch_def syscall_numbers sys_close_eq fd_in_use_def fd_at_def kernel_sample_def fd_boot_def)
  show ?thesis using syscalls_keep_descriptors [OF kernel_sample_fds(1) d] d by simp
qed

text \<open>
  C7. Any sequence of \<open>SYS_READ\<close> and \<open>SYS_SEEK\<close> calls on one open descriptor
  delivers what the same sequence delivers on a cursor over the bytes of its file, and the descriptor
  stays open on the same bytes.
\<close>

theorem descriptor_refines_cursor:
  assumes "fd_inv fd buf cap s" and "\<And>n. Rd n \<in> set ops \<Longrightarrow> unat n \<le> cap"
    and "run_stream (fd_read fd buf) (fd_seek fd) ops s = (outs, s')"
  shows "cursor_run (stream_bytes (fd_stream fd s)) ops (stream_pos (fd_stream fd s)) = (outs, stream_pos (fd_stream fd s'))
    \<and> stream_bytes (fd_stream fd s') = stream_bytes (fd_stream fd s) \<and> fd_inv fd buf cap s'"
  using fdst.run_refines [OF assms] by simp

theorem descriptor_refines_cursor_witness:
  "fd_inv 3 0x7000 16 kernel_open
   \<and> fst (run_stream (fd_read 3 0x7000) (fd_seek 3) [Rd 4, Sk 0 0, Rd 1] kernel_open) = [[7], [7]]"
proof -
  obtain outs s' where r: "run_stream (fd_read 3 0x7000) (fd_seek 3) [Rd 4, Sk 0 0, Rd 1] kernel_open = (outs, s')" by fastforce
  have small: "unat n \<le> 16" if "Rd n \<in> set [Rd 4, Sk 0 0, Rd 1]" for n using that by auto
  have st: "stream_bytes (fd_stream 3 kernel_open) = [7]" "stream_pos (fd_stream 3 kernel_open) = 0"
    by (simp_all add: kernel_open_stream stream_bytes_def file_sample_bytes) (simp add: stream_pos_def file_sample_def)
  have "cursor_run [7] [Rd 4, Sk 0 0, Rd 1] 0 = (outs, stream_pos (fd_stream 3 s'))"
    using descriptor_refines_cursor [OF kernel_open_inv small r] unfolding st by blast
  then have "outs = [[7], [7]]" by (simp add: cursor_move_def Let_def)
  with r kernel_open_inv show ?thesis by simp
qed

text \<open>
  C23. \<open>SYS_OPEN\<close> of a name in the index takes the lowest free descriptor, which
  then stands for the contents of the first file of that name, read from its start; no other descriptor
  changes. It fails with \<open>-1\<close> and changes nothing when all eight are in use or the name is unknown.
\<close>

theorem sys_open_takes_lowest:
  assumes ix: "indexed (kmem s) (kinitrd s) fs" and path: "str_at (kmem s) path cs" "path \<noteq> 0"
    and t: "\<And>t. t \<in> set fs \<Longrightarrow> initrd_base (kinitrd s) + of_nat (toff t) \<noteq> 0"
  shows "\<exists>r. syscall_dispatch SYS_OPEN path a2 a3 a4 a5 s = Some r \<and>
    (case lookup fs cs of
       None \<Rightarrow> r = (- 1, s)
     | Some t \<Rightarrow>
         if \<forall>i < 8. fd_used (fd_table s ! i) \<noteq> 0 then r = (- 1, s)
         else \<exists>i < 8. fd_used (fd_table s ! i) = 0 \<and> (\<forall>j < i. fd_used (fd_table s ! j) \<noteq> 0)
           \<and> r = (of_nat (3 + i), s\<lparr>fd_table := (fd_table s)[i :=
                  \<lparr>fd_file = \<lparr>vdata = initrd_base (kinitrd s) + of_nat (toff t), vsize = of_nat (tsize t), vposition = 0, vvalid = 1\<rparr>,
                   fd_used = 1\<rparr>]\<rparr>))"
proof -
  have mem: "t \<in> set fs" if "lookup fs cs = Some t" for t using that by (auto simp: lookup_def find_Some_iff)
  have op: "vfs_open (kmem s) (kinitrd s) path = Some (case lookup fs cs of None \<Rightarrow> vfs_closed
    | Some t \<Rightarrow> \<lparr>vdata = initrd_base (kinitrd s) + of_nat (toff t), vsize = of_nat (tsize t), vposition = 0, vvalid = 1\<rparr>)"
    using vfs_open_spec [OF ix path] t mem by blast
  have d: "syscall_dispatch SYS_OPEN path a2 a3 a4 a5 s = sys_open path s" by (simp add: syscall_dispatch_def syscall_numbers)
  show ?thesis
  proof (cases "lookup fs cs")
    case None
    then show ?thesis using op path(2) unfolding d by (simp add: sys_open_def vfs_closed_def)
  next
    case (Some t)
    let ?f = "\<lparr>vdata = initrd_base (kinitrd s) + of_nat (toff t), vsize = of_nat (tsize t), vposition = 0, vvalid = 1\<rparr> :: vfs_file"
    from sys_open_spec [OF path(2), of s ?f] op Some obtain r where "sys_open path s = Some r"
      "(\<forall>i < 8. fd_used (fd_table s ! i) \<noteq> 0) \<and> r = (- 1, s) \<or>
       (\<exists>i < 8. fd_used (fd_table s ! i) = 0 \<and> (\<forall>j < i. fd_used (fd_table s ! j) \<noteq> 0)
        \<and> r = (of_nat (3 + i), s\<lparr>fd_table := (fd_table s)[i := \<lparr>fd_file = ?f, fd_used = 1\<rparr>]\<rparr>))" by auto
    then show ?thesis unfolding d Some option.case by (intro exI [of _ r]) (cases "\<forall>i < 8. fd_used (fd_table s ! i) \<noteq> 0"; auto)
  qed
qed

theorem sys_open_takes_lowest_witness:
  "indexed (kmem kernel_sample) (kinitrd kernel_sample) [member_sample]
   \<and> (\<exists>s'. syscall_dispatch SYS_OPEN 0x6000 0 0 0 0 kernel_sample = Some (3, s'))"
proof -
  have k: "kmem kernel_sample = index_mem" "kinitrd kernel_sample = index_sample" "fd_table kernel_sample = fd_boot"
    by (simp_all add: kernel_sample_def kmem_def)
  have ix: "indexed (kmem kernel_sample) (kinitrd kernel_sample) [member_sample]" using indexed_sample by (simp add: k)
  have p: "str_at (kmem kernel_sample) 0x6000 [0x61]" "(0x6000 :: u32) \<noteq> 0" by (simp_all add: k index_mem_def)
  have lk: "lookup [member_sample] [0x61] = Some member_sample" by (simp add: lookup_def fname_def member_sample_def)
  have base: "t \<in> set [member_sample] \<Longrightarrow> initrd_base (kinitrd kernel_sample) + of_nat (toff t) \<noteq> 0" for t
    by (simp add: k index_sample_def member_sample_def)
  have u: "i < 8 \<Longrightarrow> fd_used (fd_boot ! i) = 0" for i by (simp add: fd_boot_def)
  have free: "\<not> (\<forall>i < 8. fd_used (fd_boot ! i) \<noteq> 0)" using u zero_less_numeral by blast
  obtain r where r: "syscall_dispatch SYS_OPEN 0x6000 0 0 0 0 kernel_sample = Some r"
    "\<exists>i < 8. (\<forall>j < i. fd_used (fd_boot ! j) \<noteq> 0) \<and> fst r = of_nat (3 + i)"
    using sys_open_takes_lowest [OF ix p base, of 0 0 0 0] u [of 0] unfolding lk option.case k if_not_P [OF free] by fastforce
  then obtain i where "i < 8" "\<forall>j < i. fd_used (fd_boot ! j) \<noteq> 0" "fst r = of_nat (3 + i)" by blast
  moreover from this have "i = 0" using u [of 0] by (cases i) auto
  ultimately have "fst r = 3" by simp
  with r(1) ix show ?thesis by (metis prod.collapse)
qed

text \<open>
  C24. \<open>SYS_READ\<close> from descriptor 0 never waits: it delivers the typed characters that
  are there, in the order typed, as many as asked for, and leaves the others queued; only the bytes it
  reports are written.
\<close>

theorem sys_read_keyboard:
  assumes "kbd_wf (kkbd s)" and "buffer \<noteq> 0" and "len \<noteq> 0"
  shows "\<exists>n s'. n = min (unat len) (length (typed (kkbd s)))
    \<and> syscall_dispatch SYS_READ 0 buffer len a4 a5 s = Some (of_nat n, s')
    \<and> bytes_at (kmem s') buffer n = take n (typed (kkbd s)) \<and> typed (kkbd s') = drop n (typed (kkbd s)) \<and> kbd_wf (kkbd s')
    \<and> (\<forall>x. x \<notin> span buffer n \<longrightarrow> kmem s' x = kmem s x) \<and> fd_table s' = fd_table s"
proof -
  obtain n k m where r: "n = min (unat len) (length (typed (kkbd s)))"
    "sys_read 0 buffer len s = Some (of_nat n, set_kmem m (s\<lparr>kkbd := k\<rparr>))" "delivered (kkbd s) (kmem s) buffer n k m"
    using sys_read_keyboard_spec [OF assms] by blast
  then show ?thesis
    by (intro exI [of _ n] exI [of _ "set_kmem m (s\<lparr>kkbd := k\<rparr>)"])
      (simp add: syscall_dispatch_def syscall_numbers delivered_def)
qed

theorem sys_read_keyboard_witness:
  "kbd_wf (kkbd kernel_sample) \<and> (\<exists>s'. syscall_dispatch SYS_READ 0 0x7000 4 0 0 (kernel_sample\<lparr>kkbd := keyboard_push_char 104 kbd_boot\<rparr>) = Some (1, s')
     \<and> kmem s' 0x7000 = 104)"
proof -
  have wf: "kbd_wf kbd_boot" "typed kbd_boot = []" by (simp_all add: kbd_wf_def kbd_boot_def typed_def pending_def)
  let ?s = "kernel_sample\<lparr>kkbd := keyboard_push_char 104 kbd_boot\<rparr>"
  have k: "kbd_wf (kkbd ?s)" "typed (kkbd ?s) = [104]" using typed_push [OF wf(1), of 104] wf(2) by simp_all
  from sys_read_keyboard [OF k(1), of "0x7000" 4 0 0] obtain n s' where
    "n = min (unat (4 :: u32)) (length (typed (kkbd ?s)))" "syscall_dispatch SYS_READ 0 0x7000 4 0 0 ?s = Some (of_nat n, s')"
    "bytes_at (kmem s') 0x7000 n = take n (typed (kkbd ?s))" by auto
  with k(2) wf(1) show ?thesis by (auto simp: bytes_at_def kernel_sample_def)
qed

text \<open>
  C25. \<open>SYS_FILE_NAME\<close> of a position in the index writes the name, cut to fit and
  always terminated, into the caller's buffer, never more than \<open>buffer_len\<close> bytes, and returns its
  length; of any other position it returns \<open>-1\<close> and writes nothing.
\<close>

theorem sys_file_name_copies:
  assumes ix: "indexed (kmem s) (kinitrd s) fs" and buf: "buffer \<noteq> 0" "buffer_len \<noteq> 0"
    and dj: "\<And>i. span buffer (unat buffer_len) \<inter> span (initrd_get_file_name (kinitrd s) i) 100 = {}"
  shows "\<exists>v s'. syscall_dispatch SYS_FILE_NAME index buffer buffer_len a4 a5 s = Some (v, s') \<and>
    (if unat index < length fs then
       let name = fname (fs ! unat index); k = min (unat buffer_len - 1) (length name)
       in v = of_nat k \<and> str_at (kmem s') buffer (take k name) \<and> (\<forall>x. x \<notin> span buffer (Suc k) \<longrightarrow> kmem s' x = kmem s x)
     else v = - 1 \<and> s' = s)"
proof -
  have d: "syscall_dispatch SYS_FILE_NAME index buffer buffer_len a4 a5 s = Some (sys_file_name index buffer buffer_len s)"
    by (simp add: syscall_dispatch_def syscall_numbers)
  have rdy: "initrd_is_ready (kinitrd s) \<noteq> 0" using ix by (simp add: initrd_is_ready_def indexed_def)
  note nm = initrd_get_file_name_eq [OF ix, of index]
  let ?p = "initrd_get_file_name (kinitrd s) index"
  show ?thesis
  proof (cases "unat index < length fs")
    case False
    with nm rdy show ?thesis unfolding d by (simp add: sys_file_name_def)
  next
    case True
    let ?n = "fname (fs ! unat index)"
    have p: "?p \<noteq> 0" "str_at (kmem s) ?p ?n" using nm True by simp_all
    have "length ?n + 1 \<le> 100" by (simp add: fname_def)
    then have "span ?p (length ?n + 1) \<subseteq> span ?p 100" by (rule span_mono)
    then have "span buffer (unat buffer_len) \<inter> span ?p (length ?n + 1) = {}" using dj [of index] by blast
    from copy_cstr_to_user_spec [OF p(2) buf(1) p(1) buf(2) this] obtain m' k where
      c: "k = min (unat buffer_len - 1) (length ?n)" "copy_cstr_to_user buffer buffer_len ?p (kmem s) = (of_nat k, m')"
      "str_at m' buffer (take k ?n)" "\<forall>x. x \<notin> span buffer (Suc k) \<longrightarrow> m' x = kmem s x" by blast
    have "sys_file_name index buffer buffer_len s = (of_nat k, set_kmem m' s)"
      using p(1) c(2) rdy by (simp add: sys_file_name_def copy_out_def)
    then show ?thesis using True c unfolding d by (simp add: Let_def)
  qed
qed

theorem sys_file_name_copies_witness:
  "indexed (kmem kernel_sample) (kinitrd kernel_sample) [member_sample]
   \<and> (\<exists>s'. syscall_dispatch SYS_FILE_NAME 0 0x7000 32 0 0 kernel_sample = Some (1, s') \<and> str_at (kmem s') 0x7000 [0x61])"
proof -
  have k: "kmem kernel_sample = index_mem" "kinitrd kernel_sample = index_sample" by (simp_all add: kernel_sample_def kmem_def)
  have ix: "indexed (kmem kernel_sample) (kinitrd kernel_sample) [member_sample]" using indexed_sample by (simp add: k)
  have dj: "span 0x7000 (unat (32 :: u32)) \<inter> span (initrd_get_file_name (kinitrd kernel_sample) i) 100 = {}" for i
  proof -
    have "initrd_get_file_name index_sample i = 0 \<or> initrd_get_file_name index_sample i = 0x5000"
      by (auto simp: initrd_get_file_name_def index_sample_def file_entry_def word_le_nat_alt not_le unat_eq_zero)
    then show ?thesis using span_nowrap [of "0x7000" 32] span_nowrap [of "0x5000" 100] span_nowrap [of 0 100]
      by (auto simp: k)
  qed
  have "fname member_sample = [0x61]" by (simp add: fname_def member_sample_def)
  with sys_file_name_copies [OF ix _ _ dj, of 0 0 0] ix show ?thesis by (auto simp: Let_def)
qed

text \<open>
  C26. A call with an unknown number, and a seek or close of a descriptor that is
  not open, returns \<open>-1\<close> and changes nothing. A read with a null buffer or length 0 returns 0 and changes nothing,
  whatever the descriptor; any other read of a descriptor that is neither open nor 0, the keyboard, returns \<open>-1\<close> and
  changes nothing. Closing an open descriptor frees it and no other: a second close fails.
\<close>

theorem syscalls_reject_bad_descriptors:
  "(number > 11 \<longrightarrow> syscall_dispatch number a1 a2 a3 a4 a5 s = Some (- 1, s))
   \<and> (\<not> fd_in_use s fd \<longrightarrow>
        syscall_dispatch SYS_CLOSE fd a2 a3 a4 a5 s = Some (- 1, s)
        \<and> syscall_dispatch SYS_SEEK fd a2 a3 a4 a5 s = Some (- 1, s)
        \<and> (fd \<noteq> 0 \<and> a2 \<noteq> 0 \<and> a3 \<noteq> 0 \<longrightarrow> syscall_dispatch SYS_READ fd a2 a3 a4 a5 s = Some (- 1, s)))
   \<and> (a2 = 0 \<or> a3 = 0 \<longrightarrow> syscall_dispatch SYS_READ fd a2 a3 a4 a5 s = Some (0, s))
   \<and> (fds_ok s \<and> fd_in_use s fd \<longrightarrow> (\<exists>s'. syscall_dispatch SYS_CLOSE fd a2 a3 a4 a5 s = Some (0, s')
        \<and> (\<forall>g. fd_in_use s' g \<longleftrightarrow> fd_in_use s g \<and> g \<noteq> fd)))"
proof -
  have "number \<notin> {0, 1, 2, 3, 4, 5, 6, 7, 8, 9, 10, 11}" if "number > 11" using that by (auto simp: word_less_nat_alt)
  then have "syscall_dispatch number a1 a2 a3 a4 a5 s = Some (- 1, s)" if "number > 11"
    using that by (simp add: syscall_dispatch_def syscall_numbers)
  moreover have "\<exists>s'. syscall_dispatch SYS_CLOSE fd a2 a3 a4 a5 s = Some (0, s')
      \<and> (\<forall>g. fd_in_use s' g \<longleftrightarrow> fd_in_use s g \<and> g \<noteq> fd)" if ok: "fds_ok s" "fd_in_use s fd"
  proof -
    let ?s = "set_fd (fd - 3) \<lparr>fd_file = vfs_closed, fd_used = 0\<rparr> s"
    have fd: "3 \<le> fd" "fd < 11" "length (fd_table s) = 8" using ok by (simp_all add: fd_in_use_def fds_ok_def)
    have "fd_in_use ?s g \<longleftrightarrow> fd_in_use s g \<and> g \<noteq> fd" for g
    proof (cases "3 \<le> g \<and> g < 11")
      case True
      then have "unat (fd - 3) = unat (g - 3) \<longleftrightarrow> g = fd"
        using fd_index(1) [OF fd(1,2)] fd_index(1) [of g] fd(1) by (auto simp: word_le_nat_alt word_unat_eq_iff)
      then show ?thesis using True fd_index(2) [of g] fd by (auto simp: fd_in_use_def fd_at_def nth_list_update)
    qed (auto simp: fd_in_use_def)
    then show ?thesis using ok(2) by (simp add: syscall_dispatch_def syscall_numbers sys_close_eq)
  qed
  moreover have "syscall_dispatch SYS_READ fd a2 a3 a4 a5 s = Some (0, s)" if "a2 = 0 \<or> a3 = 0"
    using that by (auto simp: syscall_dispatch_def syscall_numbers sys_read_def)
  moreover have "syscall_dispatch SYS_CLOSE fd a2 a3 a4 a5 s = Some (- 1, s) \<and> syscall_dispatch SYS_SEEK fd a2 a3 a4 a5 s = Some (- 1, s)
      \<and> (fd \<noteq> 0 \<and> a2 \<noteq> 0 \<and> a3 \<noteq> 0 \<longrightarrow> syscall_dispatch SYS_READ fd a2 a3 a4 a5 s = Some (- 1, s))" if "\<not> fd_in_use s fd"
    using that by (simp add: syscall_dispatch_def syscall_numbers sys_close_eq sys_seek_eq sys_read_eq)
  ultimately show ?thesis by blast
qed

theorem syscalls_reject_bad_descriptors_witness:
  "\<not> fd_in_use kernel_sample 5 \<and> syscall_dispatch SYS_CLOSE 5 0 0 0 0 kernel_sample = Some (- 1, kernel_sample)
   \<and> syscall_dispatch SYS_READ 5 0 0 0 0 kernel_sample = Some (0, kernel_sample)
   \<and> syscall_dispatch 99 0 0 0 0 0 kernel_sample = Some (- 1, kernel_sample)"
proof -
  have "\<not> fd_in_use kernel_sample 5" by (simp add: fd_in_use_def fd_at_def kernel_sample_def fd_boot_def)
  then show ?thesis using syscalls_reject_bad_descriptors [of 99 0 0 0 0 0 kernel_sample 5] by simp
qed

end
