(* ===== verification/Elf.thy ===== *)
theory Elf
  imports Vfs Paging
begin

text \<open>
  The program loader, \<open>proc/elf.c\<close>: validation of ELF32 images in ramdisk files, and the three loaders,
  two into kernel heap blocks and one to the addresses the image asks for.
\<close>

section \<open>Image headers\<close>

text \<open>
  \<open>elf32_ehdr_t\<close> (52 bytes) and \<open>elf32_phdr_t\<close> (32 bytes) are packed; their fields are loads at fixed
  offsets. The loaders read the fields from memory each time they use them, while they write memory.
\<close>

definition sizeof_ehdr :: u32 where "sizeof_ehdr = 52"
definition sizeof_phdr :: u32 where "sizeof_phdr = 32"

definition e_ident :: "mem \<Rightarrow> u32 \<Rightarrow> u32 \<Rightarrow> u8" where "e_ident m h i = m (h + i)"
definition e_type :: "mem \<Rightarrow> u32 \<Rightarrow> u16" where "e_type m h = read_u16 m (h + 16)"
definition e_machine :: "mem \<Rightarrow> u32 \<Rightarrow> u16" where "e_machine m h = read_u16 m (h + 18)"
definition e_version :: "mem \<Rightarrow> u32 \<Rightarrow> u32" where "e_version m h = read_u32 m (h + 20)"
definition e_entry :: "mem \<Rightarrow> u32 \<Rightarrow> u32" where "e_entry m h = read_u32 m (h + 24)"
definition e_phoff :: "mem \<Rightarrow> u32 \<Rightarrow> u32" where "e_phoff m h = read_u32 m (h + 28)"
definition e_phentsize :: "mem \<Rightarrow> u32 \<Rightarrow> u16" where "e_phentsize m h = read_u16 m (h + 42)"
definition e_phnum :: "mem \<Rightarrow> u32 \<Rightarrow> u16" where "e_phnum m h = read_u16 m (h + 44)"

definition p_type :: "mem \<Rightarrow> u32 \<Rightarrow> u32" where "p_type m p = read_u32 m p"
definition p_offset :: "mem \<Rightarrow> u32 \<Rightarrow> u32" where "p_offset m p = read_u32 m (p + 4)"
definition p_vaddr :: "mem \<Rightarrow> u32 \<Rightarrow> u32" where "p_vaddr m p = read_u32 m (p + 8)"
definition p_filesz :: "mem \<Rightarrow> u32 \<Rightarrow> u32" where "p_filesz m p = read_u32 m (p + 16)"
definition p_memsz :: "mem \<Rightarrow> u32 \<Rightarrow> u32" where "p_memsz m p = read_u32 m (p + 20)"

definition ELF_MAGIC0 :: u8 where "ELF_MAGIC0 = 0x7F"
definition ELF_MAGIC1 :: u8 where "ELF_MAGIC1 = 0x45"
definition ELF_MAGIC2 :: u8 where "ELF_MAGIC2 = 0x4C"
definition ELF_MAGIC3 :: u8 where "ELF_MAGIC3 = 0x46"
definition ELFCLASS32 :: u8 where "ELFCLASS32 = 1"
definition ELFDATA2LSB :: u8 where "ELFDATA2LSB = 1"
definition EV_CURRENT :: nat where "EV_CURRENT = 1"
definition EM_386 :: u16 where "EM_386 = 3"
definition ET_EXEC :: u16 where "ET_EXEC = 2"
definition ET_DYN :: u16 where "ET_DYN = 3"
definition PT_LOAD :: u32 where "PT_LOAD = 1"

section \<open>Validation\<close>

definition elf_header_basic_valid :: "mem \<Rightarrow> u32 \<Rightarrow> u32 \<Rightarrow> u8" where
  "elf_header_basic_valid m hdr sz =
     (if sz < sizeof_ehdr then 0
      else if e_ident m hdr 0 \<noteq> ELF_MAGIC0 \<or> e_ident m hdr 1 \<noteq> ELF_MAGIC1 \<or> e_ident m hdr 2 \<noteq> ELF_MAGIC2
        \<or> e_ident m hdr 3 \<noteq> ELF_MAGIC3 then 0
      else if e_ident m hdr 4 \<noteq> ELFCLASS32 \<or> e_ident m hdr 5 \<noteq> ELFDATA2LSB then 0
      else if e_ident m hdr 6 \<noteq> of_nat EV_CURRENT \<or> e_version m hdr \<noteq> of_nat EV_CURRENT then 0
      else if e_machine m hdr \<noteq> EM_386 then 0
      else if e_type m hdr \<noteq> ET_EXEC \<and> e_type m hdr \<noteq> ET_DYN then 0
      else if e_phnum m hdr = 0 then 0
      else if ucast (e_phentsize m hdr) \<noteq> sizeof_phdr then 0
      else
        let min_ph_table = e_phoff m hdr + ucast (e_phnum m hdr) * ucast (e_phentsize m hdr)
        in if min_ph_table > sz \<or> min_ph_table < e_phoff m hdr then 0 else 1)"

definition elf_validate_buffer :: "mem \<Rightarrow> u32 \<Rightarrow> u32 \<Rightarrow> u8" where
  "elf_validate_buffer m data sz = elf_header_basic_valid m data sz"

definition elf_get_entry :: "mem \<Rightarrow> u32 \<Rightarrow> u32" where
  "elf_get_entry m data = e_entry m data"

text \<open>\<open>&phdr[i]\<close>.\<close>

definition phdr_at :: "u32 \<Rightarrow> u32 \<Rightarrow> u32" where "phdr_at phdr i = phdr + sizeof_phdr * i"

definition elf_count_loadable_segments :: "mem \<Rightarrow> u32 \<Rightarrow> u32" where
  "elf_count_loadable_segments m data =
     for_u32 0 (ucast (e_phnum m data))
       (\<lambda>i count. if p_type m (phdr_at (data + e_phoff m data) i) = PT_LOAD then count + 1 else count) 0"

section \<open>Probing a file\<close>

text \<open>
  Out-parameters are optional: the flags say which pointers are not null, and the results which values
  are stored. \<open>vfs_close\<close> clears the local handle and has no effect outside the function.
\<close>

definition store_if :: "bool \<Rightarrow> 'a \<Rightarrow> 'a option" where
  "store_if wanted v = (if wanted then Some v else None)"

text \<open>The common beginning: open the file and validate its contents; \<open>None\<close> is the result 0.\<close>

definition open_image :: "mem \<Rightarrow> initrd \<Rightarrow> u32 \<Rightarrow> vfs_file option option" where
  "open_image m st path =
     (if path = 0 then Some None
      else do {
        file \<leftarrow> vfs_open m st path;
        Some (if vvalid file = 0 then None
              else if vdata file = 0 \<or> elf_validate_buffer m (vdata file) (vsize file) = 0 then None
              else Some file)
      })"

definition elf_probe_from_vfs ::
    "mem \<Rightarrow> initrd \<Rightarrow> u32 \<Rightarrow> bool \<Rightarrow> bool \<Rightarrow> (u8 \<times> u32 option \<times> u32 option) option" where
  "elf_probe_from_vfs m st path entry load_segments =
     do {
       image \<leftarrow> open_image m st path;
       Some (case image of
           None \<Rightarrow> (0, None, None)
         | Some file \<Rightarrow>
             (1, store_if entry (elf_get_entry m (vdata file)),
              store_if load_segments (elf_count_loadable_segments m (vdata file))))
     }"

section \<open>Loading a segment\<close>

text \<open>The two byte loops over a segment, which read the bounds and the file offset as they go.\<close>

function seg_copy :: "u32 \<Rightarrow> u32 \<Rightarrow> u32 \<Rightarrow> u32 \<Rightarrow> mem \<Rightarrow> mem" where
  "seg_copy segment all_data dst j m =
     (if j < p_filesz m segment
      then seg_copy segment all_data dst (j + 1) (m(dst + j := m (all_data + (p_offset m segment + j)))) else m)"
  by pat_completeness auto
termination
  by (relation "measure (\<lambda>(_, _, _, j, _). 4294967296 - unat j)")
    (simp_all add: index_measure)

function seg_zero :: "u32 \<Rightarrow> u32 \<Rightarrow> u32 \<Rightarrow> mem \<Rightarrow> mem" where
  "seg_zero segment dst j m = (if j < p_memsz m segment then seg_zero segment dst (j + 1) (m(dst + j := 0)) else m)"
  by pat_completeness auto
termination
  by (relation "measure (\<lambda>(_, _, j, _). 4294967296 - unat j)")
    (simp_all add: index_measure)

declare seg_copy.simps [simp del] seg_zero.simps [simp del]

definition load_segment :: "u32 \<Rightarrow> u32 \<Rightarrow> u32 \<Rightarrow> mem \<Rightarrow> mem" where
  "load_segment segment all_data dst m =
     (let m = seg_copy segment all_data dst 0 m in seg_zero segment dst (p_filesz m segment) m)"

text \<open>The test of the segment bounds: the sum wraps.\<close>

definition segment_rejected :: "mem \<Rightarrow> u32 \<Rightarrow> u32 \<Rightarrow> bool" where
  "segment_rejected m segment file_size \<longleftrightarrow>
     p_offset m segment + p_filesz m segment > file_size \<or> p_filesz m segment > p_memsz m segment"

section \<open>Loading into heap blocks\<close>

text \<open>The loop of \<open>elf_load_from_vfs\<close>: \<open>None\<close> in the result is the early return of 0.\<close>

partial_function (option) elf_load_loop ::
    "u32 \<Rightarrow> u32 \<Rightarrow> u32 \<Rightarrow> u32 \<Rightarrow> u32 \<Rightarrow> u32 \<Rightarrow> heap \<Rightarrow> ((u32 \<times> u32) option \<times> heap) option" where
  "elf_load_loop all_data file_size phdr i segments bytes s =
     (if i < ucast (e_phnum (hmem s) all_data) then
        let segment = phdr_at phdr i
        in if p_type (hmem s) segment \<noteq> PT_LOAD then elf_load_loop all_data file_size phdr (i + 1) segments bytes s
           else if p_memsz (hmem s) segment = 0 then elf_load_loop all_data file_size phdr (i + 1) segments bytes s
           else if segment_rejected (hmem s) segment file_size then Some (None, s)
           else
             Option.bind (kmalloc (p_memsz (hmem s) segment) s) (\<lambda>(dst, s).
               if dst = 0 then Some (None, s)
               else
                 let s = s\<lparr>hmem := load_segment segment all_data dst (hmem s)\<rparr>
                 in elf_load_loop all_data file_size phdr (i + 1) (segments + 1) (bytes + p_memsz (hmem s) segment) s)
      else Some (Some (segments, bytes), s))"

definition elf_load_from_vfs ::
    "initrd \<Rightarrow> u32 \<Rightarrow> bool \<Rightarrow> bool \<Rightarrow> bool \<Rightarrow> heap \<Rightarrow> ((u8 \<times> u32 option \<times> u32 option \<times> u32 option) \<times> heap) option" where
  "elf_load_from_vfs st path entry load_segments loaded_bytes s =
     do {
       image \<leftarrow> open_image (hmem s) st path;
       case image of
         None \<Rightarrow> Some ((0, None, None, None), s)
       | Some file \<Rightarrow>
           let all_data = vdata file; phdr = all_data + e_phoff (hmem s) all_data
           in do {
                (r, s) \<leftarrow> elf_load_loop all_data (vsize file) phdr 0 0 0 s;
                Some (case r of
                    None \<Rightarrow> ((0, None, None, None), s)
                  | Some (segments, bytes) \<Rightarrow>
                      ((1, store_if entry (e_entry (hmem s) all_data), store_if load_segments segments,
                        store_if loaded_bytes bytes), s))
              }
     }"

text \<open>The loop of \<open>elf_load_image_from_vfs\<close> also places the entry point.\<close>

partial_function (option) elf_image_loop ::
    "u32 \<Rightarrow> u32 \<Rightarrow> u32 \<Rightarrow> u32 \<Rightarrow> u32 \<Rightarrow> u32 \<Rightarrow> u32 \<Rightarrow> heap \<Rightarrow> ((u32 \<times> u32 \<times> u32) option \<times> heap) option" where
  "elf_image_loop all_data file_size phdr i segments bytes loaded_entry s =
     (if i < ucast (e_phnum (hmem s) all_data) then
        let segment = phdr_at phdr i
        in if p_type (hmem s) segment \<noteq> PT_LOAD
           then elf_image_loop all_data file_size phdr (i + 1) segments bytes loaded_entry s
           else if p_memsz (hmem s) segment = 0
           then elf_image_loop all_data file_size phdr (i + 1) segments bytes loaded_entry s
           else if segment_rejected (hmem s) segment file_size then Some (None, s)
           else
             Option.bind (kmalloc (p_memsz (hmem s) segment) s) (\<lambda>(dst, s).
               if dst = 0 then Some (None, s)
               else
                 let s = s\<lparr>hmem := load_segment segment all_data dst (hmem s)\<rparr>;
                     entry = e_entry (hmem s) all_data;
                     vaddr = p_vaddr (hmem s) segment;
                     loaded_entry =
                       (if loaded_entry = 0 \<and> entry \<ge> vaddr \<and> entry < vaddr + p_memsz (hmem s) segment
                        then dst + (entry - vaddr) else loaded_entry)
                 in elf_image_loop all_data file_size phdr (i + 1) (segments + 1)
                      (bytes + p_memsz (hmem s) segment) loaded_entry s)
      else Some (Some (segments, bytes, loaded_entry), s))"

definition elf_load_image_from_vfs ::
    "initrd \<Rightarrow> u32 \<Rightarrow> bool \<Rightarrow> bool \<Rightarrow> bool \<Rightarrow> bool \<Rightarrow> heap
      \<Rightarrow> ((u8 \<times> u32 option \<times> u32 option \<times> u32 option \<times> u32 option) \<times> heap) option" where
  "elf_load_image_from_vfs st path entry_virtual entry_loaded load_segments loaded_bytes s =
     do {
       image \<leftarrow> open_image (hmem s) st path;
       case image of
         None \<Rightarrow> Some ((0, None, None, None, None), s)
       | Some file \<Rightarrow>
           let all_data = vdata file; phdr = all_data + e_phoff (hmem s) all_data
           in do {
                (r, s) \<leftarrow> elf_image_loop all_data (vsize file) phdr 0 0 0 0 s;
                Some (case r of
                    None \<Rightarrow> ((0, None, None, None, None), s)
                  | Some (segments, bytes, loaded_entry) \<Rightarrow>
                      ((if segments > 0 then 1 else 0, store_if entry_virtual (e_entry (hmem s) all_data),
                        store_if entry_loaded loaded_entry, store_if load_segments segments,
                        store_if loaded_bytes bytes), s))
              }
     }"

section \<open>Loading to the requested addresses\<close>

partial_function (option) elf_identity_loop ::
    "u32 \<Rightarrow> u32 \<Rightarrow> u32 \<Rightarrow> u32 \<Rightarrow> u32 \<Rightarrow> u32 \<Rightarrow> u32 \<Rightarrow> mem \<Rightarrow> ((u32 \<times> u32) option \<times> mem) option" where
  "elf_identity_loop identity_limit all_data file_size phdr i segments bytes m =
     (if i < ucast (e_phnum m all_data) then
        let segment = phdr_at phdr i
        in if p_type m segment \<noteq> PT_LOAD \<or> p_memsz m segment = 0
           then elf_identity_loop identity_limit all_data file_size phdr (i + 1) segments bytes m
           else if segment_rejected m segment file_size then Some (None, m)
           else if p_vaddr m segment < 0x00100000 \<or> p_vaddr m segment + p_memsz m segment < p_vaddr m segment
             \<or> p_vaddr m segment + p_memsz m segment > identity_limit then Some (None, m)
           else
             let m = load_segment segment all_data (p_vaddr m segment) m
             in elf_identity_loop identity_limit all_data file_size phdr (i + 1) (segments + 1) (bytes + p_memsz m segment) m
      else Some (Some (segments, bytes), m))"

definition elf_load_virtual_identity_from_vfs ::
    "paging \<Rightarrow> initrd \<Rightarrow> u32 \<Rightarrow> bool \<Rightarrow> bool \<Rightarrow> bool \<Rightarrow> mem
      \<Rightarrow> ((u8 \<times> u32 option \<times> u32 option \<times> u32 option) \<times> mem) option" where
  "elf_load_virtual_identity_from_vfs pg st path entry_virtual load_segments loaded_bytes m =
     (if path = 0 \<or> paging_is_prepared pg = 0 then Some ((0, None, None, None), m)
      else
        let identity_limit = paging_get_identity_limit_bytes pg
        in if identity_limit = 0 then Some ((0, None, None, None), m)
           else do {
             image \<leftarrow> open_image m st path;
             case image of
               None \<Rightarrow> Some ((0, None, None, None), m)
             | Some file \<Rightarrow>
                 let all_data = vdata file; phdr = all_data + e_phoff m all_data
                 in do {
                      (r, m) \<leftarrow> elf_identity_loop identity_limit all_data (vsize file) phdr 0 0 0 m;
                      Some (case r of
                          None \<Rightarrow> ((0, None, None, None), m)
                        | Some (segments, bytes) \<Rightarrow>
                            ((if segments > 0 then 1 else 0, store_if entry_virtual (e_entry m all_data),
                              store_if load_segments segments, store_if loaded_bytes bytes), m))
                    }
           })"

text \<open>
  \<open>elf_try_execute_loaded_entry\<close>: the function at the address is code this development does not have;
  it is a parameter, from the address and the state to the state it returns in, if it returns.
\<close>

definition elf_try_execute_loaded_entry :: "(u32 \<Rightarrow> 's \<Rightarrow> 's option) \<Rightarrow> u32 \<Rightarrow> 's \<Rightarrow> (u8 \<times> 's) option" where
  "elf_try_execute_loaded_entry call loaded_entry s =
     (if loaded_entry = 0 then Some (0, s) else do { s \<leftarrow> call loaded_entry s; Some (1, s) })"

end
