(* ===== verification/Elf_Props.thy ===== *)
theory Elf_Props
  imports Elf
begin

text \<open>
  What the loader guarantees: validation is exact, a heap loader fills one fresh block per loadable
  segment, the two heap loaders agree, and the identity loader builds exactly the requested image.
\<close>

section \<open>Validation\<close>

definition elf_ok :: "mem \<Rightarrow> u32 \<Rightarrow> u32 \<Rightarrow> bool" where
  "elf_ok m d sz \<longleftrightarrow> 52 \<le> unat sz \<and> bytes_at m d 7 = [0x7F, 0x45, 0x4C, 0x46, 1, 1, 1] \<and> e_version m d = 1
     \<and> e_machine m d = 3 \<and> e_type m d \<in> {2, 3} \<and> 0 < unat (e_phnum m d) \<and> unat (e_phentsize m d) = 32
     \<and> unat (e_phoff m d) + 32 * unat (e_phnum m d) \<le> unat sz"

lemma unat_ucast_u16 [simp]: "unat (ucast (x :: u16) :: u32) = unat x"
proof -
  have "unat x < 2 ^ 16" using unsigned_less [of x] by simp
  then show ?thesis by (simp add: unsigned_ucast_eq take_bit_nat_eq_self)
qed

lemma unat_u16_less: "unat (x :: u16) < 65536"
proof -
  have "unat x < 2 ^ 16" using unsigned_less [of x] by simp
  then show ?thesis by simp
qed

lemma table_end_check:
  fixes off sz :: u32 and n :: u16
  shows "(off + ucast n * 32 > sz \<or> off + ucast n * 32 < off) \<longleftrightarrow> \<not> unat off + 32 * unat n \<le> unat sz"
proof -
  have n: "unat (ucast n * 32 :: u32) = 32 * unat n"
    using unat_u16_less [of n] by (simp add: unat_word_ariths)
  show ?thesis
  proof (cases "unat off + 32 * unat n < 4294967296")
    case True
    then have "unat (off + ucast n * 32) = unat off + 32 * unat n"
      using n unat_add_nowrap [of off "ucast n * 32"] by simp
    then show ?thesis by (auto simp: word_less_nat_alt)
  next
    case False
    have "unat (off + ucast n * 32) = (unat off + 32 * unat n) mod 4294967296"
      unfolding unat_word_ariths(1) n by simp
    also have "\<dots> = unat off + 32 * unat n - 4294967296"
      using False unat_less_2p32 [of off] unat_u16_less [of n] by (subst mod_if) (auto simp: mod_if)
    finally have "off + ucast n * 32 < off" using False unat_u16_less [of n] by (simp add: word_less_nat_alt)
    then show ?thesis using False unat_less_2p32 [of sz] by auto
  qed
qed

lemma elf_validate_eq: "elf_validate_buffer m d sz = (if elf_ok m d sz then 1 else 0)"
proof -
  have ident: "bytes_at m d 7 = [e_ident m d 0, e_ident m d 1, e_ident m d 2, e_ident m d 3, e_ident m d 4, e_ident m d 5, e_ident m d 6]"
    by (simp add: bytes_at_def e_ident_def upt_rec)
  have ent: "ucast (e_phentsize m d) = sizeof_phdr \<longleftrightarrow> unat (e_phentsize m d) = 32"
    by (simp add: sizeof_phdr_def word_unat_eq_iff)
  have num: "e_phnum m d = 0 \<longleftrightarrow> \<not> 0 < unat (e_phnum m d)" by (simp add: unat_eq_zero)
  have sz: "sz < sizeof_ehdr \<longleftrightarrow> \<not> 52 \<le> unat sz" by (auto simp: sizeof_ehdr_def word_less_nat_alt)
  show ?thesis
  proof (cases "unat (e_phentsize m d) = 32")
    case True
    then have "(ucast (e_phentsize m d) :: u32) = 32" using ent by (simp add: sizeof_phdr_def)
    then show ?thesis
      using True ent num sz table_end_check [where off = "e_phoff m d" and sz = sz and n = "e_phnum m d"]
      by (simp add: elf_validate_buffer_def elf_header_basic_valid_def Let_def elf_ok_def ident ELF_MAGIC0_def ELF_MAGIC1_def
          ELF_MAGIC2_def ELF_MAGIC3_def ELFCLASS32_def ELFDATA2LSB_def EV_CURRENT_def EM_386_def ET_EXEC_def ET_DYN_def)
  next
    case False
    then show ?thesis using ent by (simp add: elf_validate_buffer_def elf_header_basic_valid_def Let_def elf_ok_def)
  qed
qed

section \<open>Program headers\<close>

lemma field_cong:
  assumes "\<And>x. x \<in> span p n \<Longrightarrow> m' x = m x" "k + 4 \<le> n" "n < 4294967296"
  shows "read_u32 m' (p + of_nat k) = read_u32 m (p + of_nat k)"
  by (rule read_u32_cong) (use assms(1) span_piece [OF assms(2,3), of p] in blast)

lemma phdr_cong:
  assumes "\<And>x. x \<in> span p 32 \<Longrightarrow> m' x = m x"
  shows "p_type m' p = p_type m p" "p_offset m' p = p_offset m p" "p_vaddr m' p = p_vaddr m p"
    "p_filesz m' p = p_filesz m p" "p_memsz m' p = p_memsz m p"
  using field_cong [of p 32 m' m 0] field_cong [of p 32 m' m 4] field_cong [of p 32 m' m 8] field_cong [of p 32 m' m 16]
    field_cong [of p 32 m' m 20] assms
  by (simp_all add: p_type_def p_offset_def p_vaddr_def p_filesz_def p_memsz_def)

lemma ehdr_cong:
  assumes "\<And>x. x \<in> span d 52 \<Longrightarrow> m' x = m x"
  shows "e_phnum m' d = e_phnum m d" "e_entry m' d = e_entry m d" "e_phoff m' d = e_phoff m d"
proof -
  have "m' (d + 44) = m (d + 44)" "m' (d + 45) = m (d + 45)" by (rule assms, simp add: span_def)+
  then show "e_phnum m' d = e_phnum m d" by (simp add: e_phnum_def read_u16_def add.assoc)
  show "e_entry m' d = e_entry m d" "e_phoff m' d = e_phoff m d"
    using field_cong [of d 52 m' m 24] field_cong [of d 52 m' m 28] assms by (simp_all add: e_entry_def e_phoff_def)
qed

text \<open>A loop that stores below its own bound and away from the header it reads is a counting loop.\<close>

lemma seg_copy_eq:
  assumes "span dst (unat (p_filesz m seg)) \<inter> span seg 32 = {}" and "p_offset m seg = p_offset m0 seg"
  shows "seg_copy seg data dst j m = for_u32 j (p_filesz m seg) (\<lambda>i m. m(dst + i := m (data + p_offset m0 seg + i))) m"
  using assms
proof (induction seg data dst j m rule: seg_copy.induct)
  case (1 seg data dst j m)
  show ?case
  proof (cases "j < p_filesz m seg")
    case True
    let ?m = "m(dst + j := m (data + (p_offset m seg + j)))"
    have "dst + j \<in> span dst (unat (p_filesz m seg))" using True by (simp add: span_def word_less_nat_alt)
    then have same: "x \<in> span seg 32 \<Longrightarrow> ?m x = m x" for x using "1.prems"(1) by auto
    note h = phdr_cong [of seg ?m m, OF same]
    have "seg_copy seg data dst (j + 1) ?m = for_u32 (j + 1) (p_filesz ?m seg) (\<lambda>i m. m(dst + i := m (data + p_offset m0 seg + i))) ?m"
      using "1.IH" [OF True] "1.prems" h by (simp del: fun_upd_apply)
    then show ?thesis using True "1.prems"(2) h(4)
      by (simp add: seg_copy.simps [of seg data dst j m] for_u32.simps [of j "p_filesz m seg"] add.assoc del: fun_upd_apply)
  next
    case False
    then show ?thesis by (simp add: seg_copy.simps [of seg data dst j m])
  qed
qed

lemma seg_zero_eq:
  assumes "span dst (unat (p_memsz m seg)) \<inter> span seg 32 = {}"
  shows "seg_zero seg dst j m = for_u32 j (p_memsz m seg) (\<lambda>i m. m(dst + i := 0)) m"
  using assms
proof (induction seg dst j m rule: seg_zero.induct)
  case (1 seg dst j m)
  show ?case
  proof (cases "j < p_memsz m seg")
    case True
    let ?m = "m(dst + j := 0)"
    have "dst + j \<in> span dst (unat (p_memsz m seg))" using True by (simp add: span_def word_less_nat_alt)
    then have same: "x \<in> span seg 32 \<Longrightarrow> ?m x = m x" for x using "1.prems" by auto
    note h = phdr_cong [of seg ?m m, OF same]
    have "seg_zero seg dst (j + 1) ?m = for_u32 (j + 1) (p_memsz ?m seg) (\<lambda>i m. m(dst + i := 0)) ?m"
      using "1.IH" [OF True] "1.prems" h by (simp del: fun_upd_apply)
    then show ?thesis using True h(5)
      by (simp add: seg_zero.simps [of seg dst j m] for_u32.simps [of j "p_memsz m seg"] del: fun_upd_apply)
  next
    case False
    then show ?thesis by (simp add: seg_zero.simps [of seg dst j m])
  qed
qed

text \<open>The bytes of a segment in memory: those of the file, then zeros.\<close>

definition seg_byte :: "mem \<Rightarrow> u32 \<Rightarrow> u32 \<Rightarrow> u32 \<Rightarrow> u8" where
  "seg_byte m data seg i = (if i < p_filesz m seg then m (data + p_offset m seg + i) else 0)"

definition place :: "mem \<Rightarrow> u32 \<Rightarrow> u32 \<Rightarrow> u32 \<Rightarrow> mem \<Rightarrow> mem" where
  "place m0 data seg dst m x = (if x \<in> span dst (unat (p_memsz m0 seg)) then seg_byte m0 data seg (x - dst) else m x)"

lemma load_segment_eq:
  assumes le: "p_filesz m seg \<le> p_memsz m seg"
    and hdr: "span dst (unat (p_memsz m seg)) \<inter> span seg 32 = {}"
    and src: "span dst (unat (p_memsz m seg)) \<inter> span (data + p_offset m seg) (unat (p_filesz m seg)) = {}"
  shows "load_segment seg data dst m = place m data seg dst m"
proof
  fix x
  let ?f = "unat (p_filesz m seg)" and ?z = "unat (p_memsz m seg)" and ?o = "p_offset m seg"
  have sub: "span dst ?f \<subseteq> span dst ?z" using le by (intro span_mono) (simp add: word_le_nat_alt)
  define m1 where "m1 = seg_copy seg data dst 0 m"
  have "m1 = for_u32 0 (p_filesz m seg) (\<lambda>i m. m(dst + i := m (data + ?o + i))) m"
    unfolding m1_def by (rule seg_copy_eq) (use sub hdr in auto)
  moreover have "span dst ?f \<inter> span (data + ?o) ?f = {}" using sub src by blast
  ultimately have m1: "m1 y = (if y \<in> span dst ?f then m (data + p_offset m seg + (y - dst)) else m y)" for y
    using for_u32_copy [of dst "p_filesz m seg" "data + ?o" m y] by simp
  have "y \<in> span seg 32 \<Longrightarrow> m1 y = m y" for y using m1 [of y] sub hdr by auto
  note h = phdr_cong [of seg m1 m, OF this]
  have "load_segment seg data dst m = for_u32 (p_filesz m seg) (p_memsz m seg) (\<lambda>i m. m(dst + i := 0)) m1"
    using seg_zero_eq [of dst m1 seg] hdr h by (simp add: load_segment_def Let_def flip: m1_def)
  then have "load_segment seg data dst m x = (if ?f \<le> unat (x - dst) \<and> unat (x - dst) < ?z then 0 else m1 x)"
    using for_u32_fill [OF le, of dst "\<lambda>_. 0" m1 x] by simp
  then show "load_segment seg data dst m x = place m data seg dst m x"
    using m1 [of x] sub by (auto simp: place_def seg_byte_def span_def word_less_nat_alt)
qed

section \<open>Images\<close>

definition phdrs :: "mem \<Rightarrow> u32 \<Rightarrow> u32 list" where
  "phdrs m d = map (\<lambda>i. phdr_at (d + e_phoff m d) (of_nat i)) [0..<unat (e_phnum m d)]"

definition loadable :: "mem \<Rightarrow> u32 \<Rightarrow> bool" where
  "loadable m p \<longleftrightarrow> p_type m p = PT_LOAD \<and> p_memsz m p \<noteq> 0"

definition elf_segments :: "mem \<Rightarrow> u32 \<Rightarrow> u32 list" where
  "elf_segments m d = filter (loadable m) (phdrs m d)"

text \<open>
  A valid image whose loadable segments have file ranges that do not wrap; \<open>same_file\<close>: its bytes are
  still what they were.
\<close>

definition image_ok :: "mem \<Rightarrow> u32 \<Rightarrow> u32 \<Rightarrow> bool" where
  "image_ok m d sz \<longleftrightarrow> elf_ok m d sz
     \<and> (\<forall>p \<in> set (elf_segments m d). unat (p_offset m p) + unat (p_filesz m p) < 4294967296)"

definition same_file :: "mem \<Rightarrow> u32 \<Rightarrow> u32 \<Rightarrow> mem \<Rightarrow> bool" where
  "same_file m0 d sz m \<longleftrightarrow> (\<forall>x \<in> span d (unat sz). m x = m0 x)"

lemma phdr_in_file:
  assumes "elf_ok m d sz" and "p \<in> set (phdrs m d)"
  shows "span p 32 \<subseteq> span d (unat sz)"
proof -
  obtain i where i: "i < unat (e_phnum m d)" "p = phdr_at (d + e_phoff m d) (of_nat i)" using assms(2) by (auto simp: phdrs_def)
  have "p = d + of_nat (unat (e_phoff m d) + 32 * i)" by (simp add: i(2) phdr_at_def sizeof_phdr_def add.assoc)
  moreover have "unat (e_phoff m d) + 32 * i + 32 \<le> unat sz" using assms(1) i(1) by (simp add: elf_ok_def)
  ultimately show ?thesis using span_piece unat_less_2p32 by blast
qed

lemma header_in_file: "elf_ok m d sz \<Longrightarrow> span d 52 \<subseteq> span d (unat sz)"
  by (intro span_mono) (simp add: elf_ok_def)

lemma file_phdr:
  assumes "elf_ok m0 d sz" "same_file m0 d sz m" "p \<in> set (phdrs m0 d)"
  shows "p_type m p = p_type m0 p" "p_offset m p = p_offset m0 p" "p_vaddr m p = p_vaddr m0 p"
    "p_filesz m p = p_filesz m0 p" "p_memsz m p = p_memsz m0 p"
  using phdr_cong [of p m m0] phdr_in_file [OF assms(1,3)] assms(2) by (auto simp: same_file_def)

lemma file_ehdr:
  assumes "elf_ok m0 d sz" "same_file m0 d sz m"
  shows "e_phnum m d = e_phnum m0 d" "e_entry m d = e_entry m0 d" "e_phoff m d = e_phoff m0 d"
  using ehdr_cong [of d m m0] header_in_file [OF assms(1)] assms(2) by (auto simp: same_file_def)

lemma source_in_file:
  assumes ok: "image_ok m d sz" "p \<in> set (elf_segments m d)" and acc: "\<not> segment_rejected m p sz"
  shows "span (d + p_offset m p) (unat (p_filesz m p)) \<subseteq> span d (unat sz)" and "p_filesz m p \<le> p_memsz m p"
proof -
  have "unat (p_offset m p) + unat (p_filesz m p) < 4294967296" using ok by (simp add: image_ok_def)
  then have "unat (p_offset m p) + unat (p_filesz m p) \<le> unat sz"
    using acc unat_add_nowrap [of "p_offset m p" "p_filesz m p"] by (simp add: segment_rejected_def word_less_nat_alt not_less)
  from span_piece [OF this unat_less_2p32, of d]
  show "span (d + p_offset m p) (unat (p_filesz m p)) \<subseteq> span d (unat sz)" by simp
  show "p_filesz m p \<le> p_memsz m p" using acc by (simp add: segment_rejected_def not_less)
qed

lemma segments_phdrs: "p \<in> set (elf_segments m d) \<Longrightarrow> p \<in> set (phdrs m d)"
  by (simp add: elf_segments_def)

text \<open>Loading a segment outside the file places the bytes the file had at the beginning.\<close>

lemma load_segment_place:
  assumes ok: "image_ok m0 d sz" and p: "p \<in> set (elf_segments m0 d)" and acc: "\<not> segment_rejected m0 p sz"
    and same: "same_file m0 d sz m" and dj: "span dst (unat (p_memsz m0 p)) \<inter> span d (unat sz) = {}"
  shows "load_segment p d dst m = place m0 d p dst m" and "same_file m0 d sz (place m0 d p dst m)"
proof -
  have eok: "elf_ok m0 d sz" using ok by (simp add: image_ok_def)
  note f = file_phdr [OF eok same segments_phdrs [OF p]] and src = source_in_file [OF ok p acc]
  have "load_segment p d dst m = place m d p dst m"
    using phdr_in_file [OF eok segments_phdrs [OF p]] src dj by (intro load_segment_eq) (auto simp: f)
  also have "\<dots> = place m0 d p dst m"
  proof
    fix x
    have "m (d + p_offset m0 p + i) = m0 (d + p_offset m0 p + i)" if "i < p_filesz m0 p" for i
    proof -
      have "d + p_offset m0 p + i \<in> span (d + p_offset m0 p) (unat (p_filesz m0 p))"
        using that by (simp add: span_def word_less_nat_alt)
      then show ?thesis using src(1) same by (auto simp: same_file_def)
    qed
    then show "place m d p dst m x = place m0 d p dst m x" by (simp add: place_def seg_byte_def f)
  qed
  finally show "load_segment p d dst m = place m0 d p dst m" .
  show "same_file m0 d sz (place m0 d p dst m)" using same dj by (auto simp: same_file_def place_def)
qed

section \<open>Loading to the requested addresses\<close>

definition placeable :: "mem \<Rightarrow> u32 \<Rightarrow> u32 \<Rightarrow> u32 \<Rightarrow> bool" where
  "placeable m limit sz p \<longleftrightarrow> \<not> segment_rejected m p sz \<and> 1048576 \<le> unat (p_vaddr m p)
     \<and> unat (p_vaddr m p) + unat (p_memsz m p) \<le> unat limit"

lemma address_check:
  fixes v z limit :: u32
  shows "v < 0x00100000 \<or> v + z < v \<or> v + z > limit \<longleftrightarrow> \<not> (1048576 \<le> unat v \<and> unat v + unat z \<le> unat limit)"
proof (cases "unat v + unat z < 4294967296")
  case True
  then show ?thesis using unat_add_nowrap [of v z] by (auto simp: word_less_nat_alt)
next
  case False
  have "unat (v + z) = (unat v + unat z) mod 4294967296" by (simp add: unat_word_ariths)
  also have "\<dots> = unat v + unat z - 4294967296"
    using False unat_less_2p32 [of v] unat_less_2p32 [of z] by (subst mod_if) (auto simp: mod_if)
  finally have "v + z < v" using False unat_less_2p32 [of z] by (simp add: word_less_nat_alt)
  then show ?thesis using False unat_less_2p32 [of limit] by auto
qed

text \<open>The reference: the accepted segments in order, up to the first that is refused.\<close>

definition identity_image :: "mem \<Rightarrow> u32 \<Rightarrow> u32 list \<Rightarrow> mem \<Rightarrow> mem" where
  "identity_image m0 d ps m = fold (\<lambda>p. place m0 d p (p_vaddr m0 p)) ps m"

text \<open>One round of a loop over the program headers.\<close>

lemma phdr_step:
  assumes "drop i (phdrs m d) = p # ps"
  shows "i < unat (e_phnum m d)" "phdr_at (d + e_phoff m d) (of_nat i) = p" "p \<in> set (phdrs m d)"
    "drop (Suc i) (phdrs m d) = ps" "(of_nat i :: u32) < ucast (e_phnum m d)"
proof -
  have len: "length (phdrs m d) = unat (e_phnum m d)" by (simp add: phdrs_def)
  show i: "i < unat (e_phnum m d)" using assms len by (metis drop_all list.distinct(1) not_le)
  have "phdrs m d ! i = p" using assms i len by (metis Cons_nth_drop_Suc list.inject)
  then show "phdr_at (d + e_phoff m d) (of_nat i) = p" using i by (simp add: phdrs_def)
  show "p \<in> set (phdrs m d)" by (metis assms in_set_dropD list.set_intros(1))
  show "drop (Suc i) (phdrs m d) = ps" using assms by (metis drop_Suc list.sel(3) tl_drop)
  have "unat (of_nat i :: u32) = i" using i unat_u16_less [of "e_phnum m d"] by (simp add: unat_of_nat)
  then show "(of_nat i :: u32) < ucast (e_phnum m d)" using i by (simp add: word_less_nat_alt)
qed

lemma phdr_end: "\<not> (of_nat (unat (e_phnum m d)) :: u32) < ucast (e_phnum m d)"
  using unat_u16_less [of "e_phnum m d"] by (simp add: word_less_nat_alt unat_of_nat)

lemma identity_loop_eq:
  assumes ok: "image_ok m0 d sz" 
    and R: "\<And>p. p \<in> set (elf_segments m0 d) \<Longrightarrow> placeable m0 limit sz p
      \<Longrightarrow> span (p_vaddr m0 p) (unat (p_memsz m0 p)) \<inter> span d (unat sz) = {}"
    and "drop i (phdrs m0 d) = ps" and "i \<le> unat (e_phnum m0 d)" and "same_file m0 d sz m"
  defines "good \<equiv> \<lambda>ps. takeWhile (placeable m0 limit sz) (filter (loadable m0) ps)"
  shows "elf_identity_loop limit d sz (d + e_phoff m0 d) (of_nat i) n b m =
    Some (if good ps = filter (loadable m0) ps
            then Some (n + of_nat (length (good ps)), b + sum_list (map (p_memsz m0) (good ps))) else None,
          identity_image m0 d (good ps) m)"
  using assms(3-5)
proof (induction ps arbitrary: i n b m)
  case Nil
  have eok: "elf_ok m0 d sz" using ok by (simp add: image_ok_def)
  have "i = unat (e_phnum m0 d)" using Nil.prems(1,2) by (simp add: phdrs_def)
  then have "\<not> (of_nat i :: u32) < ucast (e_phnum m d)" using phdr_end file_ehdr(1) [OF eok Nil.prems(3)] by simp
  then show ?case by (simp add: elf_identity_loop.simps [of limit d sz _ "of_nat i"] good_def identity_image_def)
next
  case (Cons p ps)
  have eok: "elf_ok m0 d sz" using ok by (simp add: image_ok_def)
  note st = phdr_step [OF Cons.prems(1)] and eh = file_ehdr [OF eok Cons.prems(3)]
    and f = file_phdr [OF eok Cons.prems(3) phdr_step(3) [OF Cons.prems(1)]]
  have rej: "segment_rejected m p sz = segment_rejected m0 p sz" by (simp add: segment_rejected_def f)
  have suc: "of_nat i + 1 = (of_nat (Suc i) :: u32)" by simp
  note unf = elf_identity_loop.simps [of limit d sz _ "of_nat i"] and ih = Cons.IH [OF st(4)]
  consider (skip) "\<not> loadable m0 p" | (refused) "loadable m0 p" "\<not> placeable m0 limit sz p"
    | (placed) "loadable m0 p" "placeable m0 limit sz p" by blast
  then show ?case
  proof cases
    case skip
    then have "elf_identity_loop limit d sz (d + e_phoff m0 d) (of_nat i) n b m
        = elf_identity_loop limit d sz (d + e_phoff m0 d) (of_nat (Suc i)) n b m"
      using st(5) unfolding unf suc [symmetric] by (auto simp: st(2) f eh loadable_def)
    then show ?thesis using ih [OF _ Cons.prems(3)] st(1) skip by (simp add: good_def)
  next
    case refused
    then have "elf_identity_loop limit d sz (d + e_phoff m0 d) (of_nat i) n b m = Some (None, m)"
      using st(5) address_check [of "p_vaddr m0 p" "p_memsz m0 p" limit] unfolding unf
      by (auto simp: st(2) f eh rej loadable_def placeable_def Let_def)
    then show ?thesis using refused by (simp add: good_def identity_image_def)
  next
    case placed
    have p: "p \<in> set (elf_segments m0 d)" using placed(1) st(3) by (simp add: elf_segments_def)
    have pl: "\<not> segment_rejected m0 p sz" "1048576 \<le> unat (p_vaddr m0 p)"
      "unat (p_vaddr m0 p) + unat (p_memsz m0 p) \<le> unat limit" using placed(2) by (auto simp: placeable_def)
    note ld = load_segment_place [OF ok p pl(1) Cons.prems(3) R [OF p placed(2)]]
    let ?m = "place m0 d p (p_vaddr m0 p) m"
    have "elf_identity_loop limit d sz (d + e_phoff m0 d) (of_nat i) n b m
        = elf_identity_loop limit d sz (d + e_phoff m0 d) (of_nat (Suc i)) (n + 1) (b + p_memsz m0 p) ?m"
      using st(5) placed(1) pl address_check [of "p_vaddr m0 p" "p_memsz m0 p" limit]
      unfolding unf suc [symmetric]
      by (auto simp: st(2) f eh rej loadable_def Let_def ld(1) file_phdr(5) [OF eok ld(2) st(3)])
    then show ?thesis
      using ih [OF _ ld(2)] st(1) placed by (auto simp: good_def identity_image_def add.assoc)
  qed
qed

section \<open>Loading into heap blocks\<close>

definition loaded :: "mem \<Rightarrow> u32 \<Rightarrow> u32 \<Rightarrow> blk \<Rightarrow> mem \<Rightarrow> bool" where
  "loaded m0 d p b m \<longleftrightarrow> p_memsz m0 p \<le> bsize b \<and> (\<forall>i < p_memsz m0 p. m (addr b + 12 + i) = seg_byte m0 d p i)"

text \<open>
  \<open>kept s bs s' bs'\<close>: the heap is intact, nothing outside it is written, and the blocks that were in
  use are in use with the same bytes.
\<close>

definition kept :: "heap \<Rightarrow> blk list \<Rightarrow> heap \<Rightarrow> blk list \<Rightarrow> bool" where
  "kept s bs s' bs' \<longleftrightarrow> heap_inv s' bs' \<and> heap_frame s bs s' bs' \<and> live bs \<subseteq> live bs'
     \<and> (\<forall>c \<in> live bs. \<forall>x \<in> payload c. hmem s' x = hmem s x)"

lemma kept_refl: "heap_inv s bs \<Longrightarrow> kept s bs s bs"
  by (simp add: kept_def heap_frame_refl)

lemma kept_trans: "kept s bs t cs \<Longrightarrow> kept t cs u ds \<Longrightarrow> kept s bs u ds"
  unfolding kept_def using heap_frame_trans [of s bs t cs u ds] by (metis subset_trans subsetD)

lemma kept_alloc: "alloc_result w s bs p s' bs' \<Longrightarrow> kept s bs s' bs'"
  by (cases "p = 0") (auto simp: alloc_result_def kept_def)

lemma kept_store:
  assumes inv: "heap_inv s bs" and b: "b \<in> live bs" "b \<notin> live bs0" "live bs0 \<subseteq> live bs"
    and same: "\<And>x. x \<notin> payload b \<Longrightarrow> m' x = hmem s x" and k: "kept s0 bs0 s bs"
  shows "kept s0 bs0 (s\<lparr>hmem := m'\<rparr>) bs"
proof -
  have "heap_inv (s\<lparr>hmem := m'\<rparr>) bs" using b live_subset by (intro heap_inv_store [OF inv, of b]) (auto simp: same)
  moreover have "heap_frame s bs (s\<lparr>hmem := m'\<rparr>) bs"
    using live_ok [OF inv b(1)] live_subset [of bs] b(1) same by (fastforce simp: heap_frame_def managed_def)
  moreover have "m' x = hmem s x" if "c \<in> live bs0" "x \<in> payload c" for c x
    using payload_apart [OF inv b(1), of c x] that b same [of x] by blast
  ultimately show ?thesis using k heap_frame_trans [of s0 bs0 s bs] by (auto simp: kept_def)
qed

lemma kept_file:
  assumes k: "kept s bs s' bs'" and f: "same_file m0 d sz (hmem s)" and dj: "span d (unat sz) \<inter> managed (hpmm s) bs = {}"
  shows "same_file m0 d sz (hmem s')" "span d (unat sz) \<inter> managed (hpmm s') bs' = {}"
proof -
  show "same_file m0 d sz (hmem s')" using k f dj unfolding same_file_def kept_def heap_frame_def by (metis disjoint_iff)
  show "span d (unat sz) \<inter> managed (hpmm s') bs' = {}" using k dj unfolding kept_def heap_frame_def by blast
qed

text \<open>One accepted segment: a fresh block, filled.\<close>

lemma load_block:
  assumes ok: "image_ok m0 d sz" and p: "p \<in> set (elf_segments m0 d)" "unat (p_memsz m0 p) \<le> 4294967288"
    and acc: "\<not> segment_rejected m0 p sz" and inv: "heap_inv s bs" and f: "same_file m0 d sz (hmem s)"
    and dj: "span d (unat sz) \<inter> managed (hpmm s) bs = {}"
    and res: "alloc_result (align8 (p_memsz m0 p)) s bs dst s1 bs1" "dst \<noteq> 0"
  shows "\<exists>b. live bs1 = insert b (live bs) \<and> b \<notin> live bs \<and> kept s bs (s1\<lparr>hmem := load_segment p d dst (hmem s1)\<rparr>) bs1
    \<and> loaded m0 d p b (load_segment p d dst (hmem s1)) \<and> dst = addr b + 12 \<and> (\<forall>i < p_memsz m0 p. dst + i \<noteq> 0)"
proof -
  obtain b where b: "b \<notin> live bs" "live bs1 = insert b (live bs)" "dst = addr b + 12" "align8 (p_memsz m0 p) \<le> bsize b"
    using res by (auto simp: alloc_result_def)
  have k: "kept s bs s1 bs1" using kept_alloc [OF res(1)] .
  then have inv1: "heap_inv s1 bs1" by (simp add: kept_def)
  have bl: "b \<in> live bs1" using b(2) by simp
  have cap: "p_memsz m0 p \<le> bsize b"
    using align8_bounds(1) [OF p(2)] b(4) by (simp add: word_le_nat_alt)
  have sub: "span dst (unat (p_memsz m0 p)) \<subseteq> payload b"
    unfolding b(3) using payload_span live_ok [OF inv1 bl] cap by (simp add: word_le_nat_alt)
  have "payload b \<subseteq> managed (hpmm s1) bs1" using live_ok [OF inv1 bl] live_subset bl by (auto simp: managed_def)
  then have "span dst (unat (p_memsz m0 p)) \<inter> span d (unat sz) = {}" using sub kept_file(2) [OF k f dj] by blast
  note ld = load_segment_place(1) [OF ok p(1) acc kept_file(1) [OF k f dj] this]
  have "kept s bs (s1\<lparr>hmem := load_segment p d dst (hmem s1)\<rparr>) bs1"
  proof (rule kept_store [OF inv1 bl b(1) _ _ k])
    show "live bs \<subseteq> live bs1" using b(2) by blast
    show "load_segment p d dst (hmem s1) x = hmem s1 x" if "x \<notin> payload b" for x
      using that sub unfolding ld place_def by auto
  qed
  moreover have "loaded m0 d p b (load_segment p d dst (hmem s1))"
  proof -
    have "load_segment p d dst (hmem s1) (dst + i) = seg_byte m0 d p i" if "i < p_memsz m0 p" for i
      using that unfolding ld place_def by (simp add: span_def word_less_nat_alt)
    with cap show ?thesis by (simp add: loaded_def b(3))
  qed
  moreover have "dst + i \<noteq> 0" if "i < p_memsz m0 p" for i
  proof -
    have "unat (addr b) + 12 + unat i < 4294967296"
      using that cap live_ok [OF inv1 bl] by (simp add: blk_ok_def word_less_nat_alt word_le_nat_alt)
    then have "unat (dst + i) = unat (addr b) + 12 + unat i"
      using unat_add_nowrap [of "addr b" 12] unat_add_nowrap [of "addr b + 12" i] by (simp add: b(3))
    then show ?thesis by auto
  qed
  ultimately show ?thesis using b(1-3) by blast
qed

lemma loaded_kept:
  assumes "loaded m0 d p b (hmem s)" "kept s bs s' bs'" "b \<in> live bs"
  shows "loaded m0 d p b (hmem s')"
proof -
  have "hmem s' (addr b + 12 + i) = hmem s (addr b + 12 + i)" if "i < p_memsz m0 p" for i
    using assms that payload_index [of i b] by (auto simp: loaded_def kept_def)
  then show ?thesis using assms(1) by (simp add: loaded_def)
qed

text \<open>The place of the entry point: in the block of the first segment that holds its virtual address.\<close>

definition holds_entry :: "mem \<Rightarrow> u32 \<Rightarrow> u32 \<Rightarrow> bool" where
  "holds_entry m d p \<longleftrightarrow> p_vaddr m p \<le> e_entry m d \<and> e_entry m d < p_vaddr m p + p_memsz m p"

definition entry_place :: "mem \<Rightarrow> u32 \<Rightarrow> u32 list \<Rightarrow> blk list \<Rightarrow> u32" where
  "entry_place m d ps bl =
     (case find (\<lambda>(p, c). holds_entry m d p) (zip ps bl) of
        None \<Rightarrow> 0 | Some (p, c) \<Rightarrow> addr c + 12 + (e_entry m d - p_vaddr m p))"

lemma entry_place_Cons:
  "entry_place m d (p # ps) (c # bl)
     = (if holds_entry m d p then addr c + 12 + (e_entry m d - p_vaddr m p) else entry_place m d ps bl)"
  by (simp add: entry_place_def)

lemma holds_entry_offset:
  assumes "holds_entry m d p"
  shows "e_entry m d - p_vaddr m p < p_memsz m p"
proof -
  let ?e = "e_entry m d" and ?v = "p_vaddr m p" and ?z = "p_memsz m p"
  have le: "unat ?v \<le> unat ?e" and lt: "unat ?e < unat (?v + ?z)"
    using assms by (simp_all add: holds_entry_def word_le_nat_alt word_less_nat_alt)
  have "unat (?v + ?z) \<le> unat ?v + unat ?z" by (simp add: unat_word_ariths)
  moreover have "unat (?e - ?v) = unat ?e - unat ?v" using le by (simp add: unat_sub word_le_nat_alt)
  ultimately show ?thesis using le lt by (simp add: word_less_nat_alt)
qed

text \<open>
  The loop of the image loader. It ends early at a segment outside the file or when the heap has no
  block; otherwise every loadable segment has a block of its own.
\<close>

definition load_done :: "mem \<Rightarrow> u32 \<Rightarrow> u32 \<Rightarrow> u32 list \<Rightarrow> blk list \<Rightarrow> heap \<Rightarrow> blk list \<Rightarrow> blk list \<Rightarrow> bool" where
  "load_done m0 d sz ps bs s' bs' bl \<longleftrightarrow> (\<forall>p \<in> set ps. \<not> segment_rejected m0 p sz)
     \<and> list_all2 (\<lambda>p c. loaded m0 d p c (hmem s')) ps bl \<and> distinct bl
     \<and> set bl \<inter> live bs = {} \<and> live bs' = live bs \<union> set bl"

definition load_failed :: "mem \<Rightarrow> u32 \<Rightarrow> u32 \<Rightarrow> u32 list \<Rightarrow> heap \<Rightarrow> blk list \<Rightarrow> heap \<Rightarrow> bool" where
  "load_failed m0 d sz ps s bs s' \<longleftrightarrow> (\<exists>done p rest t bt bl. ps = done @ p # rest \<and> kept s bs t bt \<and> (done = [] \<longrightarrow> t = s)
     \<and> load_done m0 d sz done bs t bt bl
     \<and> (if segment_rejected m0 p sz then s' = t else kmalloc (p_memsz m0 p) t = Some (0, s')))"

lemma load_done_Cons:
  assumes "load_done m0 d sz ps cs s' bs' bl" "\<not> segment_rejected m0 p sz" "loaded m0 d p c (hmem s')"
    and "live cs = insert c (live bs)" "c \<notin> live bs"
  shows "load_done m0 d sz (p # ps) bs s' bs' (c # bl)"
  using assms by (auto simp: load_done_def)

lemma load_failed_here:
  assumes "heap_inv s bs" "if segment_rejected m0 p sz then s' = s else kmalloc (p_memsz m0 p) s = Some (0, s')"
  shows "load_failed m0 d sz (p # ps) s bs s'"
  using assms kept_refl [OF assms(1)] unfolding load_failed_def load_done_def
  by (intro exI [of _ "[]"] exI [of _ p] exI [of _ ps] exI [of _ s] exI [of _ bs]) auto

lemma load_failed_later:
  assumes "load_failed m0 d sz ps t cs s'" "kept s bs t cs" "\<not> segment_rejected m0 p sz" "loaded m0 d p c (hmem t)"
    and "live cs = insert c (live bs)" "c \<notin> live bs"
  shows "load_failed m0 d sz (p # ps) s bs s'"
proof -
  from assms(1) obtain ds q rest u bu bl where f: "ps = ds @ q # rest" "kept t cs u bu" "load_done m0 d sz ds cs u bu bl"
    "if segment_rejected m0 q sz then s' = u else kmalloc (p_memsz m0 q) u = Some (0, s')"
    unfolding load_failed_def by blast
  have "loaded m0 d p c (hmem u)" using loaded_kept [OF assms(4) f(2)] assms(5) by simp
  from load_done_Cons [OF f(3) assms(3) this assms(5,6)] f(1,4) kept_trans [OF assms(2) f(2)]
  show ?thesis unfolding load_failed_def
    by (intro exI [of _ "p # ds"] exI [of _ q] exI [of _ rest] exI [of _ u] exI [of _ bu] exI [of _ "c # bl"]) simp
qed

lemma elf_image_loop_spec:
  assumes ok: "image_ok m0 d sz" and big: "\<And>p. p \<in> set (elf_segments m0 d) \<Longrightarrow> unat (p_memsz m0 p) \<le> 4294967288"
    and "drop i (phdrs m0 d) = ps" and "i \<le> unat (e_phnum m0 d)" and "heap_inv s bs" and "same_file m0 d sz (hmem s)"
    and "span d (unat sz) \<inter> managed (hpmm s) bs = {}"
  shows "\<exists>r s' bs'. elf_image_loop d sz (d + e_phoff m0 d) (of_nat i) n b e s = Some (r, s') \<and> kept s bs s' bs'
    \<and> (case r of
         None \<Rightarrow> load_failed m0 d sz (filter (loadable m0) ps) s bs s'
       | Some (n', b', e') \<Rightarrow> n' = n + of_nat (length (filter (loadable m0) ps))
           \<and> b' = b + sum_list (map (p_memsz m0) (filter (loadable m0) ps))
           \<and> (\<exists>bl. load_done m0 d sz (filter (loadable m0) ps) bs s' bs' bl
                \<and> e' = (if e \<noteq> 0 then e else entry_place m0 d (filter (loadable m0) ps) bl)))"
  using assms(3-7)
proof (induction ps arbitrary: i n b e s bs)
  case Nil
  have eok: "elf_ok m0 d sz" using ok by (simp add: image_ok_def)
  have "i = unat (e_phnum m0 d)" using Nil.prems(1,2) by (simp add: phdrs_def)
  then have "\<not> (of_nat i :: u32) < ucast (e_phnum (hmem s) d)" using phdr_end file_ehdr(1) [OF eok Nil.prems(4)] by simp
  then have "elf_image_loop d sz (d + e_phoff m0 d) (of_nat i) n b e s = Some (Some (n, b, e), s)"
    by (simp add: elf_image_loop.simps [of d sz _ "of_nat i"])
  then show ?case using kept_refl [OF Nil.prems(3)] by (auto simp: load_done_def entry_place_def)
next
  case (Cons p ps)
  have eok: "elf_ok m0 d sz" using ok by (simp add: image_ok_def)
  note st = phdr_step [OF Cons.prems(1)] and eh = file_ehdr [OF eok Cons.prems(4)]
    and f = file_phdr [OF eok Cons.prems(4) phdr_step(3) [OF Cons.prems(1)]]
  have rej: "segment_rejected (hmem s) p sz = segment_rejected m0 p sz" by (simp add: segment_rejected_def f)
  have suc: "of_nat i + 1 = (of_nat (Suc i) :: u32)" by simp
  have le: "Suc i \<le> unat (e_phnum m0 d)" using st(1) by simp
  let ?L = "\<lambda>i. elf_image_loop d sz (d + e_phoff m0 d) i" and ?mz = "p_memsz m0 p"
  show ?case
  proof (cases "loadable m0 p")
    case False
    then have "?L (of_nat i) n b e s = ?L (of_nat (Suc i)) n b e s"
      using st(5) unfolding elf_image_loop.simps [of d sz _ "of_nat i"] suc [symmetric] by (auto simp: st(2) f eh loadable_def)
    moreover have "filter (loadable m0) (p # ps) = filter (loadable m0) ps" using False by simp
    ultimately show ?thesis using Cons.IH [OF st(4) le Cons.prems(3-5), of n b e] by (simp only:)
  next
    case ld: True
    let ?segs = "filter (loadable m0) ps"
    have segs: "filter (loadable m0) (p # ps) = p # ?segs" and p: "p \<in> set (elf_segments m0 d)"
      using st(3) ld by (simp_all add: elf_segments_def)
    have step: "?L (of_nat i) n b e s = (if segment_rejected m0 p sz then Some (None, s)
        else Option.bind (kmalloc ?mz s) (\<lambda>(dst, s). if dst = 0 then Some (None, s)
          else let s = s\<lparr>hmem := load_segment p d dst (hmem s)\<rparr>
               in ?L (of_nat (Suc i)) (n + 1) (b + p_memsz (hmem s) p)
                    (if e = 0 \<and> holds_entry (hmem s) d p then dst + (e_entry (hmem s) d - p_vaddr (hmem s) p) else e) s))"
      using st(5) ld unfolding elf_image_loop.simps [of d sz _ "of_nat i"] suc [symmetric] holds_entry_def Let_def st(2)
      by (simp add: f eh rej loadable_def)
    consider (rejected) "segment_rejected m0 p sz"
      | (null) s1 bs1 where "\<not> segment_rejected m0 p sz" "kmalloc ?mz s = Some (0, s1)" "alloc_result (align8 ?mz) s bs 0 s1 bs1"
      | (block) dst s1 bs1 where "\<not> segment_rejected m0 p sz" "dst \<noteq> 0" "kmalloc ?mz s = Some (dst, s1)"
          "alloc_result (align8 ?mz) s bs dst s1 bs1"
      using kmalloc_spec [OF Cons.prems(3), of ?mz] by metis
    then show ?thesis
    proof cases
      case rejected
      then show ?thesis unfolding segs step using kept_refl [OF Cons.prems(3)] load_failed_here [OF Cons.prems(3)] by auto
    next
      case null
      then show ?thesis unfolding segs step
        using kept_alloc [OF null(3)] load_failed_here [OF Cons.prems(3)] by auto
    next
      case block
      let ?s2 = "s1\<lparr>hmem := load_segment p d dst (hmem s1)\<rparr>"
      obtain c where c: "live bs1 = insert c (live bs)" "c \<notin> live bs" "kept s bs ?s2 bs1" "loaded m0 d p c (hmem ?s2)"
        "dst = addr c + 12" "\<And>j. j < ?mz \<Longrightarrow> dst + j \<noteq> 0"
        using load_block [OF ok p big [OF p] block(1) Cons.prems(3-5) block(4,2)] by auto
      note kf = kept_file [OF c(3) Cons.prems(4,5)]
      note f2 = file_phdr [OF eok kf(1) st(3)] file_ehdr [OF eok kf(1)]
      have inv2: "heap_inv ?s2 bs1" using c(3) by (simp add: kept_def)
      define e1 where "e1 = (if e = 0 \<and> holds_entry m0 d p then dst + (e_entry m0 d - p_vaddr m0 p) else e)"
      obtain r s' bs' where ih: "?L (of_nat (Suc i)) (n + 1) (b + ?mz) e1 ?s2 = Some (r, s')" "kept ?s2 bs1 s' bs'"
        "case r of None \<Rightarrow> load_failed m0 d sz ?segs ?s2 bs1 s'
         | Some (n', b', e') \<Rightarrow> n' = n + 1 + of_nat (length ?segs) \<and> b' = b + ?mz + sum_list (map (p_memsz m0) ?segs)
             \<and> (\<exists>bl. load_done m0 d sz ?segs bs1 s' bs' bl \<and> e' = (if e1 \<noteq> 0 then e1 else entry_place m0 d ?segs bl))"
        using Cons.IH [OF st(4) le inv2 kf, of "n + 1" "b + ?mz" e1] by blast
      have hold: "holds_entry (hmem ?s2) d p = holds_entry m0 d p" unfolding holds_entry_def f2 ..
      have "?L (of_nat i) n b e s = ?L (of_nat (Suc i)) (n + 1) (b + p_memsz (hmem ?s2) p)
          (if e = 0 \<and> holds_entry (hmem ?s2) d p then dst + (e_entry (hmem ?s2) d - p_vaddr (hmem ?s2) p) else e) ?s2"
        unfolding step Let_def using block(1-3) by simp
      then have run: "?L (of_nat i) n b e s = Some (r, s')" unfolding f2 hold e1_def [symmetric] ih(1) .
      have all: "kept s bs s' bs'" using kept_trans [OF c(3) ih(2)] .
      have failed: "load_failed m0 d sz (p # ?segs) s bs s'" if "r = None"
        using ih(3) that load_failed_later [OF _ c(3) block(1) c(4,1,2)] by auto
      have finished: "\<exists>bl. load_done m0 d sz (p # ?segs) bs s' bs' bl
          \<and> e' = (if e \<noteq> 0 then e else entry_place m0 d (p # ?segs) bl)" if r: "r = Some (n', b', e')" for n' b' e'
      proof -
        obtain bl where bl: "load_done m0 d sz ?segs bs1 s' bs' bl" "e' = (if e1 \<noteq> 0 then e1 else entry_place m0 d ?segs bl)"
          using ih(3) unfolding r by auto
        have "loaded m0 d p c (hmem s')" using loaded_kept [OF c(4) ih(2)] c(1) by simp
        from load_done_Cons [OF bl(1) block(1) this c(1,2)]
        have "load_done m0 d sz (p # ?segs) bs s' bs' (c # bl)" .
        moreover have "e' = (if e \<noteq> 0 then e else entry_place m0 d (p # ?segs) (c # bl))"
          using bl(2) c(5) c(6) [OF holds_entry_offset] by (auto simp: e1_def entry_place_Cons)
        ultimately show ?thesis by blast
      qed
      show ?thesis
      proof (cases r)
        case None
        then show ?thesis unfolding segs using run all failed by auto
      next
        case (Some t)
        moreover obtain n' b' e' where "t = (n', b', e')" by (cases t)
        ultimately have r: "r = Some (n', b', e')" by simp
        have "n' = n + of_nat (length (p # ?segs))" "b' = b + sum_list (map (p_memsz m0) (p # ?segs))"
          using ih(3) unfolding r by (simp_all add: add.assoc)
        then show ?thesis unfolding segs using run all finished [OF r] unfolding r
          by (intro exI [of _ "Some (n', b', e')"] exI [of _ s'] exI [of _ bs']) simp
      qed
    qed
  qed
qed

end
