(* ===== verification/Elf_Load.thy ===== *)
theory Elf_Load
  imports Elf_Props
begin

text \<open>
  The properties of the loader: exact validation, agreement of the two heap loaders, and what each
  loader leaves in memory. Samples: a small program in a ramdisk file.
\<close>

section \<open>The two heap loaders\<close>

text \<open>\<open>elf_load_loop\<close> is \<open>elf_image_loop\<close> without the entry point, whatever the loads overwrite.\<close>

lemma load_loop_of_image:
  "elf_load_loop d sz ph i n b s
     = map_option (\<lambda>(r, s'). (map_option (\<lambda>(n', b', _). (n', b')) r, s')) (elf_image_loop d sz ph i n b e s)"
proof (induction "65536 - unat i" arbitrary: i n b e s rule: less_induct)
  case less
  let ?N = "ucast (e_phnum (hmem s) d) :: u32"
  show ?case
  proof (cases "i < ?N")
    case False
    then show ?thesis by (simp add: elf_load_loop.simps [of d sz ph i] elf_image_loop.simps [of d sz ph i])
  next
    case True
    have lt: "unat i < 65536" using True unat_u16_less [of "e_phnum (hmem s) d"] by (simp add: word_less_nat_alt)
    then have "unat (i + 1) = unat i + 1" using unat_add_nowrap [of i 1] by simp
    then have "65536 - unat (i + 1) < 65536 - unat i" using lt by simp
    note ih = less [OF this]
    let ?p = "phdr_at ph i"
    consider "p_type (hmem s) ?p \<noteq> PT_LOAD \<or> p_memsz (hmem s) ?p = 0"
      | "p_type (hmem s) ?p = PT_LOAD" "p_memsz (hmem s) ?p \<noteq> 0" "segment_rejected (hmem s) ?p sz"
      | "p_type (hmem s) ?p = PT_LOAD" "p_memsz (hmem s) ?p \<noteq> 0" "\<not> segment_rejected (hmem s) ?p sz"
      by blast
    then show ?thesis
    proof cases
      case 1
      then show ?thesis using True ih [of n b s e]
        by (auto simp: elf_load_loop.simps [of d sz ph i] elf_image_loop.simps [of d sz ph i] Let_def)
    next
      case 2
      then show ?thesis using True
        by (simp add: elf_load_loop.simps [of d sz ph i] elf_image_loop.simps [of d sz ph i] Let_def)
    next
      case 3
      show ?thesis
      proof (cases "kmalloc (p_memsz (hmem s) ?p) s")
        case None
        then show ?thesis using True 3
          by (simp add: elf_load_loop.simps [of d sz ph i] elf_image_loop.simps [of d sz ph i] Let_def)
      next
        case (Some a)
        moreover obtain dst s1 where "a = (dst, s1)" by (cases a)
        ultimately show ?thesis using True 3 ih
          by (simp add: elf_load_loop.simps [of d sz ph i] elf_image_loop.simps [of d sz ph i] Let_def)
      qed
    qed
  qed
qed

text \<open>
  C21. The two heap loaders are the same program up to the entry point they report:
  in every state, on every file, they end together and leave the same memory and the same heap, report
  the same entry address, segment count and byte count, and one fails exactly when the other does;
  \<open>elf_load_image_from_vfs\<close> answers 1 only if it has loaded at least one segment.
\<close>

theorem elf_loaders_agree:
  "elf_load_from_vfs st path True True True s =
     map_option (\<lambda>((ok, v, e, n, b), s'). ((if v = None then 0 else 1, v, n, b), s'))
       (elf_load_image_from_vfs st path True True True True s)
   \<and> map_option (\<lambda>((ok, v, e, n, b), s'). ok) (elf_load_image_from_vfs st path True True True True s) =
     map_option (\<lambda>((ok, v, n, b), s'). if n = None \<or> n = Some 0 then 0 else 1) (elf_load_from_vfs st path True True True s)"
proof (cases "open_image (hmem s) st path")
  case None
  then show ?thesis by (simp add: elf_load_from_vfs_def elf_load_image_from_vfs_def)
next
  case (Some f)
  show ?thesis
  proof (cases f)
    case None
    then show ?thesis using Some by (simp add: elf_load_from_vfs_def elf_load_image_from_vfs_def)
  next
    case (Some fl)
    let ?d = "vdata fl" and ?ph = "vdata fl + e_phoff (hmem s) (vdata fl)"
    show ?thesis
      using \<open>open_image (hmem s) st path = Some f\<close> Some load_loop_of_image [of ?d "vsize fl" ?ph 0 0 0 s 0]
      by (cases "elf_image_loop ?d (vsize fl) ?ph 0 0 0 0 s")
        (auto simp: elf_load_from_vfs_def elf_load_image_from_vfs_def Let_def store_if_def word_gt_0 split: option.splits)
  qed
qed

section \<open>Files\<close>

text \<open>\<open>program_file m st path d sz\<close>: the path names a file whose contents are the \<open>sz\<close> bytes at \<open>d\<close>.\<close>

definition program_file :: "mem \<Rightarrow> initrd \<Rightarrow> u32 \<Rightarrow> u32 \<Rightarrow> u32 \<Rightarrow> bool" where
  "program_file m st path d sz \<longleftrightarrow> path \<noteq> 0 \<and> d \<noteq> 0
     \<and> vfs_open m st path = Some \<lparr>vdata = d, vsize = sz, vposition = 0, vvalid = 1\<rparr>"

lemma program_file_indexed:
  assumes "indexed m st fs" "str_at m path cs" "path \<noteq> 0" "lookup fs cs = Some t"
    and "initrd_base st + of_nat (toff t) \<noteq> 0"
  shows "program_file m st path (initrd_base st + of_nat (toff t)) (of_nat (tsize t))"
  using assms vfs_open_spec [OF assms(1-3)] by (simp add: program_file_def)

lemma open_program:
  assumes "program_file m st path d sz"
  shows "open_image m st path = Some (if elf_ok m d sz then Some \<lparr>vdata = d, vsize = sz, vposition = 0, vvalid = 1\<rparr> else None)"
  using assms by (simp add: open_image_def program_file_def elf_validate_eq)

section \<open>A sample program\<close>

text \<open>
  A file at \<open>0x300000\<close> of 86 bytes: one loadable segment for \<open>0x400000\<close> with two bytes of contents and
  four bytes in memory, entry point \<open>0x400001\<close>. The index entry is at \<open>0x5000\<close>, the path at \<open>0x6000\<close>.
\<close>

definition elf_mem :: mem where
  "elf_mem = (\<lambda>_. 0)(0x5000 := 0x61, 0x5068 := 86, 0x6000 := 0x61,
     0x300000 := 0x7F, 0x300001 := 0x45, 0x300002 := 0x4C, 0x300003 := 0x46, 0x300004 := 1, 0x300005 := 1, 0x300006 := 1,
     0x300010 := 2, 0x300012 := 3, 0x300014 := 1, 0x300018 := 1, 0x30001A := 0x40, 0x30001C := 52, 0x30002A := 32,
     0x30002C := 1, 0x300034 := 1, 0x300038 := 84, 0x30003E := 0x40, 0x300044 := 2, 0x300048 := 4,
     0x300054 := 0xAA, 0x300055 := 0xBB)"

definition elf_member :: member where "elf_member = Member [0x61] 0x30 0 86"

definition elf_index :: initrd where
  "elf_index = \<lparr>initrd_ready = 1, initrd_base = 0x300000, initrd_size = 0x400, initrd_files = 0x5000, initrd_files_count = 1\<rparr>"

lemma elf_program: "program_file elf_mem elf_index 0x6000 0x300000 86"
proof -
  have ix: "indexed elf_mem elf_index [elf_member]"
    by (simp add: indexed_def elf_index_def elf_member_def file_entry_def entry_for_def entry_offset_def
        entry_size_def elf_mem_def read_u32_def push_bit_eq_mult)
  have nm: "str_at elf_mem 0x6000 [0x61]" by (simp add: elf_mem_def)
  have lk: "lookup [elf_member] [0x61] = Some elf_member" by (simp add: lookup_def fname_def elf_member_def)
  show ?thesis using program_file_indexed [OF ix nm _ lk] by (simp add: elf_index_def elf_member_def)
qed

lemma elf_fields:
  "e_version elf_mem 0x300000 = 1" "e_machine elf_mem 0x300000 = 3" "e_type elf_mem 0x300000 = 2"
  "e_phnum elf_mem 0x300000 = 1" "e_phentsize elf_mem 0x300000 = 32" "e_phoff elf_mem 0x300000 = 52"
  "e_entry elf_mem 0x300000 = 0x400001"
  by (simp_all add: e_version_def e_machine_def e_type_def e_phnum_def e_phentsize_def e_phoff_def e_entry_def
      read_u32_def read_u16_def elf_mem_def push_bit_eq_mult)

lemma elf_segment_fields:
  "p_type elf_mem 0x300034 = PT_LOAD" "p_offset elf_mem 0x300034 = 84" "p_vaddr elf_mem 0x300034 = 0x400000"
  "p_filesz elf_mem 0x300034 = 2" "p_memsz elf_mem 0x300034 = 4"
  by (simp_all add: p_type_def p_offset_def p_vaddr_def p_filesz_def p_memsz_def PT_LOAD_def
      read_u32_def elf_mem_def push_bit_eq_mult)

lemma elf_sample_ok: "elf_ok elf_mem 0x300000 86"
  by (simp add: elf_ok_def elf_fields bytes_at_def upt_rec) (simp add: elf_mem_def)

lemma elf_sample_phdrs: "phdrs elf_mem 0x300000 = [0x300034]"
  by (simp add: phdrs_def elf_fields phdr_at_def)

lemma elf_sample_segments: "elf_segments elf_mem 0x300000 = [0x300034]"
  by (simp add: elf_segments_def elf_sample_phdrs loadable_def elf_segment_fields)

lemma elf_sample_image: "image_ok elf_mem 0x300000 86"
  by (simp add: image_ok_def elf_sample_ok elf_sample_segments elf_segment_fields)

section \<open>Validation\<close>

text \<open>
  C22. \<open>elf_validate_buffer\<close> accepts exactly the buffers that hold an ELF32
  little-endian i386 image of version 1, executable or shared, with at least one program header of 32
  bytes and the whole program header table, by its true size, inside the buffer: the comparison with
  the wrapped end of the table rejects every table that overflows. The header and every program
  header the loaders read are then inside the buffer.
\<close>

theorem elf_validate_exact:
  "elf_validate_buffer m d sz =
      (if 52 \<le> unat sz \<and> bytes_at m d 7 = [0x7F, 0x45, 0x4C, 0x46, 1, 1, 1] \<and> e_version m d = 1
          \<and> e_machine m d = 3 \<and> e_type m d \<in> {2, 3} \<and> 0 < unat (e_phnum m d) \<and> unat (e_phentsize m d) = 32
          \<and> unat (e_phoff m d) + 32 * unat (e_phnum m d) \<le> unat sz
       then 1 else 0)
   \<and> (elf_validate_buffer m d sz \<noteq> 0 \<longrightarrow>
        (\<forall>i < unat (e_phnum m d). span (phdr_at (d + e_phoff m d) (of_nat i)) 32 \<subseteq> span d (unat sz)))"
proof -
  have "span (phdr_at (d + e_phoff m d) (of_nat i)) 32 \<subseteq> span d (unat sz)"
    if "elf_ok m d sz" "i < unat (e_phnum m d)" for i
    using that phdr_in_file [OF that(1), of "phdr_at (d + e_phoff m d) (of_nat i)"] by (auto simp: phdrs_def)
  then show ?thesis unfolding elf_validate_eq elf_ok_def by auto
qed

theorem elf_validate_exact_witness:
  "elf_validate_buffer elf_mem 0x300000 86 = 1 \<and> span 0x300034 32 \<subseteq> span 0x300000 86
   \<and> elf_validate_buffer elf_mem 0x300000 80 = 0"
  using elf_validate_exact [of elf_mem "0x300000" 86] elf_validate_exact [of elf_mem "0x300000" 80] elf_sample_ok
  by (simp add: elf_fields elf_ok_def phdr_at_def)

lemma count_loadable_eq:
  "elf_count_loadable_segments m d = of_nat (length (filter (\<lambda>p. p_type m p = PT_LOAD) (phdrs m d)))"
proof -
  let ?at = "\<lambda>i. phdr_at (d + e_phoff m d) i" and ?n = "ucast (e_phnum m d) :: u32"
  let ?P = "\<lambda>(i :: u32) c. c = (of_nat (length (filter (\<lambda>k. p_type m (?at (of_nat k)) = PT_LOAD) [0..<unat i])) :: u32)"
  have "?P ?n (elf_count_loadable_segments m d)"
    unfolding elf_count_loadable_segments_def
  proof (rule for_u32_invariant [where P = ?P])
    fix i c
    assume "i < ?n" "?P i c"
    then show "?P (i + 1) (if p_type m (?at i) = PT_LOAD then c + 1 else c)" by (simp add: unat_suc_less)
  qed simp_all
  then show ?thesis by (simp add: phdrs_def filter_map o_def)
qed

section \<open>Loading into heap blocks\<close>

lemma length_segments: "length (elf_segments m d) < 65536"
proof -
  have "length (elf_segments m d) \<le> length (phdrs m d)" by (simp add: elf_segments_def)
  also have "\<dots> = unat (e_phnum m d)" by (simp add: phdrs_def)
  finally show ?thesis using unat_u16_less [of "e_phnum m d"] by simp
qed

lemma of_nat_segments: "(of_nat (length (elf_segments m d)) :: u32) = 0 \<longleftrightarrow> elf_segments m d = []"
  using length_segments [of m d] by (simp add: word_unat_eq_iff unat_of_nat)

text \<open>The run of the loop, and the results the function makes of it.\<close>

lemma elf_load_image_spec:
  assumes prog: "program_file (hmem s) st path d sz" and ok: "image_ok (hmem s) d sz"
    and big: "\<forall>p \<in> set (elf_segments (hmem s) d). unat (p_memsz (hmem s) p) \<le> 4294967288"
    and inv: "heap_inv s bs" and apart: "span d (unat sz) \<inter> managed (hpmm s) bs = {}"
  shows "\<exists>r s' bs'. elf_load_image_from_vfs st path True True True True s = Some (r, s') \<and> kept s bs s' bs'
    \<and> (r = (0, None, None, None, None) \<and> load_failed (hmem s) d sz (elf_segments (hmem s) d) s bs s'
       \<or> (\<exists>bl. load_done (hmem s) d sz (elf_segments (hmem s) d) bs s' bs' bl
            \<and> r = (if elf_segments (hmem s) d = [] then 0 else 1, Some (e_entry (hmem s) d),
                   Some (entry_place (hmem s) d (elf_segments (hmem s) d) bl),
                   Some (of_nat (length (elf_segments (hmem s) d))),
                   Some (sum_list (map (p_memsz (hmem s)) (elf_segments (hmem s) d))))))"
proof -
  let ?m = "hmem s"
  have eok: "elf_ok ?m d sz" using ok by (simp add: image_ok_def)
  have same: "same_file ?m d sz ?m" by (simp add: same_file_def)
  obtain r s' bs' where run: "elf_image_loop d sz (d + e_phoff ?m d) 0 0 0 0 s = Some (r, s')" and k: "kept s bs s' bs'"
    and res: "case r of None \<Rightarrow> load_failed ?m d sz (elf_segments ?m d) s bs s'
       | Some (n', b', e') \<Rightarrow> n' = of_nat (length (elf_segments ?m d)) \<and> b' = sum_list (map (p_memsz ?m) (elf_segments ?m d))
           \<and> (\<exists>bl. load_done ?m d sz (elf_segments ?m d) bs s' bs' bl \<and> e' = entry_place ?m d (elf_segments ?m d) bl)"
    using elf_image_loop_spec [OF ok big [rule_format] _ _ inv same apart, of 0 "phdrs ?m d" 0 0 0]
    by (simp cong: option.case_cong prod.case_cong flip: elf_segments_def) blast
  have entry: "e_entry (hmem s') d = e_entry ?m d" using file_ehdr(2) [OF eok kept_file(1) [OF k same apart]] .
  have start: "elf_load_image_from_vfs st path True True True True s = Some (case r of
      None \<Rightarrow> ((0, None, None, None, None), s')
    | Some (n, b, e) \<Rightarrow> ((if n > 0 then 1 else 0, Some (e_entry (hmem s') d), Some e, Some n, Some b), s'))"
    using run open_program [OF prog] eok by (simp add: elf_load_image_from_vfs_def Let_def store_if_def split: option.split)
  show ?thesis
  proof (cases r)
    case None
    then show ?thesis using start k res by auto
  next
    case (Some t)
    moreover obtain n b e where "t = (n, b, e)" by (cases t)
    ultimately have r: "r = Some (n, b, e)" by simp
    obtain bl where bl: "load_done ?m d sz (elf_segments ?m d) bs s' bs' bl" "e = entry_place ?m d (elf_segments ?m d) bl"
      "n = of_nat (length (elf_segments ?m d))" "b = sum_list (map (p_memsz ?m) (elf_segments ?m d))"
      using res unfolding r by auto
    have "(n > 0) = (elf_segments ?m d \<noteq> [])" using of_nat_segments [of ?m d] bl(3) by (simp add: word_gt_0)
    then have "elf_load_image_from_vfs st path True True True True s = Some ((if elf_segments ?m d = [] then 0 else 1,
        Some (e_entry ?m d), Some e, Some n, Some b), s')" using start unfolding r entry by simp
    then show ?thesis using k bl(1) unfolding bl(2-4) by blast
  qed
qed


definition elf_heap :: heap where
  "elf_heap = \<lparr>hmem = elf_mem, hpmm = pmm_sample, heap_head = 0\<rparr>"

lemma elf_heap_inv: "heap_inv elf_heap []"
  by (simp add: heap_inv_def elf_heap_def pmm_sample_wf blks_ok_def frames_held_def)


section \<open>Loading to the requested addresses\<close>

lemma place_other: "x \<notin> span dst (unat (p_memsz m0 p)) \<Longrightarrow> place m0 d p dst m x = m x"
  by (simp add: place_def)

lemma identity_image_other:
  assumes "\<And>p. p \<in> set ps \<Longrightarrow> x \<notin> span (p_vaddr m0 p) (unat (p_memsz m0 p))"
  shows "identity_image m0 d ps m x = m x"
  using assms by (induction ps arbitrary: m) (auto simp: identity_image_def place_other)

text \<open>Where segments overlap, the last one placed wins.\<close>

lemma identity_image_last:
  assumes "x \<in> span (p_vaddr m0 p) (unat (p_memsz m0 p))"
    and "\<And>q. q \<in> set ys \<Longrightarrow> x \<notin> span (p_vaddr m0 q) (unat (p_memsz m0 q))"
  shows "identity_image m0 d (xs @ p # ys) m x = seg_byte m0 d p (x - p_vaddr m0 p)"
proof -
  have "identity_image m0 d (xs @ p # ys) m = identity_image m0 d ys (place m0 d p (p_vaddr m0 p) (identity_image m0 d xs m))"
    by (simp add: identity_image_def)
  then show ?thesis using identity_image_other [OF assms(2)] assms(1) by (simp add: place_def)
qed

lemma placeable_range:
  assumes "placeable m0 limit sz p" "x \<in> span (p_vaddr m0 p) (unat (p_memsz m0 p))"
  shows "0x100000 \<le> x \<and> x < limit"
  using assms span_nowrap [of "p_vaddr m0 p" "unat (p_memsz m0 p)" x] unat_less_2p32 [of limit]
  by (simp add: placeable_def word_le_nat_alt word_less_nat_alt)

text \<open>
  C12. The identity loader, given prepared page tables and a valid program
  file, with no file range that wraps, that none of its segments would overwrite, places the loadable segments one
  after the other, each as the bytes of the file followed by zeros, at its virtual address, and stops at the
  first one that is outside the file, below 1 MiB, or ends above the identity limit, all by their true values.
  Segments may overlap each other: a byte holds what the last placed segment that covers it has there. The
  loader succeeds exactly when there is a segment and none is refused; the counts are exact; in every case
  no byte below 1 MiB or at or above the limit is written, so everything written is mapped to itself.
\<close>

theorem elf_identity_loads_image:
  assumes prog: "program_file m st path d sz" and ok: "image_ok m d sz"
    and prep: "paging_is_prepared pg \<noteq> 0" and lim: "paging_get_identity_limit_bytes pg = limit" "limit \<noteq> 0"
    and out: "\<forall>p \<in> set (elf_segments m d). placeable m limit sz p
      \<longrightarrow> span (p_vaddr m p) (unat (p_memsz m p)) \<inter> span d (unat sz) = {}"
  shows "\<exists>m'. elf_load_virtual_identity_from_vfs pg st path True True True m = Some (
       if \<forall>p \<in> set (elf_segments m d). placeable m limit sz p
       then ((if elf_segments m d = [] then 0 else 1, Some (e_entry m d), Some (of_nat (length (elf_segments m d))),
              Some (sum_list (map (p_memsz m) (elf_segments m d)))), m')
       else ((0, None, None, None), m'))
    \<and> m' = identity_image m d (takeWhile (placeable m limit sz) (elf_segments m d)) m
    \<and> (\<forall>xs p ys x. takeWhile (placeable m limit sz) (elf_segments m d) = xs @ p # ys
         \<longrightarrow> x \<in> span (p_vaddr m p) (unat (p_memsz m p)) \<longrightarrow> (\<forall>q \<in> set ys. x \<notin> span (p_vaddr m q) (unat (p_memsz m q)))
         \<longrightarrow> m' x = seg_byte m d p (x - p_vaddr m p))
    \<and> (\<forall>x. \<not> (0x100000 \<le> x \<and> x < limit) \<longrightarrow> m' x = m x)"
proof -
  let ?good = "takeWhile (placeable m limit sz) (elf_segments m d)"
  let ?m' = "identity_image m d ?good m"
  have eok: "elf_ok m d sz" using ok by (simp add: image_ok_def)
  have other: "?m' x = m x" if "\<not> (0x100000 \<le> x \<and> x < limit)" for x
    using that by (intro identity_image_other) (blast dest: set_takeWhileD placeable_range)
  have "same_file m d sz ?m'" unfolding same_file_def
    using out by (intro ballI identity_image_other) (blast dest: set_takeWhileD)
  then have entry: "e_entry ?m' d = e_entry m d" using file_ehdr(2) [OF eok] by blast
  have all: "?good = elf_segments m d \<longleftrightarrow> (\<forall>p \<in> set (elf_segments m d). placeable m limit sz p)"
    by (simp add: takeWhile_eq_all_conv)
  have "elf_identity_loop limit d sz (d + e_phoff m d) (of_nat 0) 0 0 m =
    Some (if ?good = elf_segments m d then Some (0 + of_nat (length ?good), 0 + sum_list (map (p_memsz m) ?good)) else None, ?m')"
    unfolding elf_segments_def by (rule identity_loop_eq [OF ok]) (use out in \<open>auto simp: same_file_def\<close>)
  then have loop: "elf_identity_loop limit d sz (d + e_phoff m d) 0 0 0 m =
    Some (if ?good = elf_segments m d
            then Some (of_nat (length (elf_segments m d)), sum_list (map (p_memsz m) (elf_segments m d))) else None, ?m')"
    by (cases "?good = elf_segments m d") (simp_all del: takeWhile_eq_all_conv)
  have "elf_load_virtual_identity_from_vfs pg st path True True True m = Some (
      if ?good = elf_segments m d
      then ((if elf_segments m d = [] then 0 else 1, Some (e_entry ?m' d), Some (of_nat (length (elf_segments m d))),
             Some (sum_list (map (p_memsz m) (elf_segments m d)))), ?m')
      else ((0, None, None, None), ?m'))"
    using open_program [OF prog] eok prep lim prog loop of_nat_segments [of m d]
    by (simp add: elf_load_virtual_identity_from_vfs_def Let_def store_if_def program_file_def word_gt_0
        del: takeWhile_eq_all_conv)
  moreover have "?m' x = seg_byte m d p (x - p_vaddr m p)" if "?good = xs @ p # ys" "x \<in> span (p_vaddr m p) (unat (p_memsz m p))"
    "\<forall>q \<in> set ys. x \<notin> span (p_vaddr m q) (unat (p_memsz m q))" for xs p ys x
    unfolding that(1) using identity_image_last [OF that(2)] that(3) by blast
  ultimately show ?thesis using other unfolding all entry by blast
qed

definition paging_sample :: paging where
  "paging_sample = paging_prepare_identity 0x200000 0x1000000 paging_boot"

theorem elf_identity_loads_image_witness:
  "program_file elf_mem elf_index 0x6000 0x300000 86 \<and> image_ok elf_mem 0x300000 86
   \<and> (\<exists>m'. elf_load_virtual_identity_from_vfs paging_sample elf_index 0x6000 True True True elf_mem
           = Some ((1, Some 0x400001, Some 1, Some 4), m')
        \<and> m' 0x400000 = 0xAA \<and> m' 0x400001 = 0xBB \<and> m' 0x400002 = 0 \<and> m' 0x300000 = 0x7F)"
proof -
  have lim: "paging_get_identity_limit_bytes paging_sample = 0x1000000" and prep: "paging_is_prepared paging_sample \<noteq> 0"
    by (simp_all add: paging_sample_def paging_prepare_identity_def Let_def paging_get_identity_limit_bytes_def
        paging_is_prepared_def page_count_of_def PAGE_SIZE_def PAGING_TABLE_COUNT_def PAGE_ENTRIES_def)
  have out: "span 0x400000 4 \<inter> span 0x300000 86 = {}"
    using span_nowrap [of "0x400000" 4] span_nowrap [of "0x300000" 86] by fastforce
  have "placeable elf_mem 0x1000000 86 0x300034"
    by (simp add: placeable_def segment_rejected_def elf_segment_fields)
  then show ?thesis
    using elf_identity_loads_image [OF elf_program elf_sample_image prep lim] elf_program elf_sample_image out
    by (simp add: elf_sample_segments elf_segment_fields elf_fields identity_image_def place_def seg_byte_def span_def)
      (simp add: elf_mem_def)
qed

end
