(* ===== verification/Interrupts.thy ===== *)
theory Interrupts
  imports Syscall_Props
begin

text \<open>
  The C side of the interrupt entry, \<open>arch/interrupt_handlers.c\<close>: exceptions, the system call vector and
  the device interrupts. The assembly stubs save the registers in a frame, call the handler and
  restore the registers from the frame.
\<close>

section \<open>Register frames\<close>

record registers =
  gs_reg :: u32
  fs_reg :: u32
  es_reg :: u32
  ds_reg :: u32
  edi :: u32
  esi :: u32
  ebp :: u32
  esp :: u32
  ebx :: u32
  edx :: u32
  ecx :: u32
  eax :: u32
  int_no :: u32
  err_code :: u32
  eip :: u32
  cs_reg :: u32
  eflags :: u32
  useresp :: u32
  ss_reg :: u32

definition exception_messages :: "cstr list" where
  "exception_messages =
     [lit ''Division By Zero'', lit ''Debug'', lit ''Non Maskable Interrupt'', lit ''Breakpoint'', lit ''Overflow'',
      lit ''Bound Range Exceeded'', lit ''Invalid Opcode'', lit ''Device Not Available'', lit ''Double Fault'',
      lit ''Coprocessor Segment Overrun'', lit ''Invalid TSS'', lit ''Segment Not Present'', lit ''Stack Segment Fault'',
      lit ''General Protection Fault'', lit ''Page Fault'', lit ''Reserved'', lit ''x87 Floating Point'',
      lit ''Alignment Check'', lit ''Machine Check'', lit ''SIMD Floating Point'', lit ''Virtualization'',
      lit ''Control Protection'', lit ''Reserved'', lit ''Reserved'', lit ''Reserved'', lit ''Reserved'', lit ''Reserved'',
      lit ''Reserved'', lit ''Hypervisor Injection'', lit ''VMM Communication'', lit ''Security'', lit ''Reserved'']"

section \<open>Numbers on the console\<close>

text \<open>The first loop of \<open>print_uint\<close>: the used part of \<open>buffer\<close>, least significant digit first.\<close>

function uint_digits :: "u32 \<Rightarrow> cstr \<Rightarrow> cstr" where
  "uint_digits v buffer =
     (if v > 0 \<and> length buffer < 10 then uint_digits (v div 10) (buffer @ [ucast (0x30 + v mod 10)]) else buffer)"
  by pat_completeness auto
termination
  by (relation "measure (\<lambda>(_, buffer). 10 - length buffer)") auto

declare uint_digits.simps [simp del]

definition print_uint :: "u32 \<Rightarrow> io \<Rightarrow> io" where
  "print_uint v s = (if v = 0 then printc 0x30 s else fold printc (rev (uint_digits v [])) s)"

section \<open>Handlers\<close>

text \<open>
  \<open>Iret\<close>: the handler returns to the stub, with the frame the registers are restored from; \<open>Halted\<close>: the
  processor stops for good with interrupts disabled. \<open>None\<close>: the handler does not end.
\<close>

datatype isr_result = Iret registers kernel | Halted kernel

definition isr_handler :: "registers \<Rightarrow> kernel \<Rightarrow> isr_result option" where
  "isr_handler regs s =
     (if int_no regs = 128 then
        do {
          (r, s) \<leftarrow> syscall_dispatch (eax regs) (ebx regs) (ecx regs) (edx regs) (esi regs) (edi regs) s;
          Some (Iret (regs\<lparr>eax := r\<rparr>) s)
        }
      else
        let reason = (if int_no regs < 32 then exception_messages ! unat (int_no regs) else lit ''Unknown'');
            o1 = println (chr_nl # lit ''KERNEL EXCEPTION'') (kio s);
            o2 = print_uint (int_no regs) (print (lit ''INT: '') o1);
            o3 = println reason (print (lit '' - '') o2);
            o4 = print_uint (err_code regs) (print (lit ''ERR: '') o3);
            o5 = println (chr_nl # lit ''System halted.'') o4
        in Some (Halted (s\<lparr>kio := o5\<rparr>)))"

definition irq_handler :: "device \<Rightarrow> registers \<Rightarrow> kernel \<Rightarrow> kernel" where
  "irq_handler dev regs s =
     (let n = int_no regs - 32
      in if n = 0 then case timer_handler (kkbd s, kio s) of (k, o1) \<Rightarrow> s\<lparr>kkbd := k, kio := o1\<rparr>
         else if n = 1 then case keyboard_handler dev (kkbd s, kio s) of (k, o1) \<Rightarrow> s\<lparr>kkbd := k, kio := o1\<rparr>
         else s\<lparr>kio := pic_send_eoi (ucast n) (kio s)\<rparr>)"

section \<open>Decimal numbers\<close>

text \<open>The reference: the decimal digits of a number, most significant first, and their value.\<close>

fun decimal :: "nat \<Rightarrow> cstr" where
  "decimal n = (if n < 10 then [of_nat (48 + n)] else decimal (n div 10) @ [of_nat (48 + n mod 10)])"

declare decimal.simps [simp del]

definition decimal_value :: "cstr \<Rightarrow> nat" where
  "decimal_value cs = foldl (\<lambda>a c. 10 * a + (unat c - 48)) 0 cs"

lemma decimal_value_decimal: "decimal_value (decimal n) = n"
proof (induction n rule: decimal.induct)
  case (1 n)
  have small: "unat (of_nat (48 + k) :: u8) = 48 + k" if "k < 10" for k
    using that by (simp add: unat_of_nat del: of_nat_add)
  show ?case
  proof (cases "n < 10")
    case True
    then show ?thesis using small [of n] by (simp add: decimal.simps [of n] decimal_value_def del: of_nat_add)
  next
    case False
    then show ?thesis using "1.IH" small [of "n mod 10"]
      by (simp add: decimal.simps [of n] decimal_value_def del: of_nat_add)
  qed
qed

lemma digit_char: "(ucast (0x30 + v mod 10 :: u32) :: u8) = of_nat (48 + unat v mod 10)"
proof -
  have "unat (0x30 + v mod 10) = 48 + unat v mod 10"
    using unat_add_nowrap [of "0x30" "v mod 10"] by (simp add: unat_mod)
  moreover have "(ucast x :: u8) = of_nat (unat x)" for x :: u32 by simp
  ultimately show ?thesis by metis
qed

text \<open>Ten places hold the digits of every 32-bit number.\<close>

lemma uint_digits_eq:
  "0 < v \<Longrightarrow> length buffer + k = 10 \<Longrightarrow> unat v < 10 ^ k \<Longrightarrow> uint_digits v buffer = buffer @ rev (decimal (unat v))"
proof (induction k arbitrary: v buffer)
  case 0
  then show ?case by (simp add: word_gt_0_no unat_eq_zero)
next
  case (Suc k)
  have step: "uint_digits v buffer = uint_digits (v div 10) (buffer @ [of_nat (48 + unat v mod 10)])"
    using Suc.prems by (simp add: uint_digits.simps [of v buffer] digit_char)
  show ?case
  proof (cases "unat v < 10")
    case True
    then have "v div 10 = 0" by (simp add: word_unat_eq_iff unat_div)
    then show ?thesis using step True by (simp add: uint_digits.simps [of 0] decimal.simps [of "unat v"])
  next
    case False
    have "0 < v div 10" "unat (v div 10) = unat v div 10"
      using False by (simp_all add: word_less_nat_alt unat_div)
    then show ?thesis using Suc.IH [of "v div 10" "buffer @ [of_nat (48 + unat v mod 10)]"] Suc.prems step False
      by (simp add: decimal.simps [of "unat v"])
  qed
qed

lemma print_uint_eq: "print_uint v s = print (decimal (unat v)) s"
proof (cases "v = 0")
  case True
  then show ?thesis by (simp add: print_uint_def print_def decimal.simps [of 0])
next
  case False
  then have "uint_digits v [] = rev (decimal (unat v))"
    using uint_digits_eq [of v "[]" 10] unat_less_2p32 [of v] by (simp add: word_gt_0)
  then show ?thesis using False by (simp add: print_uint_def print_def)
qed

lemma print_append: "print (xs @ ys) s = print ys (print xs s)"
  by (simp add: print_def)

lemma println_eq: "println xs s = print (xs @ [chr_nl]) s"
  by (simp add: println_def print_def)

section \<open>Properties\<close>

text \<open>
  C32. \<open>print_uint\<close> prints, for every 32-bit number, exactly its decimal digits, most
  significant first: the ten places of its buffer are enough, and reading the digits back gives the
  number.
\<close>

theorem print_uint_decimal:
  "print_uint v s = print (decimal (unat v)) s \<and> decimal_value (decimal (unat v)) = unat v"
  by (simp add: print_uint_eq decimal_value_decimal)

text \<open>
  C31. Every device interrupt is acknowledged exactly once, as the last thing its
  handler does: one end-of-interrupt command to the master controller, preceded by one to the slave
  exactly for the lines 8 and up, on no other occasion. The screen, the cursor, memory, the ramdisk
  index and the descriptors stay as they were.
\<close>

theorem irq_acknowledged:
  "(\<exists>evs. events (kio (irq_handler dev regs s)) = events (kio s) @ evs @ [Outb PIC_MASTER_CMD PIC_EOI]
      \<and> filter (\<lambda>e. \<exists>p v. e = Outb p v) evs
        = (if 8 \<le> (ucast (int_no regs - 32) :: u8) \<and> int_no regs - 32 \<notin> {0, 1} then [Outb PIC_SLAVE_CMD PIC_EOI] else []))
   \<and> video_memory (kio (irq_handler dev regs s)) = video_memory (kio s)
   \<and> cursor_x (kio (irq_handler dev regs s)) = cursor_x (kio s)
   \<and> cursor_y (kio (irq_handler dev regs s)) = cursor_y (kio s)
   \<and> kheap (irq_handler dev regs s) = kheap s \<and> kinitrd (irq_handler dev regs s) = kinitrd s
   \<and> fd_table (irq_handler dev regs s) = fd_table s"
proof -
  consider "int_no regs - 32 = 0" | "int_no regs - 32 = 1" | "int_no regs - 32 \<notin> {0, 1}" by blast
  then show ?thesis
  proof cases
    case 1
    then show ?thesis by (simp add: irq_handler_def timer_handler_def pic_send_eoi_def outb_def)
  next
    case 2
    then show ?thesis
      by (simp add: irq_handler_def keyboard_handler_def pic_send_eoi_def inb_def outb_def Let_def word_le_nat_alt
          split: prod.split)
  next
    case 3
    then show ?thesis by (simp add: irq_handler_def pic_send_eoi_def outb_def Let_def)
  qed
qed

text \<open>
  The vector decides the outcome. On \<open>int 0x80\<close> the dispatcher gets the six argument
  registers; if the call returns, so does the handler, with the result in \<open>eax\<close> and every other
  register as it was. On every other vector the kernel prints its report, the number and the error
  code in decimal and the name of the exception, and halts without touching anything but the console.
\<close>

theorem isr_outcomes:
  "isr_handler regs s =
     (if int_no regs = 128
      then map_option (\<lambda>(r, s'). Iret (regs\<lparr>eax := r\<rparr>) s')
             (syscall_dispatch (eax regs) (ebx regs) (ecx regs) (edx regs) (esi regs) (edi regs) s)
      else Some (Halted (s\<lparr>kio := print
             ([chr_nl] @ lit ''KERNEL EXCEPTION'' @ [chr_nl] @ lit ''INT: '' @ decimal (unat (int_no regs)) @ lit '' - ''
              @ (if unat (int_no regs) < 32 then exception_messages ! unat (int_no regs) else lit ''Unknown'')
              @ [chr_nl] @ lit ''ERR: '' @ decimal (unat (err_code regs)) @ [chr_nl] @ lit ''System halted.'' @ [chr_nl])
             (kio s)\<rparr>)))"
proof (cases "int_no regs = 128")
  case True
  then show ?thesis
    by (cases "syscall_dispatch (eax regs) (ebx regs) (ecx regs) (edx regs) (esi regs) (edi regs) s")
      (auto simp: isr_handler_def)
next
  case False
  have lt: "int_no regs < 32 \<longleftrightarrow> unat (int_no regs) < 32" by (simp add: word_less_nat_alt)
  show ?thesis using False
    by (simp only: isr_handler_def Let_def lt print_uint_eq println_eq print_append if_False append_Cons append_Nil append_assoc)
      (simp add: print_def)
qed

end
