(* ===== verification/Machine.thy ===== *)
theory Machine
  imports Interrupts Elf_Load
begin

text \<open>
  The state of the whole machine and what \<open>kernel/kmain.c\<close> does to it in small steps: output to the
  console, and system calls through \<open>int 0x80\<close>.
\<close>

section \<open>State\<close>

text \<open>
  The kernel of the system calls, the processor's registers, tables and control registers, and the
  statics of \<open>kmain.c\<close>.
\<close>

record machine =
  mk :: kernel
  mregs :: registers
  mgdt :: gdt
  midt :: idt
  mpaging :: paging
  mcpu :: cpu
  interrupts_enabled :: bool
  current_drive :: u8
  prompt_len :: u32

text \<open>
  Addresses the compiler and the linker choose: the local arrays whose addresses are passed to system
  calls, the string literals that are passed as pointers, the linker symbols, and the tables.
\<close>

record layout =
  line_at :: u32
  name_at :: u32
  buf_at :: u32
  help_lit :: u32
  clear_lit :: u32
  ls_lit :: u32
  cat_lit :: u32
  cd_lit :: u32
  preview_at :: u32
  msg_lit :: u32
  buffer_a_at :: u32
  buffer_b_at :: u32
  name_buf_at :: u32
  pref_buf_at :: u32
  demo_name_at :: u32
  first_any_at :: u32
  prefix_all_lit :: u32
  prefix_bin_lit :: u32
  prefix_etc_lit :: u32
  init_lit :: u32
  kernel_start_at :: u32
  kernel_end_at :: u32
  gdt_at :: u32
  idt_at :: u32
  page_directory_at :: u32
  page_tables_at :: u32
  isr_at :: "u8 \<Rightarrow> u32"
  irq_at :: "u8 \<Rightarrow> u32"

definition mmem :: "machine \<Rightarrow> mem" where "mmem s = kmem (mk s)"

definition set_mmem :: "mem \<Rightarrow> machine \<Rightarrow> machine" where
  "set_mmem m s = s\<lparr>mk := set_kmem m (mk s)\<rparr>"

section \<open>Output\<close>

definition on_io :: "(io \<Rightarrow> io) \<Rightarrow> machine \<Rightarrow> machine" where
  "on_io f s = s\<lparr>mk := (mk s)\<lparr>kio := f (kio (mk s))\<rparr>\<rparr>"

text \<open>The copy of \<open>print_uint\<close> in \<open>kmain.c\<close> has the same text as the one in \<open>interrupt_handlers.c\<close>.\<close>

definition print_uint_kmain :: "u32 \<Rightarrow> machine \<Rightarrow> machine" where
  "print_uint_kmain v = on_io (if v = 0 then printc 0x30 else fold printc (rev (uint_digits v [])))"

definition say :: "cstr \<Rightarrow> machine \<Rightarrow> machine" where "say cs = on_io (print cs)"
definition sayln :: "cstr \<Rightarrow> machine \<Rightarrow> machine" where "sayln cs = on_io (println cs)"
definition putc :: "u8 \<Rightarrow> machine \<Rightarrow> machine" where "putc c = on_io (printc c)"

text \<open>\<open>print(p)\<close> for a pointer; \<open>None\<close>: there is no terminating NUL.\<close>

definition print_ptr :: "u32 \<Rightarrow> machine \<Rightarrow> machine option" where
  "print_ptr p s = do { str \<leftarrow> load_cstr (mmem s) p; Some (say str s) }"

section \<open>System calls\<close>

text \<open>
  The instruction \<open>int 0x80\<close>: the stub builds the frame from the registers, pushes 0 and the vector, and
  restores the registers from the frame.
\<close>

definition int80 :: "machine \<Rightarrow> machine option" where
  "int80 s =
     do {
       r \<leftarrow> isr_handler ((mregs s)\<lparr>int_no := 128, err_code := 0\<rparr>) (mk s);
       case r of Iret regs k \<Rightarrow> Some (s\<lparr>mk := k, mregs := regs\<rparr>) | Halted k \<Rightarrow> None
     }"

definition syscall0 :: "u32 \<Rightarrow> machine \<Rightarrow> (u32 \<times> machine) option" where
  "syscall0 number s =
     do {
       s \<leftarrow> int80 (s\<lparr>mregs := (mregs s)\<lparr>eax := number\<rparr>\<rparr>);
       Some (eax (mregs s), s)
     }"

definition syscall1 :: "u32 \<Rightarrow> u32 \<Rightarrow> machine \<Rightarrow> (u32 \<times> machine) option" where
  "syscall1 number arg1 s =
     do {
       s \<leftarrow> int80 (s\<lparr>mregs := (mregs s)\<lparr>eax := number, ebx := arg1\<rparr>\<rparr>);
       Some (eax (mregs s), s)
     }"

definition syscall3 :: "u32 \<Rightarrow> u32 \<Rightarrow> u32 \<Rightarrow> u32 \<Rightarrow> machine \<Rightarrow> (u32 \<times> machine) option" where
  "syscall3 number arg1 arg2 arg3 s =
     do {
       s \<leftarrow> int80 (s\<lparr>mregs := (mregs s)\<lparr>eax := number, ebx := arg1, ecx := arg2, edx := arg3\<rparr>\<rparr>);
       Some (eax (mregs s), s)
     }"

definition syscall4 :: "u32 \<Rightarrow> u32 \<Rightarrow> u32 \<Rightarrow> u32 \<Rightarrow> u32 \<Rightarrow> machine \<Rightarrow> (u32 \<times> machine) option" where
  "syscall4 number arg1 arg2 arg3 arg4 s =
     do {
       s \<leftarrow> int80 (s\<lparr>mregs := (mregs s)\<lparr>eax := number, ebx := arg1, ecx := arg2, edx := arg3, esi := arg4\<rparr>\<rparr>);
       Some (eax (mregs s), s)
     }"

text \<open>\<open>for (uint32_t i = 0; i < n; i++) body\<close> where the body may not return.\<close>

definition each_u32 :: "u32 \<Rightarrow> (u32 \<Rightarrow> 's \<Rightarrow> 's option) \<Rightarrow> 's \<Rightarrow> 's option" where
  "each_u32 n body s =
     do {
       r \<leftarrow> loop_u32 0 n (\<lambda>i s. do { s \<leftarrow> body i s; Some (Inr s) }) s;
       case r of Inl s \<Rightarrow> Some s | Inr s \<Rightarrow> Some s
     }"

section \<open>What a system call does to the machine\<close>

text \<open>
  The registers a wrapper does not set have no influence, and apart from the registers only the
  kernel part changes.
\<close>

definition same_host :: "machine \<Rightarrow> machine \<Rightarrow> bool" where
  "same_host s t \<longleftrightarrow> mgdt t = mgdt s \<and> midt t = midt s \<and> mpaging t = mpaging s \<and> mcpu t = mcpu s
     \<and> interrupts_enabled t = interrupts_enabled s \<and> current_drive t = current_drive s \<and> prompt_len t = prompt_len s"

lemma same_host_refl: "same_host s s"
  by (simp add: same_host_def)

lemma same_host_trans: "same_host s t \<Longrightarrow> same_host t u \<Longrightarrow> same_host s u"
  by (simp add: same_host_def)

lemma int80_eq:
  "int80 s = map_option (\<lambda>(r, k). s\<lparr>mk := k, mregs := (mregs s)\<lparr>int_no := 128, err_code := 0, eax := r\<rparr>\<rparr>)
     (syscall_dispatch (eax (mregs s)) (ebx (mregs s)) (ecx (mregs s)) (edx (mregs s)) (esi (mregs s)) (edi (mregs s)) (mk s))"
proof (cases "syscall_dispatch (eax (mregs s)) (ebx (mregs s)) (ecx (mregs s)) (edx (mregs s)) (esi (mregs s)) (edi (mregs s)) (mk s)")
  case None
  then show ?thesis by (simp add: int80_def isr_handler_def)
next
  case (Some a)
  then show ?thesis by (cases a) (simp add: int80_def isr_handler_def)
qed

text \<open>The outcome of a system call, up to the registers.\<close>

definition sys_result :: "machine \<Rightarrow> (u32 \<times> kernel) option \<Rightarrow> (u32 \<times> machine) option \<Rightarrow> bool" where
  "sys_result s k r \<longleftrightarrow> (case k of None \<Rightarrow> r = None
     | Some (v, k') \<Rightarrow> \<exists>regs. r = Some (v, s\<lparr>mk := k', mregs := regs\<rparr>))"

lemma syscall_open: "sys_result s (sys_open a (mk s)) (syscall1 SYS_OPEN a s)"
  and syscall_close: "sys_result s (Some (sys_close a (mk s))) (syscall1 SYS_CLOSE a s)"
  and syscall_count: "sys_result s (Some (sys_file_count (mk s), mk s)) (syscall0 SYS_FILE_COUNT s)"
  and syscall_size: "sys_result s (Some (sys_file_size a (mk s), mk s)) (syscall1 SYS_FILE_SIZE a s)"
  and syscall_size_by_name:
    "sys_result s (with_state (mk s) (sys_file_size_by_name a (mk s))) (syscall1 SYS_FILE_SIZE_BY_NAME a s)"
  and syscall_count_prefix:
    "sys_result s (with_state (mk s) (sys_file_count_prefix a (mk s))) (syscall1 SYS_FILE_COUNT_PREFIX a s)"
  by (auto simp: sys_result_def syscall0_def syscall1_def int80_eq syscall_dispatch_def syscall_numbers bind_map_option
      split: option.split prod.split)

lemma syscall_write: "sys_result s (Some (sys_write a b c (mk s))) (syscall3 SYS_WRITE a b c s)"
  and syscall_read: "sys_result s (sys_read a b c (mk s)) (syscall3 SYS_READ a b c s)"
  and syscall_seek: "sys_result s (Some (sys_seek a b c (mk s))) (syscall3 SYS_SEEK a b c s)"
  and syscall_name: "sys_result s (Some (sys_file_name a b c (mk s))) (syscall3 SYS_FILE_NAME a b c s)"
  by (auto simp: sys_result_def syscall3_def int80_eq syscall_dispatch_def syscall_numbers bind_map_option
      split: option.split prod.split)

lemma syscall_name_prefix: "sys_result s (sys_file_name_prefix a b c d (mk s)) (syscall4 SYS_FILE_NAME_PREFIX a b c d s)"
  by (auto simp: sys_result_def syscall4_def int80_eq syscall_dispatch_def syscall_numbers bind_map_option
      split: option.split prod.split)

end
