(* ===== verification/Shell.thy ===== *)
theory Shell
  imports Machine
begin

text \<open>
  The built-in shell of \<open>kernel/kmain.c\<close>: string helpers, the commands, the line editor, and the loop
  that takes characters from the keyboard buffer.
\<close>

section \<open>String helpers\<close>

definition cstr_eq_local :: "mem \<Rightarrow> u32 \<Rightarrow> u32 \<Rightarrow> bool option" where
  "cstr_eq_local m a b = (if a = 0 \<or> b = 0 then Some False else cstr_eq_from m a b 0)"

definition cstr_starts_with_local :: "mem \<Rightarrow> u32 \<Rightarrow> u32 \<Rightarrow> bool option" where
  "cstr_starts_with_local m str pre = (if str = 0 \<or> pre = 0 then Some False else cstr_prefix_from m str pre 0)"

partial_function (option) skip_spaces :: "mem \<Rightarrow> u32 \<Rightarrow> u32 option" where
  "skip_spaces m p = (if p \<noteq> 0 \<and> (m p = 0x20 \<or> m p = 0x09) then skip_spaces m (p + 1) else Some p)"

section \<open>Commands\<close>

definition print_prompt :: "machine \<Rightarrow> machine" where
  "print_prompt s =
     (let s = putc (current_drive s) s;
          s = say (lit '':> '') s
      in s\<lparr>prompt_len := 3\<rparr>)"

text \<open>The body of the loop of \<open>cmd_ls\<close>.\<close>

definition ls_item :: "layout \<Rightarrow> u32 \<Rightarrow> u32 \<Rightarrow> machine \<Rightarrow> machine option" where
  "ls_item lay pre i s =
     do {
       (len, s) \<leftarrow> syscall4 SYS_FILE_NAME_PREFIX pre i (name_at lay) 96 s;
       if len = - 1 then Some s
       else do {
         s \<leftarrow> print_ptr (name_at lay) (say (lit '' - '') s);
         let s = say (lit '' ('') s;
         (sz, s) \<leftarrow> syscall1 SYS_FILE_SIZE_BY_NAME (name_at lay) s;
         let s = print_uint_kmain sz s;
         let s = say (lit '')'') s;
         Some (putc chr_nl s)
       }
     }"

definition cmd_ls :: "layout \<Rightarrow> u32 \<Rightarrow> machine \<Rightarrow> machine option" where
  "cmd_ls lay pre s =
     do {
       (count, s) \<leftarrow> syscall1 SYS_FILE_COUNT_PREFIX pre s;
       let shown = (if count < 32 then count else 32);
       let s = putc chr_nl (print_uint_kmain count (say (lit ''ls count='') s));
       s \<leftarrow> each_u32 shown (ls_item lay pre) s;
       Some (if count > shown
             then sayln (lit '' more'') (print_uint_kmain (count - shown) (say (lit ''... and '') s))
             else s)
     }"

text \<open>The loop of \<open>cmd_cat\<close>.\<close>

partial_function (option) cat_loop :: "layout \<Rightarrow> u32 \<Rightarrow> machine \<Rightarrow> machine option" where
  "cat_loop lay fd s =
     Option.bind (syscall3 SYS_READ fd (buf_at lay) 64 s) (\<lambda>(read_count, s).
       if read_count = - 1 \<or> read_count = 0 then Some s
       else Option.bind (syscall3 SYS_WRITE 1 (buf_at lay) read_count s) (\<lambda>(_, s). cat_loop lay fd s))"

definition cmd_cat :: "layout \<Rightarrow> u32 \<Rightarrow> machine \<Rightarrow> machine option" where
  "cmd_cat lay path s =
     (if path = 0 \<or> mmem s path = 0 then Some (sayln (lit ''cat: missing path'') s)
      else do {
        (fd, s) \<leftarrow> syscall1 SYS_OPEN path s;
        if fd = - 1 then Some (sayln (lit ''cat: open failed'') s)
        else do {
          s \<leftarrow> cat_loop lay fd s;
          (_, s) \<leftarrow> syscall1 SYS_CLOSE fd s;
          Some (putc chr_nl s)
        }
      })"

text \<open>\<open>char\<close> is signed in the comparisons; \<open>'A'\<close> is 65, \<open>'Z'\<close> 90, \<open>'a'\<close> 97, \<open>'z'\<close> 122, \<open>':'\<close> 58.\<close>

definition switched :: "machine \<Rightarrow> machine" where
  "switched s = sayln (lit '':'') (putc (current_drive s) (say (lit ''Switched to drive: '') s))"

definition cmd_cd :: "u32 \<Rightarrow> machine \<Rightarrow> machine" where
  "cmd_cd arg s =
     (if arg = 0 \<or> mmem s arg = 0 then
        sayln (lit '':'') (putc (current_drive s) (say (lit ''Current drive: '') s))
      else
        let c = mmem s arg
        in if mmem s (arg + 1) = 0x3A \<and> mmem s (arg + 2) = 0 \<and> sint c \<ge> 0x41 \<and> sint c \<le> 0x5A
           then switched (s\<lparr>current_drive := c\<rparr>)
           else if sint c \<ge> 0x61 \<and> sint c \<le> 0x7A \<and> mmem s (arg + 1) = 0x3A \<and> mmem s (arg + 2) = 0
           then switched (s\<lparr>current_drive := c - 32\<rparr>)
           else sayln (lit ''cd: only single drive letter supported (e.g., A:, B:, C:)'') s)"

section \<open>The shell\<close>

text \<open>\<open>cmd[k]\<close> is NUL or a blank.\<close>

definition blank_at :: "mem \<Rightarrow> u32 \<Rightarrow> bool" where
  "blank_at m p \<longleftrightarrow> m p = 0x20 \<or> m p = 0x09"

definition show_help :: "machine \<Rightarrow> machine" where
  "show_help s =
     (let s = sayln (lit ''help: show commands'') s;
          s = sayln (lit ''ls [prefix]: list initrd files (optional prefix)'') s;
          s = sayln (lit ''cat <path>: print file content'') s;
          s = sayln (lit ''cd <drive>: change disk (e.g., A:, B:, C:)'') s
      in sayln (lit ''clear: clear screen'') s)"

definition run_command :: "layout \<Rightarrow> u32 \<Rightarrow> machine \<Rightarrow> machine option" where
  "run_command lay cmd s =
     do {
       is_help \<leftarrow> cstr_eq_local (mmem s) cmd (help_lit lay);
       if is_help then Some (show_help s)
       else do {
         is_clear \<leftarrow> cstr_eq_local (mmem s) cmd (clear_lit lay);
         if is_clear then Some (on_io clear s)
         else do {
           is_ls \<leftarrow> cstr_starts_with_local (mmem s) cmd (ls_lit lay);
           if is_ls \<and> (mmem s (cmd + 2) = 0 \<or> blank_at (mmem s) (cmd + 2)) then
             do { arg \<leftarrow> skip_spaces (mmem s) (cmd + 2); cmd_ls lay arg s }
           else do {
             is_cat \<leftarrow> cstr_starts_with_local (mmem s) cmd (cat_lit lay);
             if is_cat \<and> blank_at (mmem s) (cmd + 3) then
               do { arg \<leftarrow> skip_spaces (mmem s) (cmd + 3); cmd_cat lay arg s }
             else do {
               is_cd \<leftarrow> cstr_starts_with_local (mmem s) cmd (cd_lit lay);
               if is_cd \<and> (blank_at (mmem s) (cmd + 2) \<or> mmem s (cmd + 2) = 0) then
                 do { arg \<leftarrow> skip_spaces (mmem s) (cmd + 2); Some (cmd_cd arg s) }
               else do {
                 s \<leftarrow> print_ptr cmd (say (lit ''unknown command: '') s);
                 Some (putc chr_nl s)
               }
             }
           }
         }
       }
     }"

text \<open>The branch of the loop for \<open>'\n'\<close>; afterwards the line is empty.\<close>

definition shell_enter :: "layout \<Rightarrow> u32 \<Rightarrow> machine \<Rightarrow> (u32 \<times> machine) option" where
  "shell_enter lay line_len s =
     do {
       let s = set_mmem ((mmem s)(line_at lay + line_len := 0)) s;
       cmd \<leftarrow> skip_spaces (mmem s) (line_at lay);
       if mmem s cmd = 0 then Some (0, print_prompt s)
       else do {
         s \<leftarrow> run_command lay cmd s;
         Some (0, print_prompt s)
       }
     }"

text \<open>One pass of the loop after \<open>keyboard_pop_char\<close> has delivered \<open>c\<close>.\<close>

definition shell_char :: "layout \<Rightarrow> u8 \<Rightarrow> u32 \<Rightarrow> machine \<Rightarrow> (u32 \<times> machine) option" where
  "shell_char lay c line_len s =
     (if c = 0x0D then Some (line_len, s)
      else if c = chr_nl then shell_enter lay line_len s
      else if c = chr_bs then
        Some (if line_len > 0 then (line_len - 1, putc chr_bs s) else (line_len, s))
      else if sint c \<ge> 32 \<and> sint c \<le> 126 \<and> line_len + 1 < 128 then
        Some (line_len + 1, putc c (set_mmem ((mmem s)(line_at lay + line_len := c)) s))
      else Some (line_len, s))"

definition shell_iteration :: "layout \<Rightarrow> u32 \<Rightarrow> machine \<Rightarrow> (u32 \<times> machine) option" where
  "shell_iteration lay line_len s =
     (case keyboard_pop_char True (kkbd (mk s)) of
        (None, k) \<Rightarrow> Some (line_len, s\<lparr>mk := (mk s)\<lparr>kkbd := k\<rparr>\<rparr>)
      | (Some c, k) \<Rightarrow> shell_char lay c line_len (s\<lparr>mk := (mk s)\<lparr>kkbd := k\<rparr>\<rparr>))"

text \<open>What \<open>run_builtin_shell\<close> does before its loop.\<close>

definition shell_start :: "machine \<Rightarrow> u32 \<times> machine" where
  "shell_start s = (0, print_prompt (sayln (lit ''Shell: help, ls [prefix], cat <path>, cd <drive>, clear'') s))"

text \<open>
  The loop runs for ever; interrupts arrive between its passes. \<open>shell_run dev lay st st'\<close>: from the state
  \<open>st\<close> of the loop the machine can come to \<open>st'\<close>.
\<close>

inductive shell_run :: "device \<Rightarrow> layout \<Rightarrow> u32 \<times> machine \<Rightarrow> u32 \<times> machine \<Rightarrow> bool" for dev lay where
  Start: "shell_run dev lay st st"
| Pass: "shell_run dev lay st (n, s) \<Longrightarrow> shell_iteration lay n s = Some st' \<Longrightarrow> shell_run dev lay st st'"
| Irq: "shell_run dev lay st (n, s) \<Longrightarrow> shell_run dev lay st (n, s\<lparr>mk := irq_handler dev regs (mk s)\<rparr>)"

end
