(* ===== verification/Shell_Line.thy ===== *)
theory Shell_Line
  imports Shell
begin

text \<open>
  The command line of the shell: the buffer is a line editor over at most 127 characters, and the
  Enter key runs the command the line parses to.
\<close>

section \<open>State updates\<close>

lemma machine_simps [simp]:
  "mmem (on_io f s) = mmem s" "kio (mk (on_io f s)) = f (kio (mk s))" "fd_table (mk (on_io f s)) = fd_table (mk s)"
  "kkbd (mk (on_io f s)) = kkbd (mk s)" "kinitrd (mk (on_io f s)) = kinitrd (mk s)" "kheap (mk (on_io f s)) = kheap (mk s)"
  "current_drive (on_io f s) = current_drive s"
  "mmem (set_mmem m s) = m" "kio (mk (set_mmem m s)) = kio (mk s)" "fd_table (mk (set_mmem m s)) = fd_table (mk s)"
  "kkbd (mk (set_mmem m s)) = kkbd (mk s)" "kinitrd (mk (set_mmem m s)) = kinitrd (mk s)"
  "current_drive (set_mmem m s) = current_drive s"
  by (simp_all add: on_io_def set_mmem_def mmem_def set_kmem_def kmem_def)

lemmas out_defs = say_def sayln_def putc_def print_uint_kmain_def

section \<open>The line editor\<close>

definition printable :: "u8 \<Rightarrow> bool" where "printable c \<longleftrightarrow> 32 \<le> unat c \<and> unat c \<le> 126"

text \<open>The reference: what a key other than Enter does to the line, and what it shows.\<close>

definition edit :: "cstr \<Rightarrow> u8 \<Rightarrow> cstr" where
  "edit l c = (if c = chr_bs then butlast l else if printable c \<and> length l < 127 then l @ [c] else l)"

fun echoed :: "cstr \<Rightarrow> cstr \<Rightarrow> cstr" where
  "echoed l [] = []"
| "echoed l (c # cs) = (if edit l c = l then echoed l cs else c # echoed (edit l c) cs)"

definition line_holds :: "layout \<Rightarrow> u32 \<Rightarrow> machine \<Rightarrow> cstr \<Rightarrow> bool" where
  "line_holds lay n s l \<longleftrightarrow> n = of_nat (length l) \<and> length l \<le> 127 \<and> bytes_at (mmem s) (line_at lay) (length l) = l
     \<and> (\<forall>c \<in> set l. printable c)"

lemma sint_u8: "sint (c :: u8) = (if unat c < 128 then int (unat c) else int (unat c) - 256)"
proof -
  have c: "0 \<le> uint c" "uint c < 256" using uint_lt2p [of c] by auto
  have wrap: "(uint c + 128) mod 256 = uint c - 128" if "128 \<le> uint c"
    using that c mod_add_self2 [of "uint c - 128" 256] by (simp add: mod_pos_pos_trivial add.commute)
  have "sint c = (uint c + 128) mod 256 - 128"
    by (simp add: sint_uint signed_take_bit_eq_take_bit_shift take_bit_eq_mod)
  also have "\<dots> = (if uint c < 128 then uint c else uint c - 256)" using c wrap by (auto simp: mod_pos_pos_trivial)
  finally have "sint c = (if uint c < 128 then uint c else uint c - 256)" .
  moreover have i: "int (unat c) = uint c" by simp
  moreover have "unat c < 128 \<longleftrightarrow> uint c < 128" by (intro iffI; use i in linarith)
  ultimately show ?thesis by simp
qed

lemma signed_range: "a \<le> b \<Longrightarrow> b < 128 \<Longrightarrow> int a \<le> sint (c :: u8) \<and> sint c \<le> int b \<longleftrightarrow> a \<le> unat c \<and> unat c \<le> b"
proof -
  assume ab: "a \<le> b" "b < 128"
  have n: "unat c < 256" using unsigned_less [of c] by simp
  show ?thesis
  proof (cases "unat c < 128")
    case True
    show ?thesis unfolding sint_u8 if_P [OF True] of_nat_le_iff ..
  next
    case False
    have "int (unat c) - 256 < 0" using n by linarith
    then show ?thesis unfolding sint_u8 if_not_P [OF False] using False ab by linarith
  qed
qed

lemma printable_signed: "sint (c :: u8) \<ge> 32 \<and> sint c \<le> 126 \<longleftrightarrow> printable c"
  using signed_range [of 32 126 c] by (simp add: printable_def)

lemma printable_special: "printable c \<Longrightarrow> c \<noteq> 0x0D \<and> c \<noteq> chr_nl \<and> c \<noteq> chr_bs \<and> c \<noteq> 0 \<and> c \<noteq> 9"
  by (auto simp: printable_def chr_nl_def chr_bs_def)

lemma edit_length: "length l \<le> 127 \<Longrightarrow> length (edit l c) \<le> 127"
  by (auto simp: edit_def)

lemma edit_printable: "\<forall>c \<in> set l. printable c \<Longrightarrow> \<forall>c \<in> set (edit l c). printable c"
  by (auto simp: edit_def dest: in_set_butlastD)

text \<open>One key: the buffer follows the editor, the console shows the key if the line changed, and memory
  outside the buffer is untouched.\<close>

definition env_kept :: "machine \<Rightarrow> machine \<Rightarrow> bool" where
  "env_kept s s' \<longleftrightarrow> kinitrd (mk s') = kinitrd (mk s) \<and> kkbd (mk s') = kkbd (mk s)
     \<and> hpmm (kheap (mk s')) = hpmm (kheap (mk s)) \<and> heap_head (kheap (mk s')) = heap_head (kheap (mk s)) \<and> same_host s s'"

definition host_kept :: "machine \<Rightarrow> machine \<Rightarrow> bool" where
  "host_kept s s' \<longleftrightarrow> env_kept s s' \<and> fd_table (mk s') = fd_table (mk s)"

lemma env_kept_refl: "env_kept s s"
  by (simp add: env_kept_def same_host_refl)

lemma env_kept_trans: "env_kept s t \<Longrightarrow> env_kept t u \<Longrightarrow> env_kept s u"
  by (simp add: env_kept_def same_host_def)

lemma host_kept_refl: "host_kept s s"
  by (simp add: host_kept_def env_kept_refl)

lemma host_kept_trans: "host_kept s t \<Longrightarrow> host_kept t u \<Longrightarrow> host_kept s u"
  using env_kept_trans [of s t u] by (simp add: host_kept_def)

lemma host_kept_key: "host_kept s (on_io f s)" "host_kept s (on_io f (set_mmem m s))"
  by (simp_all add: host_kept_def env_kept_def same_host_def on_io_def set_mmem_def set_kmem_def)

lemma bytes_at_take: "n \<le> length l \<Longrightarrow> bytes_at m p (length l) = l \<Longrightarrow> bytes_at m p n = take n l"
  by (drule arg_cong [of _ _ "take n"]) (simp add: bytes_at_def take_map min_absorb2)

lemma shell_char_edit:
  assumes h: "line_holds lay n s l" and c: "c \<noteq> chr_nl"
  shows "\<exists>n' s'. shell_char lay c n s = Some (n', s') \<and> line_holds lay n' s' (edit l c)
    \<and> kio (mk s') = print (if edit l c = l then [] else [c]) (kio (mk s)) \<and> host_kept s s'
    \<and> (\<forall>x. x \<notin> span (line_at lay) 128 \<longrightarrow> mmem s' x = mmem s x)"
proof -
  have n: "n = of_nat (length l)" "length l \<le> 127" "unat n = length l"
    using h by (auto simp: line_holds_def unat_of_nat)
  have n1: "n + 1 < 128 \<longleftrightarrow> length l < 127"
    using unat_add_nowrap [of n 1] n by (simp add: word_less_nat_alt)
  consider (bs) "c = chr_bs" "l \<noteq> []" | (bs0) "c = chr_bs" "l = []" | (put) "printable c" "length l < 127"
    | (skip) "c \<noteq> chr_bs" "\<not> (printable c \<and> length l < 127)" by blast
  then show ?thesis
  proof cases
    case bs
    then have ne: "butlast l \<noteq> l" by (metis length_butlast diff_less length_greater_0_conv less_numeral_extra(1) less_irrefl)
    have "n \<noteq> 0" "n - 1 = of_nat (length (butlast l))" using n bs(2) by (auto simp: unat_eq_zero of_nat_diff Suc_le_eq)
    moreover have "bytes_at (mmem s) (line_at lay) (length (butlast l)) = butlast l"
      using h bytes_at_take [of "length l - 1" l] by (simp add: line_holds_def butlast_conv_take)
    ultimately show ?thesis
      using h bs ne host_kept_key [of s] n(2)
      by (auto simp: shell_char_def chr_bs_def chr_nl_def edit_def line_holds_def putc_def print_def word_gt_0 dest: in_set_butlastD)
  next
    case bs0
    then show ?thesis using h n host_kept_refl [of s]
      by (auto simp: shell_char_def chr_bs_def chr_nl_def edit_def line_holds_def print_def)
  next
    case put
    note sp = printable_special [OF put(1)]
    let ?s = "set_mmem ((mmem s)(line_at lay + n := c)) s"
    have "line_at lay + of_nat i \<noteq> line_at lay + n" if "i < length l" for i
    proof -
      have "(of_nat i :: u32) \<noteq> n" using that n by (auto simp: word_unat_eq_iff unat_of_nat)
      then show ?thesis by simp
    qed
    then have "bytes_at ((mmem s)(line_at lay + n := c)) (line_at lay) (length l) = bytes_at (mmem s) (line_at lay) (length l)"
      by (auto simp: bytes_at_def)
    then have "line_holds lay (n + 1) (putc c ?s) (l @ [c])"
      using h put n(1) by (simp add: line_holds_def putc_def bytes_at_Suc)
    moreover have "line_at lay + n \<in> span (line_at lay) 128" unfolding n(1) using n(2) by (intro span_of_nat) simp
    moreover have "shell_char lay c n s = Some (n + 1, putc c ?s)"
      using sp put n1 printable_signed [of c] by (auto simp: shell_char_def)
    ultimately show ?thesis using put sp host_kept_key(2) [of s] by (auto simp: edit_def print_def putc_def)
  next
    case skip
    then have "shell_char lay c n s = Some (n, s)"
      using c n1 printable_signed [of c] by (auto simp: shell_char_def)
    moreover have "edit l c = l" using skip by (auto simp: edit_def)
    ultimately show ?thesis using h host_kept_refl by (simp add: print_def)
  qed
qed

text \<open>A run of keys.\<close>

primrec shell_chars :: "layout \<Rightarrow> cstr \<Rightarrow> u32 \<Rightarrow> machine \<Rightarrow> (u32 \<times> machine) option" where
  "shell_chars lay [] n s = Some (n, s)"
| "shell_chars lay (c # cs) n s = do { (n, s) \<leftarrow> shell_char lay c n s; shell_chars lay cs n s }"

lemma shell_chars_edit:
  "line_holds lay n s l \<Longrightarrow> chr_nl \<notin> set cs \<Longrightarrow> \<exists>n' s'. shell_chars lay cs n s = Some (n', s')
    \<and> line_holds lay n' s' (foldl edit l cs) \<and> kio (mk s') = print (echoed l cs) (kio (mk s)) \<and> host_kept s s'
    \<and> (\<forall>x. x \<notin> span (line_at lay) 128 \<longrightarrow> mmem s' x = mmem s x)"
proof (induction cs arbitrary: n s l)
  case Nil
  then show ?case by (simp add: print_def host_kept_refl)
next
  case (Cons c cs)
  obtain n1 s1 where one: "shell_char lay c n s = Some (n1, s1)" "line_holds lay n1 s1 (edit l c)"
    "kio (mk s1) = print (if edit l c = l then [] else [c]) (kio (mk s))" "host_kept s s1"
    "\<forall>x. x \<notin> span (line_at lay) 128 \<longrightarrow> mmem s1 x = mmem s x"
    using shell_char_edit [OF Cons.prems(1), of c] Cons.prems(2) by auto
  obtain n' s' where rest: "shell_chars lay cs n1 s1 = Some (n', s')" "line_holds lay n' s' (foldl edit (edit l c) cs)"
    "kio (mk s') = print (echoed (edit l c) cs) (kio (mk s1))" "host_kept s1 s'"
    "\<forall>x. x \<notin> span (line_at lay) 128 \<longrightarrow> mmem s' x = mmem s1 x"
    using Cons.IH [OF one(2)] Cons.prems(2) by auto
  have "shell_chars lay (c # cs) n s = Some (n', s')" using one(1) rest(1) by simp
  moreover have "kio (mk s') = print (echoed l (c # cs)) (kio (mk s))" unfolding rest(3) one(3) by (simp add: print_def)
  moreover have "\<forall>x. x \<notin> span (line_at lay) 128 \<longrightarrow> mmem s' x = mmem s x" using one(5) rest(5) by simp
  ultimately show ?case using rest(2) host_kept_trans [OF one(4) rest(4)]
    by (intro exI [of _ n'] exI [of _ s'] conjI) (simp_all only: foldl_Cons)
qed

section \<open>Parsing\<close>

definition blank :: "u8 \<Rightarrow> bool" where "blank c \<longleftrightarrow> c = 0x20 \<or> c = 0x09"

datatype command = Nothing | Help | Clear | Ls cstr | Cat cstr | Cd cstr | Unknown cstr

definition ended_at :: "nat \<Rightarrow> cstr \<Rightarrow> bool" where "ended_at k w \<longleftrightarrow> drop k w = []"
definition blank_after :: "nat \<Rightarrow> cstr \<Rightarrow> bool" where "blank_after k w \<longleftrightarrow> drop k w \<noteq> [] \<and> blank (hd (drop k w))"

definition parse_line :: "cstr \<Rightarrow> command" where
  "parse_line l =
     (let w = dropWhile blank l
      in if w = [] then Nothing
         else if w = lit ''help'' then Help
         else if w = lit ''clear'' then Clear
         else if prefix (lit ''ls'') w \<and> (ended_at 2 w \<or> blank_after 2 w) then Ls (dropWhile blank (drop 2 w))
         else if prefix (lit ''cat'') w \<and> blank_after 3 w then Cat (dropWhile blank (drop 3 w))
         else if prefix (lit ''cd'') w \<and> (blank_after 2 w \<or> ended_at 2 w) then Cd (dropWhile blank (drop 2 w))
         else Unknown w)"

fun argument :: "command \<Rightarrow> cstr" where
  "argument (Ls a) = a" | "argument (Cat a) = a" | "argument (Cd a) = a" | "argument _ = []"

text \<open>What a command does, given the address of its argument.\<close>

fun perform :: "layout \<Rightarrow> u32 \<Rightarrow> command \<Rightarrow> machine \<Rightarrow> machine option" where
  "perform lay p Nothing s = Some s"
| "perform lay p Help s = Some (show_help s)"
| "perform lay p Clear s = Some (on_io clear s)"
| "perform lay p (Ls _) s = cmd_ls lay p s"
| "perform lay p (Cat _) s = cmd_cat lay p s"
| "perform lay p (Cd _) s = Some (cmd_cd p s)"
| "perform lay p (Unknown w) s = Some (sayln (lit ''unknown command: '' @ w) s)"

text \<open>The literals are in memory, outside the line; the line does not wrap around.\<close>

definition placed_lit :: "layout \<Rightarrow> mem \<Rightarrow> u32 \<Rightarrow> cstr \<Rightarrow> bool" where
  "placed_lit lay m p cs \<longleftrightarrow> p \<noteq> 0 \<and> str_at m p cs \<and> span p (length cs + 1) \<inter> span (line_at lay) 128 = {}"

definition shell_layout :: "layout \<Rightarrow> mem \<Rightarrow> bool" where
  "shell_layout lay m \<longleftrightarrow> 0 < unat (line_at lay) \<and> unat (line_at lay) + 128 < 4294967296
     \<and> placed_lit lay m (help_lit lay) (lit ''help'') \<and> placed_lit lay m (clear_lit lay) (lit ''clear'')
     \<and> placed_lit lay m (ls_lit lay) (lit ''ls'') \<and> placed_lit lay m (cat_lit lay) (lit ''cat'')
     \<and> placed_lit lay m (cd_lit lay) (lit ''cd'')"

lemma placed_lit_cong:
  assumes "placed_lit lay m p cs" "\<And>x. x \<notin> span (line_at lay) 128 \<Longrightarrow> m' x = m x"
  shows "placed_lit lay m' p cs"
  using assms str_at_cong [of m p cs m'] by (auto simp: placed_lit_def)

lemma shell_layout_cong:
  assumes "shell_layout lay m" "\<And>x. x \<notin> span (line_at lay) 128 \<Longrightarrow> m' x = m x"
  shows "shell_layout lay m'"
  using assms placed_lit_cong [of lay m _ _ m'] by (simp add: shell_layout_def)

text \<open>\<open>text_at m lo hi p cs\<close>: a string in memory whose bytes are from \<open>lo\<close> to \<open>hi\<close>, the terminator included.\<close>

definition text_at :: "mem \<Rightarrow> nat \<Rightarrow> nat \<Rightarrow> u32 \<Rightarrow> cstr \<Rightarrow> bool" where
  "text_at m lo hi p cs \<longleftrightarrow> str_at m p cs \<and> 0 < lo \<and> hi < 4294967296 \<and> lo \<le> unat p \<and> unat p + length cs \<le> hi"

lemma text_at_Cons:
  assumes "text_at m lo hi p (c # cs)"
  shows "text_at m lo hi (p + 1) cs"
  using assms unat_add_nowrap [of p 1] by (simp add: text_at_def)

lemma text_at_drop: "text_at m lo hi p cs \<Longrightarrow> k \<le> length cs \<Longrightarrow> text_at m lo hi (p + of_nat k) (drop k cs)"
proof (induction k arbitrary: p cs)
  case (Suc k)
  then obtain c ds where cs: "cs = c # ds" by (cases cs) auto
  have "text_at m lo hi (p + 1) ds" using text_at_Cons Suc.prems(1) cs by blast
  then show ?case using Suc.IH [of "p + 1" ds] Suc.prems(2) cs by (simp add: add.assoc)
qed simp

lemma skip_spaces_eq: "text_at m lo hi p cs \<Longrightarrow> \<exists>q. skip_spaces m p = Some q \<and> text_at m lo hi q (dropWhile blank cs)"
proof (induction cs arbitrary: p)
  case Nil
  then show ?case by (simp add: skip_spaces.simps [of m p] text_at_def)
next
  case (Cons c cs)
  have m: "p \<noteq> 0" "m p = c" using Cons.prems by (auto simp: text_at_def)
  show ?case
  proof (cases "blank c")
    case True
    then have "skip_spaces m p = skip_spaces m (p + 1)" using m by (simp add: skip_spaces.simps [of m p] blank_def)
    then show ?thesis using Cons.IH [OF text_at_Cons [OF Cons.prems]] True by simp
  next
    case False
    then show ?thesis using m Cons.prems by (simp add: skip_spaces.simps [of m p] blank_def)
  qed
qed

lemma text_at_index:
  assumes "text_at m lo hi p cs" "k \<le> length cs"
  shows "m (p + of_nat k) = 0 \<longleftrightarrow> ended_at k cs" and "blank_at m (p + of_nat k) \<longleftrightarrow> blank_after k cs"
proof -
  have "str_at m (p + of_nat k) (drop k cs)" using text_at_drop [OF assms] by (simp add: text_at_def)
  then show "m (p + of_nat k) = 0 \<longleftrightarrow> ended_at k cs" "blank_at m (p + of_nat k) \<longleftrightarrow> blank_after k cs"
    by (cases "drop k cs"; auto simp: ended_at_def blank_after_def blank_at_def blank_def)+
qed

lemma eq_lit:
  assumes "text_at m lo hi p w" "placed_lit lay m q v"
  shows "cstr_eq_local m p q = Some (w = v)"
  using assms cstr_eq_from_eq [of m p 0 w q v] by (auto simp: cstr_eq_local_def text_at_def placed_lit_def)

lemma starts_lit:
  assumes "text_at m lo hi p w" "placed_lit lay m q v"
  shows "cstr_starts_with_local m p q = Some (prefix v w)"
  using assms cstr_prefix_from_eq [of m p 0 w q v] by (auto simp: cstr_starts_with_local_def text_at_def placed_lit_def)

end
