(* ===== verification/Shell_Parse.thy ===== *)
theory Shell_Parse
  imports Shell_Line
begin

text \<open>The Enter key: the line is parsed and its command runs, once, on the unchanged state.\<close>

section \<open>Running a line\<close>

lemma lit_lengths: "length (lit cs) = length cs"
  by (simp add: lit_def)

lemma run_command_parsed:
  assumes lay: "shell_layout lay (mmem s)" and w: "text_at (mmem s) lo hi p w" and l: "w = dropWhile blank l" "w \<noteq> []"
  shows "\<exists>q. text_at (mmem s) lo hi q (argument (parse_line l)) \<and> run_command lay p s = perform lay q (parse_line l) s"
proof -
  let ?m = "mmem s"
  have lits: "placed_lit lay ?m (help_lit lay) (lit ''help'')" "placed_lit lay ?m (clear_lit lay) (lit ''clear'')"
    "placed_lit lay ?m (ls_lit lay) (lit ''ls'')" "placed_lit lay ?m (cat_lit lay) (lit ''cat'')"
    "placed_lit lay ?m (cd_lit lay) (lit ''cd'')"
    using lay by (simp_all add: shell_layout_def)
  note tests = eq_lit [OF w lits(1)] eq_lit [OF w lits(2)] starts_lit [OF w lits(3)] starts_lit [OF w lits(4)] starts_lit [OF w lits(5)]
  have at2: "?m (p + 2) = 0 \<longleftrightarrow> ended_at 2 w" "blank_at ?m (p + 2) \<longleftrightarrow> blank_after 2 w" if "2 \<le> length w"
    using text_at_index [OF w that] by simp_all
  have at3: "blank_at ?m (p + 3) \<longleftrightarrow> blank_after 3 w" if "3 \<le> length w"
    using text_at_index [OF w that] by simp
  have len: "prefix (lit v) w \<Longrightarrow> length v \<le> length w" for v using prefix_length_le [of "lit v" w] by (simp add: lit_lengths)
  have arg: "\<exists>q. skip_spaces ?m (p + of_nat k) = Some q \<and> text_at ?m lo hi q (dropWhile blank (drop k w))" if "k \<le> length w" for k
    using skip_spaces_eq [OF text_at_drop [OF w that]] .
  have none: "\<exists>q. text_at ?m lo hi q []" using text_at_drop [OF w order.refl] by auto
  consider (hlp) "w = lit ''help''" | (clear) "w = lit ''clear''" "w \<noteq> lit ''help''"
    | (ls) "w \<noteq> lit ''help''" "w \<noteq> lit ''clear''" "prefix (lit ''ls'') w" "ended_at 2 w \<or> blank_after 2 w"
    | (cat) "w \<noteq> lit ''help''" "w \<noteq> lit ''clear''" "\<not> (prefix (lit ''ls'') w \<and> (ended_at 2 w \<or> blank_after 2 w))"
        "prefix (lit ''cat'') w" "blank_after 3 w"
    | (cd) "w \<noteq> lit ''help''" "w \<noteq> lit ''clear''" "\<not> (prefix (lit ''ls'') w \<and> (ended_at 2 w \<or> blank_after 2 w))"
        "\<not> (prefix (lit ''cat'') w \<and> blank_after 3 w)" "prefix (lit ''cd'') w" "blank_after 2 w \<or> ended_at 2 w"
    | (other) "w \<noteq> lit ''help''" "w \<noteq> lit ''clear''" "\<not> (prefix (lit ''ls'') w \<and> (ended_at 2 w \<or> blank_after 2 w))"
        "\<not> (prefix (lit ''cat'') w \<and> blank_after 3 w)" "\<not> (prefix (lit ''cd'') w \<and> (blank_after 2 w \<or> ended_at 2 w))"
    by argo
  then show ?thesis
  proof cases
    case hlp
    then have "parse_line l = Help" using l by (simp add: parse_line_def)
    then show ?thesis using tests hlp none by (simp add: run_command_def)
  next
    case clear
    then have "parse_line l = Clear" using l by (simp add: parse_line_def)
    then show ?thesis using tests clear none by (simp add: run_command_def)
  next
    case ls
    have k: "2 \<le> length w" using len [OF ls(3)] by simp
    obtain q where q: "skip_spaces ?m (p + 2) = Some q" "text_at ?m lo hi q (dropWhile blank (drop 2 w))" using arg [OF k] by auto
    have "parse_line l = Ls (dropWhile blank (drop 2 w))" using ls l by (simp add: parse_line_def Let_def)
    moreover have "run_command lay p s = cmd_ls lay q s" using tests ls at2 [OF k] q(1) by (auto simp: run_command_def)
    ultimately show ?thesis using q(2) by auto
  next
    case cat
    have k: "3 \<le> length w" using len [OF cat(4)] by simp
    then have k2: "2 \<le> length w" by simp
    obtain q where q: "skip_spaces ?m (p + 3) = Some q" "text_at ?m lo hi q (dropWhile blank (drop 3 w))" using arg [OF k] by auto
    have "parse_line l = Cat (dropWhile blank (drop 3 w))" using cat l unfolding parse_line_def Let_def by simp
    moreover have "run_command lay p s = cmd_cat lay q s"
      using tests cat at2 [OF k2] at3 [OF k] q(1) by (auto simp: run_command_def)
    ultimately show ?thesis using q(2) by auto
  next
    case cd
    have k: "2 \<le> length w" using len [OF cd(5)] by simp
    obtain q where q: "skip_spaces ?m (p + 2) = Some q" "text_at ?m lo hi q (dropWhile blank (drop 2 w))" using arg [OF k] by auto
    have "parse_line l = Cd (dropWhile blank (drop 2 w))" using cd l unfolding parse_line_def Let_def by simp
    moreover have "prefix (lit ''cat'') w \<Longrightarrow> \<not> blank_at ?m (p + 3)" using cd(4) at3 len [of "''cat''"] by auto
    then have "run_command lay p s = Some (cmd_cd q s)"
      using tests cd at2 [OF k] q(1) by (auto simp: run_command_def)
    ultimately show ?thesis using q(2) by auto
  next
    case other
    have "parse_line l = Unknown w" using other l unfolding parse_line_def Let_def by simp
    moreover have "prefix (lit ''cat'') w \<Longrightarrow> \<not> blank_at ?m (p + 3)" using other(4) at3 len [of "''cat''"] by auto
    moreover have "prefix (lit ''ls'') w \<Longrightarrow> \<not> (?m (p + 2) = 0 \<or> blank_at ?m (p + 2))" using other(3) at2 len [of "''ls''"] by auto
    moreover have "prefix (lit ''cd'') w \<Longrightarrow> \<not> (blank_at ?m (p + 2) \<or> ?m (p + 2) = 0)" using other(5) at2 len [of "''cd''"] by auto
    moreover have "load_cstr ?m p = Some w" using w load_cstr_eq by (simp add: text_at_def)
    ultimately have "run_command lay p s = Some (sayln (lit ''unknown command: '' @ w) s)"
      using tests other(1,2)
      by (auto simp: run_command_def print_ptr_def out_defs on_io_def println_def print_def mmem_def kmem_def)
    then show ?thesis using \<open>parse_line l = Unknown w\<close> none by simp
  qed
qed

lemma line_text:
  assumes lay: "shell_layout lay (mmem s)" and h: "line_holds lay n s l"
  shows "text_at ((mmem s)(line_at lay + n := 0)) (unat (line_at lay)) (unat (line_at lay) + 127) (line_at lay) l"
    and "shell_layout lay ((mmem s)(line_at lay + n := 0))"
proof -
  have n: "n = of_nat (length l)" "length l \<le> 127" "unat n = length l" using h by (auto simp: line_holds_def unat_of_nat)
  have "str_at ((mmem s)(line_at lay + n := 0)) (line_at lay) l"
  proof (rule str_atI)
    fix i assume i: "i < length l"
    then have "(of_nat i :: u32) \<noteq> n" using n by (auto simp: word_unat_eq_iff unat_of_nat)
    moreover have "mmem s (line_at lay + of_nat i) = l ! i"
      using h i unfolding line_holds_def bytes_at_def by (metis nth_map_upt add_0 diff_zero)
    moreover have "l ! i \<noteq> 0" using h i printable_special [of "l ! i"] by (auto simp: line_holds_def)
    ultimately show "((mmem s)(line_at lay + n := 0)) (line_at lay + of_nat i) = l ! i \<and> l ! i \<noteq> 0" by simp
  qed (simp add: n(1))
  then show "text_at ((mmem s)(line_at lay + n := 0)) (unat (line_at lay)) (unat (line_at lay) + 127) (line_at lay) l"
    using lay n(2) by (simp add: text_at_def shell_layout_def)
  have "line_at lay + n \<in> span (line_at lay) 128" unfolding n(1) using n(2) by (intro span_of_nat) simp
  then show "shell_layout lay ((mmem s)(line_at lay + n := 0))" by (intro shell_layout_cong [OF lay]) auto
qed

lemma shell_enter_parsed:
  assumes lay: "shell_layout lay (mmem s)" and h: "line_holds lay n s l"
  defines "s0 \<equiv> set_mmem ((mmem s)(line_at lay + n := 0)) s"
  shows "\<exists>q. text_at (mmem s0) (unat (line_at lay)) (unat (line_at lay) + 127) q (argument (parse_line l))
    \<and> shell_enter lay n s = map_option (\<lambda>s'. (0, print_prompt s')) (perform lay q (parse_line l) s0)"
proof -
  have m0: "mmem s0 = (mmem s)(line_at lay + n := 0)" by (simp add: s0_def)
  have lay0: "shell_layout lay (mmem s0)" and t0: "text_at (mmem s0) (unat (line_at lay)) (unat (line_at lay) + 127) (line_at lay) l"
    unfolding m0 using line_text [OF lay h] by blast+
  obtain p where p: "skip_spaces (mmem s0) (line_at lay) = Some p" "text_at (mmem s0) (unat (line_at lay)) (unat (line_at lay) + 127) p (dropWhile blank l)"
    using skip_spaces_eq [OF t0] by blast
  have enter: "shell_enter lay n s = (if mmem s0 p = 0 then Some (0, print_prompt s0)
      else do { s \<leftarrow> run_command lay p s0; Some (0, print_prompt s) })"
    unfolding shell_enter_def Let_def using p(1) unfolding s0_def by simp
  have "mmem s0 p = 0 \<longleftrightarrow> dropWhile blank l = []"
    using p(2) by (cases "dropWhile blank l") (auto simp: text_at_def)
  then consider (empty) "dropWhile blank l = []" "mmem s0 p = 0" | (cmd) "dropWhile blank l \<noteq> []" "mmem s0 p \<noteq> 0" by blast
  then show ?thesis
  proof cases
    case empty
    then have "parse_line l = Nothing" by (simp add: parse_line_def)
    then show ?thesis using enter empty(2) p(2) [unfolded empty(1)] by auto
  next
    case cmd
    obtain q where "text_at (mmem s0) (unat (line_at lay)) (unat (line_at lay) + 127) q (argument (parse_line l))" "run_command lay p s0 = perform lay q (parse_line l) s0"
      using run_command_parsed [OF lay0 p(2) refl cmd(1)] by blast
    then show ?thesis using enter cmd(2) by (intro exI [of _ q]) (simp add: map_option_case split: option.split bind_split)
  qed
qed

end
