(* ===== verification/Shell_Cmds.thy ===== *)
theory Shell_Cmds
  imports Shell_Parse
begin

text \<open>What the commands of the shell do: \<open>cat\<close> prints a file, \<open>ls\<close> lists names, \<open>cd\<close> sets the drive letter.\<close>

section \<open>System calls on the machine\<close>

lemma minus_one: "unat (- 1 :: u32) = 4294967295"
  by (simp add: unsigned_minus_1_eq_mask mask_eq_exp_minus_1)

lemma sys_write_print:
  "buffer \<noteq> 0 \<Longrightarrow> sys_write 1 buffer n k = (n, k\<lparr>kio := print (bytes_at (kmem k) buffer (unat n)) (kio k)\<rparr>)"
proof -
  let ?P = "\<lambda>(i :: u32) t. t = print (bytes_at (kmem k) buffer (unat i)) (kio k)"
  have "?P n (for_u32 0 n (\<lambda>i. printc (kmem k (buffer + i))) (kio k))"
  proof (rule for_u32_invariant [where P = ?P])
    fix i t assume "i < n" "?P i t"
    then show "?P (i + 1) (printc (kmem k (buffer + i)) t)" by (simp add: unat_suc_less bytes_at_Suc print_append) (simp add: print_def)
  qed (simp_all add: bytes_at_def print_def)
  then show "buffer \<noteq> 0 \<Longrightarrow> ?thesis" by (simp add: sys_write_def)
qed

text \<open>One \<open>SYS_READ\<close> of a descriptor in use.\<close>

lemma read_step:
  assumes use: "fd_in_use (mk s) fd" and f: "f = fd_file (fd_at (mk s) (fd - 3))" "vfs_ok f" "vvalid f \<noteq> 0"
    and buf: "buffer \<noteq> 0" "n \<noteq> 0" and dj: "span buffer (unat n) \<inter> span (vdata f) (unat (vsize f)) = {}"
  shows "\<exists>s' k. k = min (unat n) (unat (vsize f) - unat (vposition f)) \<and> syscall3 SYS_READ fd buffer n s = Some (of_nat k, s')
    \<and> bytes_at (mmem s') buffer k = take (unat n) (drop (unat (vposition f)) (vfs_bytes (mmem s) f))
    \<and> (\<forall>x. x \<notin> span buffer k \<longrightarrow> mmem s' x = mmem s x) \<and> kio (mk s') = kio (mk s) \<and> env_kept s s'
    \<and> fd_table (mk s') = (fd_table (mk s))[unat fd - 3 := (fd_at (mk s) (fd - 3))\<lparr>fd_file := f\<lparr>vposition := vposition f + of_nat k\<rparr>\<rparr>]"
proof -
  obtain m' k where r: "k = min (unat n) (unat (vsize f) - unat (vposition f))"
    "vfs_read (Some f) buffer n (mmem s) = (of_nat k, Some (f\<lparr>vposition := vposition f + of_nat k\<rparr>), m')"
    "bytes_at m' buffer k = take (unat n) (drop (unat (vposition f)) (vfs_bytes (mmem s) f))"
    "\<forall>x. x \<notin> span buffer k \<longrightarrow> m' x = mmem s x"
    using vfs_read_spec [OF f(2,3) buf(1) dj, of "mmem s"] by blast
  have fd: "fd \<noteq> 0" "unat (fd - 3) = unat fd - 3" using use fd_index(1) [of fd] by (auto simp: fd_in_use_def)
  have "sys_read fd buffer n (mk s) = Some (of_nat k,
      set_fd (fd - 3) ((fd_at (mk s) (fd - 3))\<lparr>fd_file := f\<lparr>vposition := vposition f + of_nat k\<rparr>\<rparr>) (set_kmem m' (mk s)))"
    using use r(2) f(1) unfolding sys_read_eq [OF buf fd(1)] mmem_def by simp
  then obtain regs where "syscall3 SYS_READ fd buffer n s = Some (of_nat k, s\<lparr>mk :=
      set_fd (fd - 3) ((fd_at (mk s) (fd - 3))\<lparr>fd_file := f\<lparr>vposition := vposition f + of_nat k\<rparr>\<rparr>) (set_kmem m' (mk s)), mregs := regs\<rparr>)"
    using syscall_read [of s fd buffer n] by (auto simp: sys_result_def)
  with r fd(2) show ?thesis
    by (intro exI [of _ "s\<lparr>mk := set_fd (fd - 3) ((fd_at (mk s) (fd - 3))\<lparr>fd_file := f\<lparr>vposition := vposition f + of_nat k\<rparr>\<rparr>)
          (set_kmem m' (mk s)), mregs := regs\<rparr>"] exI [of _ k])
      (simp add: mmem_def kmem_def env_kept_def same_host_def set_fd_def set_kmem_def)
qed

lemma write_step:
  assumes "buffer \<noteq> 0"
  shows "\<exists>s'. syscall3 SYS_WRITE 1 buffer n s = Some (n, s') \<and> mmem s' = mmem s \<and> host_kept s s'
    \<and> kio (mk s') = print (bytes_at (mmem s) buffer (unat n)) (kio (mk s))"
proof -
  obtain regs where "syscall3 SYS_WRITE 1 buffer n s
      = Some (n, s\<lparr>mk := (mk s)\<lparr>kio := print (bytes_at (kmem (mk s)) buffer (unat n)) (kio (mk s))\<rparr>, mregs := regs\<rparr>)"
    using syscall_write [of s 1 buffer n] unfolding sys_write_print [OF assms] by (auto simp: sys_result_def)
  then show ?thesis by (simp add: mmem_def kmem_def host_kept_def env_kept_def same_host_def)
qed

section \<open>Printing a file\<close>

lemma cat_loop_prints:
  assumes "fd_in_use (mk s) fd" and "f = fd_file (fd_at (mk s) (fd - 3))" "vfs_ok f" "vvalid f \<noteq> 0"
    and buf: "buf_at lay \<noteq> 0" and dj: "span (buf_at lay) 64 \<inter> span (vdata f) (unat (vsize f)) = {}"
    and len: "length (fd_table (mk s)) = 8"
  shows "\<exists>s'. cat_loop lay fd s = Some s' \<and> kio (mk s') = print (drop (unat (vposition f)) (vfs_bytes (mmem s) f)) (kio (mk s))
    \<and> fd_table (mk s') = (fd_table (mk s))[unat fd - 3 := (fd_at (mk s) (fd - 3))\<lparr>fd_file := f\<lparr>vposition := vsize f\<rparr>\<rparr>]
    \<and> (\<forall>x. x \<notin> span (buf_at lay) 64 \<longrightarrow> mmem s' x = mmem s x) \<and> env_kept s s'"
  using assms
proof (induction "unat (vsize f) - unat (vposition f)" arbitrary: s f rule: less_induct)
  case less
  let ?p = "unat (vposition f)" and ?n = "unat (vsize f)"
  have ps: "?p \<le> ?n" using less.prems(3) by (simp add: vfs_ok_def word_le_nat_alt)
  have idx: "unat fd - 3 < 8" "unat (fd - 3) = unat fd - 3" using less.prems(1) fd_index(1,2) [of fd] by (auto simp: fd_in_use_def)
  obtain s1 k where k: "k = min 64 (?n - ?p)" "syscall3 SYS_READ fd (buf_at lay) 64 s = Some (of_nat k, s1)"
    "bytes_at (mmem s1) (buf_at lay) k = take 64 (drop ?p (vfs_bytes (mmem s) f))"
    "\<forall>x. x \<notin> span (buf_at lay) k \<longrightarrow> mmem s1 x = mmem s x" "kio (mk s1) = kio (mk s)" "env_kept s s1"
    "fd_table (mk s1) = (fd_table (mk s))[unat fd - 3 := (fd_at (mk s) (fd - 3))\<lparr>fd_file := f\<lparr>vposition := vposition f + of_nat k\<rparr>\<rparr>]"
    using read_step [OF less.prems(1-5), of 64] less.prems(6) by auto
  have ks: "k \<le> 64" "unat (of_nat k :: u32) = k" using k(1) by (auto simp: unat_of_nat)
  have "span (buf_at lay) k \<subseteq> span (buf_at lay) 64" using ks(1) by (rule span_mono)
  then have mem1: "\<forall>x. x \<notin> span (buf_at lay) 64 \<longrightarrow> mmem s1 x = mmem s x" using k(4) by blast
  have m1: "(of_nat k :: u32) \<noteq> - 1" using ks minus_one by auto
  show ?case
  proof (cases "k = 0")
    case True
    then have "?p = ?n" using k(1) ps by auto
    then have "vposition f = vsize f" by (simp add: word_unat_eq_iff)
    moreover have "cat_loop lay fd s = Some s1" using True k(2) by (simp add: cat_loop.simps [of lay fd s])
    moreover have "drop ?n (vfs_bytes (mmem s) f) = []" by (simp add: vfs_bytes_def)
    ultimately show ?thesis using True k(5-7) mem1 by (simp add: print_def)
  next
    case False
    let ?f = "f\<lparr>vposition := vposition f + of_nat k\<rparr>"
    have pos: "unat (vposition f + of_nat k) = ?p + k"
      using k(1) ks ps unat_less_2p32 [of "vsize f"] by (subst unat_add_nowrap) auto
    obtain s2 where s2: "syscall3 SYS_WRITE 1 (buf_at lay) (of_nat k) s1 = Some (of_nat k, s2)" "mmem s2 = mmem s1" "host_kept s1 s2"
      "kio (mk s2) = print (take 64 (drop ?p (vfs_bytes (mmem s) f))) (kio (mk s))"
      using write_step [OF less.prems(5), of "of_nat k" s1] k(3,5) ks(2) by auto
    have tab: "fd_table (mk s2) = (fd_table (mk s))[unat fd - 3 := (fd_at (mk s) (fd - 3))\<lparr>fd_file := ?f\<rparr>]"
      using s2(3) k(7) by (simp add: host_kept_def)
    then have at2: "fd_at (mk s2) (fd - 3) = (fd_at (mk s) (fd - 3))\<lparr>fd_file := ?f\<rparr>"
      using idx less.prems(7) by (simp add: fd_at_def)
    have use2: "fd_in_use (mk s2) fd" using less.prems(1) at2 by (simp add: fd_in_use_def)
    have ok2: "vfs_ok ?f" using pos k(1) ps by (simp add: vfs_ok_def word_le_nat_alt)
    have bytes: "vfs_bytes (mmem s2) ?f = vfs_bytes (mmem s) f"
      unfolding vfs_bytes_def s2(2) using mem1 less.prems(6) by (auto intro!: bytes_at_cong)
    have "0 < k" "k \<le> ?n - ?p" using False k(1) by auto
    then have lt: "unat (vsize ?f) - unat (vposition ?f) < ?n - ?p" by (simp add: pos)
    obtain s' where s': "cat_loop lay fd s2 = Some s'"
      "kio (mk s') = print (drop (unat (vposition ?f)) (vfs_bytes (mmem s2) ?f)) (kio (mk s2))"
      "fd_table (mk s') = (fd_table (mk s2))[unat fd - 3 := (fd_at (mk s2) (fd - 3))\<lparr>fd_file := ?f\<lparr>vposition := vsize ?f\<rparr>\<rparr>]"
      "\<forall>x. x \<notin> span (buf_at lay) 64 \<longrightarrow> mmem s' x = mmem s2 x" "env_kept s2 s'"
      using less.hyps [OF lt use2 _ ok2] at2 less.prems(4-7) tab by auto
    have "drop ?p (vfs_bytes (mmem s) f) = take 64 (drop ?p (vfs_bytes (mmem s) f)) @ drop (?p + k) (vfs_bytes (mmem s) f)"
    proof (cases "k = 64")
      case True
      then show ?thesis by (metis append_take_drop_id drop_drop add.commute)
    next
      case False
      then have "?p + k = ?n" "?n - ?p \<le> 64" using k(1) ps by auto
      then show ?thesis by (simp add: vfs_bytes_def)
    qed
    then have "kio (mk s') = print (drop ?p (vfs_bytes (mmem s) f)) (kio (mk s))"
      using s'(2) s2(4) pos bytes by (metis print_append vfs_file.select_convs(3) vfs_file.update_convs(3) vfs_file.surjective)
    moreover have "cat_loop lay fd s = Some s'"
      using k(2) m1 False ks(2) s2(1) s'(1) by (auto simp: cat_loop.simps [of lay fd s] word_unat_eq_iff)
    moreover have "fd_table (mk s') = (fd_table (mk s))[unat fd - 3 := (fd_at (mk s) (fd - 3))\<lparr>fd_file := f\<lparr>vposition := vsize f\<rparr>\<rparr>]"
      using s'(3) tab at2 by simp
    moreover have "env_kept s s'" using env_kept_trans k(6) s2(3) s'(5) unfolding host_kept_def by blast
    moreover have "\<forall>x. x \<notin> span (buf_at lay) 64 \<longrightarrow> mmem s' x = mmem s x" using s'(4) s2(2) mem1 by simp
    ultimately show ?thesis by blast
  qed
qed

lemma close_step:
  assumes "fd_in_use (mk s) fd"
  shows "\<exists>s'. syscall1 SYS_CLOSE fd s = Some (0, s') \<and> mmem s' = mmem s \<and> kio (mk s') = kio (mk s) \<and> env_kept s s'
    \<and> fd_table (mk s') = (fd_table (mk s))[unat (fd - 3) := \<lparr>fd_file = vfs_closed, fd_used = 0\<rparr>]"
proof -
  obtain regs where "syscall1 SYS_CLOSE fd s
      = Some (0, s\<lparr>mk := set_fd (fd - 3) \<lparr>fd_file = vfs_closed, fd_used = 0\<rparr> (mk s), mregs := regs\<rparr>)"
    using syscall_close [of s fd] assms unfolding sys_close_eq by (auto simp: sys_result_def)
  then show ?thesis by (simp add: mmem_def kmem_def env_kept_def same_host_def set_fd_def)
qed

lemma open_step:
  assumes "path \<noteq> 0" "vfs_open (mmem s) (kinitrd (mk s)) path = Some f" "vvalid f \<noteq> 0"
    and free: "\<exists>i < 8. fd_used (fd_table (mk s) ! i) = 0"
  shows "\<exists>i s'. i < 8 \<and> fd_used (fd_table (mk s) ! i) = 0 \<and> syscall1 SYS_OPEN path s = Some (of_nat (3 + i), s')
    \<and> mmem s' = mmem s \<and> kio (mk s') = kio (mk s) \<and> env_kept s s'
    \<and> fd_table (mk s') = (fd_table (mk s))[i := \<lparr>fd_file = f, fd_used = 1\<rparr>]"
proof -
  obtain i where i: "i < 8" "fd_used (fd_table (mk s) ! i) = 0"
    "sys_open path (mk s) = Some (of_nat (3 + i), (mk s)\<lparr>fd_table := (fd_table (mk s))[i := \<lparr>fd_file = f, fd_used = 1\<rparr>]\<rparr>)"
    using sys_open_spec [of path "mk s" f] assms unfolding mmem_def by blast
  then obtain regs where "syscall1 SYS_OPEN path s = Some (of_nat (3 + i),
      s\<lparr>mk := (mk s)\<lparr>fd_table := (fd_table (mk s))[i := \<lparr>fd_file = f, fd_used = 1\<rparr>]\<rparr>, mregs := regs\<rparr>)"
    using syscall_open [of s path] by (auto simp: sys_result_def)
  then show ?thesis using i(1,2)
    by (intro exI [of _ i] exI [of _ "s\<lparr>mk := (mk s)\<lparr>fd_table := (fd_table (mk s))[i := \<lparr>fd_file = f, fd_used = 1\<rparr>]\<rparr>, mregs := regs\<rparr>"])
      (simp add: mmem_def kmem_def env_kept_def same_host_def)
qed

lemma open_fails:
  assumes "vfs_open (mmem s) (kinitrd (mk s)) path = Some f"
    and "path = 0 \<or> vvalid f = 0 \<or> (\<forall>i < 8. fd_used (fd_table (mk s) ! i) \<noteq> 0)"
  shows "\<exists>regs. syscall1 SYS_OPEN path s = Some (- 1, s\<lparr>mregs := regs\<rparr>)"
proof -
  have "sys_open path (mk s) = Some (- 1, mk s)"
  proof (cases "path = 0 \<or> vvalid f = 0")
    case True
    then show ?thesis using assms(1) by (auto simp: sys_open_def mmem_def)
  next
    case False
    then show ?thesis using sys_open_spec [of path "mk s" f] assms by (auto simp: mmem_def)
  qed
  then show ?thesis using syscall_open [of s path] by (auto simp: sys_result_def)
qed

lemma cmd_cat_prints:
  assumes path: "path \<noteq> 0" "mmem s path \<noteq> 0" and fds: "fds_ok (mk s)"
    and op: "vfs_open (mmem s) (kinitrd (mk s)) path = Some f" "vvalid f \<noteq> 0" "vposition f = 0"
    and free: "\<exists>i < 8. fd_used (fd_table (mk s) ! i) = 0"
    and buf: "buf_at lay \<noteq> 0" "span (buf_at lay) 64 \<inter> span (vdata f) (unat (vsize f)) = {}"
  shows "\<exists>s'. cmd_cat lay path s = Some s' \<and> kio (mk s') = print (vfs_bytes (mmem s) f @ [chr_nl]) (kio (mk s))
    \<and> host_kept s s' \<and> (\<forall>x. x \<notin> span (buf_at lay) 64 \<longrightarrow> mmem s' x = mmem s x)"
proof -
  obtain i s1 where o1: "i < 8" "fd_used (fd_table (mk s) ! i) = 0" "syscall1 SYS_OPEN path s = Some (of_nat (3 + i), s1)"
    "mmem s1 = mmem s" "kio (mk s1) = kio (mk s)" "env_kept s s1"
    "fd_table (mk s1) = (fd_table (mk s))[i := \<lparr>fd_file = f, fd_used = 1\<rparr>]"
    using open_step [OF path(1) op(1,2) free] by blast
  let ?fd = "of_nat (3 + i) :: u32"
  have fd: "unat ?fd = 3 + i" using o1(1) by (simp add: unat_of_nat del: of_nat_add)
  then have fd3: "3 \<le> ?fd" "?fd < 11" "unat (?fd - 3) = i"
    using o1(1) fd_index(1) [of ?fd] by (simp_all add: word_le_nat_alt word_less_nat_alt del: of_nat_add)
  have len: "length (fd_table (mk s)) = 8" using fds by (simp add: fds_ok_def)
  have at1: "fd_at (mk s1) (?fd - 3) = \<lparr>fd_file = f, fd_used = 1\<rparr>" using fd3(3) o1(1,7) len by (simp add: fd_at_def)
  have use1: "fd_in_use (mk s1) ?fd" using fd3(1,2) at1 unfolding fd_in_use_def by simp
  obtain s2 where c: "cat_loop lay ?fd s1 = Some s2" "kio (mk s2) = print (vfs_bytes (mmem s) f) (kio (mk s))"
    "fd_table (mk s2) = (fd_table (mk s1))[i := (fd_at (mk s1) (?fd - 3))\<lparr>fd_file := f\<lparr>vposition := vsize f\<rparr>\<rparr>]"
    "\<forall>x. x \<notin> span (buf_at lay) 64 \<longrightarrow> mmem s2 x = mmem s1 x" "env_kept s1 s2"
    using cat_loop_prints [OF use1, of f lay] at1 vfs_open_ok [OF op(1)] op(2,3) buf o1(4,5,7) len fd by auto
  have use2: "fd_in_use (mk s2) ?fd" using use1 c(3) at1 fd3(3) o1(1,7) len unfolding fd_in_use_def fd_at_def by simp
  obtain s3 where d: "syscall1 SYS_CLOSE ?fd s2 = Some (0, s3)" "mmem s3 = mmem s2" "kio (mk s3) = kio (mk s2)" "env_kept s2 s3"
    "fd_table (mk s3) = (fd_table (mk s2))[unat (?fd - 3) := \<lparr>fd_file = vfs_closed, fd_used = 0\<rparr>]"
    using close_step [OF use2] by blast
  have "fd_table (mk s) ! i = \<lparr>fd_file = vfs_closed, fd_used = 0\<rparr>" using fds o1(1,2) by (auto simp: fds_ok_def fd_ok_def)
  then have tab: "fd_table (mk s3) = fd_table (mk s)" using d(5) c(3) o1(7) fd3(3) by (metis list_update_id list_update_overwrite)
  have "unat ?fd \<noteq> unat (- 1 :: u32)" unfolding fd minus_one using o1(1) by simp
  then have "?fd \<noteq> - 1" by metis
  then have "cmd_cat lay path s = Some (putc chr_nl s3)" using path o1(3) c(1) d(1) by (simp add: cmd_cat_def)
  moreover have "host_kept s (putc chr_nl s3)"
    using env_kept_trans [OF env_kept_trans [OF env_kept_trans [OF o1(6) c(5)] d(4)]] host_kept_key(1) [of s3 "printc chr_nl"] tab
    unfolding host_kept_def putc_def by simp
  moreover have "kio (mk (putc chr_nl s3)) = print (vfs_bytes (mmem s) f @ [chr_nl]) (kio (mk s))"
    using d(3) c(2) by (simp add: putc_def print_append) (simp add: print_def)
  ultimately show ?thesis using c(4) d(2) o1(4) by (intro exI [of _ "putc chr_nl s3"]) (simp add: putc_def)
qed

section \<open>Changing the drive\<close>

definition cd_drive :: "cstr \<Rightarrow> u8 option" where
  "cd_drive a = (case a of
       [c, d] \<Rightarrow> if d \<noteq> 0x3A then None
                else if 65 \<le> unat c \<and> unat c \<le> 90 then Some c
                else if 97 \<le> unat c \<and> unat c \<le> 122 then Some (c - 32) else None
     | _ \<Rightarrow> None)"

lemma cd_drive_letter: "cd_drive a = Some d \<Longrightarrow> 65 \<le> unat d \<and> unat d \<le> 90"
proof -
  have "unat (c - 32 :: u8) = unat c - 32" if "97 \<le> unat c" for c
    using that unat_sub [of 32 c] by (simp add: word_le_nat_alt)
  then show "cd_drive a = Some d \<Longrightarrow> ?thesis" by (auto simp: cd_drive_def split: list.splits if_splits)
qed

lemma cmd_cd_eq:
  assumes t: "text_at (mmem s) lo hi p a"
  shows "cmd_cd p s = (if a = [] then sayln (lit '':'') (putc (current_drive s) (say (lit ''Current drive: '') s))
    else case cd_drive a of Some d \<Rightarrow> switched (s\<lparr>current_drive := d\<rparr>)
       | None \<Rightarrow> sayln (lit ''cd: only single drive letter supported (e.g., A:, B:, C:)'') s)"
proof -
  have p: "p \<noteq> 0" and str: "str_at (mmem s) p a" using t by (auto simp: text_at_def)
  show ?thesis
  proof (cases a)
    case Nil
    then show ?thesis using str by (simp add: cmd_cd_def)
  next
    case (Cons c r)
    have c: "mmem s p = c" "c \<noteq> 0" and r: "str_at (mmem s) (p + 1) r" using str Cons by auto
    have tail: "mmem s (p + 1) = 0x3A \<and> mmem s (p + 2) = 0 \<longleftrightarrow> r = [0x3A]"
    proof (cases r)
      case Nil
      then show ?thesis using r by auto
    next
      case (Cons d q)
      then have "mmem s (p + 1) = d" "str_at (mmem s) (p + 2) q" using r by (auto simp: add.assoc)
      then show ?thesis using Cons by (cases q) auto
    qed
    have up: "sint c \<ge> 0x41 \<and> sint c \<le> 0x5A \<longleftrightarrow> 65 \<le> unat c \<and> unat c \<le> 90" using signed_range [of 65 90 c] by simp
    have low: "sint c \<ge> 0x61 \<and> sint c \<le> 0x7A \<longleftrightarrow> 97 \<le> unat c \<and> unat c \<le> 122" using signed_range [of 97 122 c] by simp
    have "cmd_cd p s = (if r = [0x3A] \<and> 65 \<le> unat c \<and> unat c \<le> 90 then switched (s\<lparr>current_drive := c\<rparr>)
        else if r = [0x3A] \<and> 97 \<le> unat c \<and> unat c \<le> 122 then switched (s\<lparr>current_drive := c - 32\<rparr>)
        else sayln (lit ''cd: only single drive letter supported (e.g., A:, B:, C:)'') s)"
      unfolding cmd_cd_def Let_def c(1) using p c(2) tail up low by auto
    then show ?thesis unfolding Cons by (cases r; cases "tl r") (auto simp: cd_drive_def)
  qed
qed

end
