(* ===== verification/Shell_Ls.thy ===== *)
theory Shell_Ls
  imports Shell_Cmds
begin

text \<open>The listing command: its output is a function of the index and the prefix.\<close>

section \<open>Loops\<close>

lemma each_u32_invariant:
  fixes s :: 's
  assumes "P 0 s" "\<And>i t. i < n \<Longrightarrow> P i t \<Longrightarrow> \<exists>t'. body i t = Some t' \<and> P (i + 1) t'"
  shows "\<exists>s'. each_u32 n body s = Some s' \<and> P n s'"
proof -
  have "\<exists>r. loop_u32 0 n (\<lambda>i s. do { s \<leftarrow> body i s; Some (Inr s :: 's + 's) }) s = Some r
      \<and> (case r of Inl v \<Rightarrow> False | Inr t \<Rightarrow> P n t)"
  proof (rule loop_u32_invariant [where P = P and Q = "\<lambda>_. False"])
    show "\<exists>r. (do { s \<leftarrow> body i t; Some (Inr s :: 's + 's) }) = Some r \<and> (case r of Inl v \<Rightarrow> False | Inr t' \<Rightarrow> P (i + 1) t')"
      if "i < n" "P i t" for i t
      using assms(2) [OF that] by auto
  qed (use assms(1) in simp_all)
  then obtain r where "loop_u32 0 n (\<lambda>i s. do { s \<leftarrow> body i s; Some (Inr s :: 's + 's) }) s = Some r"
    "case r of Inl v \<Rightarrow> False | Inr t \<Rightarrow> P n t" by blast
  then show ?thesis by (cases r) (simp_all add: each_u32_def)
qed

lemma loop_u32_exit:
  "loop_u32 lo hi body s = Some (Inl v) \<Longrightarrow> \<exists>i t. i < hi \<and> body i t = Some (Inl v)"
proof (induction lo hi body s rule: loop_u32.induct)
  case (1 lo hi body s)
  then show ?case by (subst (asm) loop_u32.simps) (auto split: if_splits option.splits sum.splits)
qed

section \<open>Where names are\<close>

lemma name_by_prefix_entry:
  assumes "initrd_get_file_name_by_prefix m st pre index = Some p" "p \<noteq> 0"
  shows "\<exists>i < initrd_files_count st. p = file_entry (initrd_files st) i"
proof -
  let ?b = "\<lambda>i seen. do {
                 b \<leftarrow> cstr_has_prefix m (file_entry (initrd_files st) i) pre;
                 Some (if b then
                         if seen = index then Inl (file_entry (initrd_files st) i) else Inr (seen + 1)
                       else Inr seen)
               }"
  have "loop_u32 0 (initrd_files_count st) ?b 0 = Some (Inl p)"
    using assms by (auto simp: initrd_get_file_name_by_prefix_def split: if_splits option.splits sum.splits)
  from loop_u32_exit [OF this] show ?thesis by (auto split: bind_splits if_splits)
qed

lemma entry_for_outside:
  assumes "entry_for m e t" "\<And>x. x \<in> span e 108 \<Longrightarrow> m' x = m x"
  shows "entry_for m' e t"
proof -
  have "span e (length (take 99 (tname t)) + 1) \<subseteq> span e 108" by (rule span_mono) simp
  then have "str_at m' e (take 99 (tname t))"
    using assms by (intro str_at_cong [of m e _ m']) (auto simp: entry_for_def)
  moreover have "read_u32 m' (e + of_nat k) = read_u32 m (e + of_nat k)" if "k + 4 \<le> 108" for k
    using field_cong [of e 108 m' m k] assms(2) that by simp
  from this [of 100] this [of 104] have "entry_offset m' e = entry_offset m e" "entry_size m' e = entry_size m e"
    by (simp_all add: entry_offset_def entry_size_def)
  ultimately show ?thesis using assms(1) by (simp add: entry_for_def)
qed

lemma indexed_cong:
  assumes "indexed m st fs" "\<And>i x. i < length fs \<Longrightarrow> x \<in> span (file_entry (initrd_files st) (of_nat i)) 108 \<Longrightarrow> m' x = m x"
  shows "indexed m' st fs"
  using assms entry_for_outside [of m _ _ m'] by (auto simp: indexed_def)

section \<open>Listing\<close>

text \<open>
  The line for a file: the name as it fits the 96 bytes of the command's buffer, and the size found
  under that shortened name, \<open>-1\<close> if there is none.
\<close>

definition shown_name :: "member \<Rightarrow> cstr" where "shown_name t = take 95 (fname t)"

definition shown_size :: "member list \<Rightarrow> member \<Rightarrow> u32" where
  "shown_size fs t = (case lookup fs (shown_name t) of None \<Rightarrow> - 1 | Some u \<Rightarrow> of_nat (tsize u))"

definition ls_line :: "member list \<Rightarrow> member \<Rightarrow> cstr" where
  "ls_line fs t = lit '' - '' @ shown_name t @ lit '' ('' @ decimal (unat (shown_size fs t)) @ lit '')'' @ [chr_nl]"

definition ls_text :: "member list \<Rightarrow> cstr \<Rightarrow> cstr" where
  "ls_text fs ps =
     (let l = listing fs ps
      in lit ''ls count='' @ decimal (length l) @ [chr_nl] @ concat (map (ls_line fs) (take 32 l))
         @ (if 32 < length l then lit ''... and '' @ decimal (length l - 32) @ lit '' more'' @ [chr_nl] else []))"

definition ls_env :: "layout \<Rightarrow> u32 \<Rightarrow> member list \<Rightarrow> cstr \<Rightarrow> machine \<Rightarrow> bool" where
  "ls_env lay pre fs ps s \<longleftrightarrow> indexed (mmem s) (kinitrd (mk s)) fs \<and> str_at (mmem s) pre ps \<and> pre \<noteq> 0 \<and> name_at lay \<noteq> 0
     \<and> span (name_at lay) 96 \<inter> span pre (length ps + 1) = {}
     \<and> (\<forall>i < length fs. span (name_at lay) 96 \<inter> span (file_entry (initrd_files (kinitrd (mk s))) (of_nat i)) 108 = {})"

lemma ls_env_cong:
  assumes e: "ls_env lay pre fs ps s" and k: "host_kept s s'" and m: "\<And>x. x \<notin> span (name_at lay) 96 \<Longrightarrow> mmem s' x = mmem s x"
  shows "ls_env lay pre fs ps s'"
proof -
  have i: "kinitrd (mk s') = kinitrd (mk s)" using k by (simp add: host_kept_def env_kept_def)
  have "indexed (mmem s) (kinitrd (mk s)) fs" using e by (simp add: ls_env_def)
  then have "indexed (mmem s') (kinitrd (mk s)) fs"
    by (rule indexed_cong) (use e m in \<open>auto simp: ls_env_def\<close>)
  moreover have "str_at (mmem s) pre ps" using e by (simp add: ls_env_def)
  then have "str_at (mmem s') pre ps" by (rule str_at_cong) (use e m in \<open>auto simp: ls_env_def\<close>)
  ultimately show ?thesis using e i by (simp add: ls_env_def)
qed

lemma print_uint_kmain_eq: "print_uint_kmain v s = say (decimal (unat v)) s"
proof -
  have "print_uint_kmain v s = on_io (print_uint v) s" by (simp add: print_uint_kmain_def on_io_def print_uint_def)
  then show ?thesis by (simp add: say_def on_io_def print_uint_eq)
qed

lemma say_append: "say ys (say xs s) = say (xs @ ys) s"
  by (simp add: say_def on_io_def print_append)

lemma putc_say: "putc c (say xs s) = say (xs @ [c]) s"
  by (simp add: say_def putc_def on_io_def print_append) (simp add: print_def)

lemma sayln_say: "sayln xs s = say (xs @ [chr_nl]) s"
  by (simp add: say_def sayln_def on_io_def println_eq)

lemmas say_simps = print_uint_kmain_eq say_append putc_say sayln_say

lemma say_kept: "host_kept s (say xs s)" "mmem (say xs s) = mmem s" "kio (mk (say xs s)) = print xs (kio (mk s))"
  "kinitrd (mk (say xs s)) = kinitrd (mk s)"
  by (simp_all add: say_def host_kept_key)

text \<open>The two calls of the loop body.\<close>

lemma name_step:
  assumes e: "ls_env lay pre fs ps s" and i: "unat i < length (listing fs ps)"
  defines "t \<equiv> listing fs ps ! unat i"
  shows "\<exists>s' r. syscall4 SYS_FILE_NAME_PREFIX pre i (name_at lay) 96 s = Some (r, s') \<and> r \<noteq> - 1
    \<and> str_at (mmem s') (name_at lay) (shown_name t) \<and> kio (mk s') = kio (mk s) \<and> host_kept s s'
    \<and> (\<forall>x. x \<notin> span (name_at lay) 96 \<longrightarrow> mmem s' x = mmem s x)"
proof -
  let ?st = "kinitrd (mk s)"
  have ix: "indexed (mmem s) ?st fs" and ps: "str_at (mmem s) pre ps" "pre \<noteq> 0" using e by (auto simp: ls_env_def)
  obtain p where p: "initrd_get_file_name_by_prefix (mmem s) ?st pre i = Some p" "p \<noteq> 0" "str_at (mmem s) p (fname t)"
    using initrd_get_file_name_by_prefix_eq [OF ix ps, of i] i by (auto simp: t_def)
  obtain j where j: "j < initrd_files_count ?st" "p = file_entry (initrd_files ?st) j"
    using name_by_prefix_entry [OF p(1,2)] by blast
  have "unat j < length fs" using indexed_entry(1) [OF ix j(1)] .
  then have "span (name_at lay) 96 \<inter> span (file_entry (initrd_files ?st) (of_nat (unat j))) 108 = {}"
    using e unfolding ls_env_def by blast
  then have "span (name_at lay) 96 \<inter> span p 108 = {}" using j(2) by simp
  moreover have "span p (length (fname t) + 1) \<subseteq> span p 108" by (rule span_mono) (simp add: fname_def)
  ultimately have dj: "span (name_at lay) (unat (96 :: u32)) \<inter> span p (length (fname t) + 1) = {}" by auto
  obtain m' k where c: "k = min 95 (length (fname t))" "copy_cstr_to_user (name_at lay) 96 p (mmem s) = (of_nat k, m')"
    "str_at m' (name_at lay) (take k (fname t))" "\<forall>x. x \<notin> span (name_at lay) (Suc k) \<longrightarrow> m' x = mmem s x"
    using copy_cstr_to_user_spec [OF p(3) _ p(2) _ dj] e by (auto simp: ls_env_def)
  have "sys_file_name_prefix pre i (name_at lay) 96 (mk s) = Some (of_nat k, set_kmem m' (mk s))"
    using p(1,2) c(2) by (simp add: sys_file_name_prefix_def copy_out_def mmem_def)
  then obtain regs where r: "syscall4 SYS_FILE_NAME_PREFIX pre i (name_at lay) 96 s
      = Some (of_nat k, s\<lparr>mk := set_kmem m' (mk s), mregs := regs\<rparr>)"
    using syscall_name_prefix [of s pre i "name_at lay" 96] by (auto simp: sys_result_def)
  have "unat (of_nat k :: u32) \<noteq> unat (- 1 :: u32)" unfolding minus_one using c(1) by (simp add: unat_of_nat)
  then have "(of_nat k :: u32) \<noteq> - 1" by metis
  moreover have "take k (fname t) = shown_name t" using c(1) by (simp add: shown_name_def min_def)
  moreover have "span (name_at lay) (Suc k) \<subseteq> span (name_at lay) 96" using c(1) by (intro span_mono) simp
  ultimately show ?thesis using r c(3,4)
    by (intro exI [of _ "s\<lparr>mk := set_kmem m' (mk s), mregs := regs\<rparr>"] exI [of _ "of_nat k"])
      (auto simp: mmem_def host_kept_def env_kept_def same_host_def set_kmem_def kmem_def)
qed

lemma size_step:
  assumes ix: "indexed (mmem s) (kinitrd (mk s)) fs" and nm: "str_at (mmem s) name (shown_name t)" "name \<noteq> 0"
  shows "\<exists>regs. syscall1 SYS_FILE_SIZE_BY_NAME name s = Some (shown_size fs t, s\<lparr>mregs := regs\<rparr>)"
proof -
  have "sys_file_size_by_name name (mk s) = Some (shown_size fs t)"
    using initrd_get_file_size_by_name_eq [OF ix nm]
    by (simp add: sys_file_size_by_name_def mmem_def shown_size_def split: option.split)
  then show ?thesis using syscall_size_by_name [of s name] by (auto simp: sys_result_def with_state_def)
qed

lemma ls_item_prints:
  assumes e: "ls_env lay pre fs ps s" and i: "unat i < length (listing fs ps)"
  shows "\<exists>s'. ls_item lay pre i s = Some s' \<and> kio (mk s') = print (ls_line fs (listing fs ps ! unat i)) (kio (mk s))
    \<and> host_kept s s' \<and> (\<forall>x. x \<notin> span (name_at lay) 96 \<longrightarrow> mmem s' x = mmem s x)"
proof -
  let ?t = "listing fs ps ! unat i"
  obtain s1 r where s1: "syscall4 SYS_FILE_NAME_PREFIX pre i (name_at lay) 96 s = Some (r, s1)" "r \<noteq> - 1"
    "str_at (mmem s1) (name_at lay) (shown_name ?t)" "kio (mk s1) = kio (mk s)" "host_kept s s1"
    "\<forall>x. x \<notin> span (name_at lay) 96 \<longrightarrow> mmem s1 x = mmem s x" using name_step [OF e i] by blast
  let ?s2 = "say (lit '' - '' @ shown_name ?t @ lit '' ('') s1"
  have e1: "ls_env lay pre fs ps s1" using ls_env_cong [OF e s1(5)] s1(6) by blast
  obtain regs where sz: "syscall1 SYS_FILE_SIZE_BY_NAME (name_at lay) ?s2 = Some (shown_size fs ?t, ?s2\<lparr>mregs := regs\<rparr>)"
    using size_step [of ?s2 fs "name_at lay" ?t] e1 s1(3) by (auto simp: ls_env_def say_kept)
  let ?s3 = "say (decimal (unat (shown_size fs ?t)) @ lit '')'' @ [chr_nl]) (?s2\<lparr>mregs := regs\<rparr>)"
  have "ls_item lay pre i s = Some ?s3"
    using s1(1,2) sz load_cstr_eq [OF s1(3)] by (simp add: ls_item_def print_ptr_def say_simps say_kept)
  moreover have "host_kept s ?s3"
    using s1(5) by (simp add: host_kept_def env_kept_def same_host_def say_def on_io_def)
  moreover have "mmem (?s2\<lparr>mregs := regs\<rparr>) = mmem s1" by (simp add: mmem_def say_def on_io_def kmem_def)
  moreover have "kio (mk ?s3) = print (ls_line fs ?t) (kio (mk s))"
    using s1(4) by (simp add: say_def on_io_def ls_line_def print_append)
  ultimately show ?thesis using s1(6) by (intro exI [of _ ?s3]) (simp add: say_kept)
qed

lemma length_listing: "indexed m st fs \<Longrightarrow> length (listing fs ps) < 4294967296"
proof -
  assume "indexed m st fs"
  then have "length fs = unat (initrd_files_count st)" by (simp add: indexed_def)
  moreover have "length (listing fs ps) \<le> length fs" by (simp add: listing_def)
  ultimately show ?thesis using unat_less_2p32 [of "initrd_files_count st"] by simp
qed

lemma cmd_ls_prints:
  assumes e: "ls_env lay pre fs ps s"
  shows "\<exists>s'. cmd_ls lay pre s = Some s' \<and> kio (mk s') = print (ls_text fs ps) (kio (mk s)) \<and> host_kept s s'
    \<and> (\<forall>x. x \<notin> span (name_at lay) 96 \<longrightarrow> mmem s' x = mmem s x)"
proof -
  let ?l = "listing fs ps" and ?n = "of_nat (length (listing fs ps)) :: u32"
  have ix: "indexed (mmem s) (kinitrd (mk s)) fs" and ps: "str_at (mmem s) pre ps" "pre \<noteq> 0" using e by (auto simp: ls_env_def)
  have n: "unat ?n = length ?l" using length_listing [OF ix] by (simp add: unat_of_nat)
  have "sys_file_count_prefix pre (mk s) = Some ?n"
    using initrd_count_prefix_eq [OF ix ps] by (simp add: sys_file_count_prefix_def mmem_def)
  then obtain regs where c: "syscall1 SYS_FILE_COUNT_PREFIX pre s = Some (?n, s\<lparr>mregs := regs\<rparr>)"
    using syscall_count_prefix [of s pre] by (auto simp: sys_result_def with_state_def)
  define shown where "shown = (if ?n < 32 then ?n else 32)"
  have sh: "unat shown = min 32 (length ?l)" using n by (auto simp: shown_def word_less_nat_alt)
  define s1 where "s1 = say (lit ''ls count='' @ decimal (length ?l) @ [chr_nl]) (s\<lparr>mregs := regs\<rparr>)"
  have s1: "host_kept s s1" "mmem s1 = mmem s" "kio (mk s1) = print (lit ''ls count='' @ decimal (length ?l) @ [chr_nl]) (kio (mk s))"
    by (simp_all add: s1_def say_def on_io_def host_kept_def env_kept_def same_host_def mmem_def kmem_def)
  let ?P = "\<lambda>i t. kio (mk t) = print (concat (map (ls_line fs) (take (unat i) ?l))) (kio (mk s1)) \<and> host_kept s1 t
    \<and> (\<forall>x. x \<notin> span (name_at lay) 96 \<longrightarrow> mmem t x = mmem s1 x)"
  have e1: "ls_env lay pre fs ps s1" using ls_env_cong [OF e s1(1)] s1(2) by simp
  have "\<exists>s'. each_u32 shown (ls_item lay pre) s1 = Some s' \<and> ?P shown s'"
  proof (rule each_u32_invariant [where P = ?P])
    fix i t assume i: "i < shown" "?P i t"
    have lt: "unat i < length ?l" and suc: "unat (i + 1) = Suc (unat i)"
      using i(1) sh unat_suc_less [OF i(1)] by (simp_all add: word_less_nat_alt)
    have "ls_env lay pre fs ps t" using ls_env_cong [OF e1] i(2) by blast
    from ls_item_prints [OF this lt] obtain t' where t': "ls_item lay pre i t = Some t'"
      "kio (mk t') = print (ls_line fs (?l ! unat i)) (kio (mk t))" "host_kept t t'"
      "\<forall>x. x \<notin> span (name_at lay) 96 \<longrightarrow> mmem t' x = mmem t x" by blast
    have "kio (mk t') = print (concat (map (ls_line fs) (take (unat (i + 1)) ?l))) (kio (mk s1))"
      using t'(2) i(2) lt unfolding suc by (simp add: take_Suc_conv_app_nth print_append)
    then show "\<exists>t'. ls_item lay pre i t = Some t' \<and> ?P (i + 1) t'"
      using t' i(2) host_kept_trans [of s1 t t'] by (intro exI [of _ t']) simp
  qed (simp add: print_def host_kept_refl)
  then obtain s2 where s2: "each_u32 shown (ls_item lay pre) s1 = Some s2" "?P shown s2" by blast
  let ?rest = "if 32 < length ?l then lit ''... and '' @ decimal (length ?l - 32) @ lit '' more'' @ [chr_nl] else []"
  have more: "?n > shown \<longleftrightarrow> 32 < length ?l" using n sh by (auto simp: word_less_nat_alt min_def)
  have left: "unat (?n - shown) = length ?l - 32" if "32 < length ?l"
    using unat_sub_le [of shown ?n] that n sh by (simp add: word_le_nat_alt)
  have "cmd_ls lay pre s = Some (if 32 < length ?l then say ?rest s2 else s2)"
    using c s2(1) more left n unfolding s1_def
    by (simp add: cmd_ls_def Let_def say_simps flip: shown_def cong: if_cong split del: if_split)
  moreover have "say [] s2 = s2" by (simp add: say_def on_io_def print_def)
  then have "(if 32 < length ?l then say ?rest s2 else s2) = say ?rest s2" by simp
  moreover have "host_kept s (say ?rest s2)"
    using host_kept_trans [OF host_kept_trans [OF s1(1)]] s2(2) say_kept(1) by blast
  moreover have "kio (mk (say ?rest s2)) = print (ls_text fs ps) (kio (mk s))"
    using s2(2) s1(3) sh by (simp add: say_kept ls_text_def Let_def print_def)
  ultimately show ?thesis using s2(2) s1(2) by (intro exI [of _ "say ?rest s2"]) (simp add: say_kept)
qed

end
