(* ===== verification/Shell_Inv.thy ===== *)
theory Shell_Inv
  imports Shell_Ls
begin

text \<open>
  The shell as a whole: every pass of its loop returns, whatever is typed and whenever interrupts
  arrive, and it writes no memory but its own three buffers.
\<close>

section \<open>The environment of the shell\<close>

definition own :: "layout \<Rightarrow> u32 set" where
  "own lay = span (line_at lay) 128 \<union> span (name_at lay) 96 \<union> span (buf_at lay) 64"

definition shell_lits :: "layout \<Rightarrow> (u32 \<times> cstr) list" where
  "shell_lits lay = [(help_lit lay, lit ''help''), (clear_lit lay, lit ''clear''), (ls_lit lay, lit ''ls''),
     (cat_lit lay, lit ''cat''), (cd_lit lay, lit ''cd'')]"

text \<open>
  The buffers are apart from each other; literals, index and file contents are in memory outside the
  buffers; the descriptors and the keyboard buffer are well formed; the drive is a capital letter.
\<close>

definition shell_env :: "layout \<Rightarrow> member list \<Rightarrow> machine \<Rightarrow> bool" where
  "shell_env lay fs s \<longleftrightarrow>
     0 < unat (line_at lay) \<and> unat (line_at lay) + 128 < 4294967296 \<and> name_at lay \<noteq> 0 \<and> buf_at lay \<noteq> 0
     \<and> span (name_at lay) 96 \<inter> span (line_at lay) 128 = {} \<and> span (buf_at lay) 64 \<inter> span (line_at lay) 128 = {}
     \<and> (\<forall>(p, cs) \<in> set (shell_lits lay). p \<noteq> 0 \<and> str_at (mmem s) p cs \<and> span p (length cs + 1) \<inter> own lay = {})
     \<and> indexed (mmem s) (kinitrd (mk s)) fs
     \<and> (\<forall>i < length fs. span (file_entry (initrd_files (kinitrd (mk s))) (of_nat i)) 108 \<inter> own lay = {})
     \<and> (\<forall>t \<in> set fs. initrd_base (kinitrd (mk s)) + of_nat (toff t) \<noteq> 0
          \<and> span (initrd_base (kinitrd (mk s)) + of_nat (toff t)) (unat (of_nat (tsize t) :: u32)) \<inter> own lay = {})
     \<and> fds_ok (mk s) \<and> kbd_wf (kkbd (mk s)) \<and> 65 \<le> unat (current_drive s) \<and> unat (current_drive s) \<le> 90"

lemma shell_env_layout: "shell_env lay fs s \<Longrightarrow> shell_layout lay (mmem s)"
  by (auto simp: shell_env_def shell_layout_def shell_lits_def placed_lit_def own_def)

text \<open>What a pass may change.\<close>

definition shell_keeps :: "layout \<Rightarrow> machine \<Rightarrow> machine \<Rightarrow> bool" where
  "shell_keeps lay s s' \<longleftrightarrow> (\<forall>x. x \<notin> own lay \<longrightarrow> mmem s' x = mmem s x) \<and> kinitrd (mk s') = kinitrd (mk s)
     \<and> fd_table (mk s') = fd_table (mk s) \<and> (kbd_wf (kkbd (mk s)) \<longrightarrow> kbd_wf (kkbd (mk s')))
     \<and> (65 \<le> unat (current_drive s) \<and> unat (current_drive s) \<le> 90
         \<longrightarrow> 65 \<le> unat (current_drive s') \<and> unat (current_drive s') \<le> 90)"

lemma shell_keeps_refl: "shell_keeps lay s s"
  by (simp add: shell_keeps_def)

lemma shell_keeps_trans: "shell_keeps lay s t \<Longrightarrow> shell_keeps lay t u \<Longrightarrow> shell_keeps lay s u"
  by (simp add: shell_keeps_def)

lemma shell_keeps_host:
  "host_kept s s' \<Longrightarrow> (\<And>x. x \<notin> own lay \<Longrightarrow> mmem s' x = mmem s x) \<Longrightarrow> shell_keeps lay s s'"
  by (simp add: shell_keeps_def host_kept_def env_kept_def same_host_def)

lemma shell_keeps_out: "shell_keeps lay s (on_io f s)"
  by (rule shell_keeps_host) (simp_all add: host_kept_key)

lemma on_io_twice: "on_io g (on_io f s) = on_io (g \<circ> f) s"
  by (simp add: on_io_def)

lemma shell_keeps_prompt: "shell_keeps lay s (print_prompt s)"
  by (simp add: print_prompt_def Let_def putc_def say_def shell_keeps_def on_io_def mmem_def kmem_def)

lemma shell_env_keeps:
  assumes e: "shell_env lay fs s" and k: "shell_keeps lay s s'"
  shows "shell_env lay fs s'"
proof -
  have m: "\<And>x. x \<notin> own lay \<Longrightarrow> mmem s' x = mmem s x" and i: "kinitrd (mk s') = kinitrd (mk s)"
    using k by (auto simp: shell_keeps_def)
  have "str_at (mmem s') p cs" if "(p, cs) \<in> set (shell_lits lay)" for p cs
  proof (rule str_at_cong)
    show "str_at (mmem s) p cs" using e that by (auto simp: shell_env_def)
    show "mmem s' x = mmem s x" if x: "x \<in> span p (length cs + 1)" for x
      using e x \<open>(p, cs) \<in> set (shell_lits lay)\<close> by (intro m) (auto simp: shell_env_def)
  qed
  moreover have "indexed (mmem s') (kinitrd (mk s)) fs"
  proof (rule indexed_cong)
    show "indexed (mmem s) (kinitrd (mk s)) fs" using e by (simp add: shell_env_def)
    show "mmem s' x = mmem s x" if "j < length fs" "x \<in> span (file_entry (initrd_files (kinitrd (mk s))) (of_nat j)) 108" for j x
      using e that by (intro m) (auto simp: shell_env_def)
  qed
  moreover have "fds_ok (mk s')" using e k fds_ok_cong [of "mk s'" "mk s"] by (simp add: shell_env_def shell_keeps_def)
  ultimately show ?thesis using e k i unfolding shell_env_def shell_keeps_def by auto
qed

section \<open>Commands\<close>

lemma line_span:
  assumes "text_at m (unat (line_at lay)) (unat (line_at lay) + 127) p cs" "unat (line_at lay) + 128 < 4294967296"
  shows "span p (length cs + 1) \<subseteq> span (line_at lay) 128"
proof -
  let ?k = "unat p - unat (line_at lay)"
  have le: "unat (line_at lay) \<le> unat p" "unat p + length cs \<le> unat (line_at lay) + 127" using assms(1) by (auto simp: text_at_def)
  have "p = line_at lay + of_nat ?k" using le(1) by (simp add: of_nat_diff)
  moreover have "span (line_at lay + of_nat ?k) (length cs + 1) \<subseteq> span (line_at lay) 128"
    by (rule span_piece) (use le in simp_all)
  ultimately show ?thesis by metis
qed

lemma cmd_cd_keeps:
  assumes "text_at (mmem s) lo hi p a"
  shows "shell_keeps lay s (cmd_cd p s)"
proof -
  have switch: "shell_keeps lay s (switched (s\<lparr>current_drive := d\<rparr>))" if "65 \<le> unat d" "unat d \<le> 90" for d
    using that by (simp add: switched_def out_defs shell_keeps_def on_io_def mmem_def kmem_def)
  show ?thesis unfolding cmd_cd_eq [OF assms]
    using switch cd_drive_letter by (auto simp: out_defs on_io_twice shell_keeps_out split: option.split)
qed

text \<open>The file a path names in the index.\<close>

definition file_of :: "initrd \<Rightarrow> member \<Rightarrow> vfs_file" where
  "file_of st t = \<lparr>vdata = initrd_base st + of_nat (toff t), vsize = of_nat (tsize t), vposition = 0, vvalid = 1\<rparr>"

lemma cmd_cat_env:
  assumes e: "shell_env lay fs s" and t: "text_at (mmem s) lo hi p a" and ne: "a \<noteq> []"
  shows "\<exists>s'. cmd_cat lay p s = Some s' \<and> host_kept s s' \<and> (\<forall>x. x \<notin> span (buf_at lay) 64 \<longrightarrow> mmem s' x = mmem s x)
    \<and> kio (mk s') = print ((case lookup fs a of
         Some t \<Rightarrow> if \<exists>i < 8. fd_used (fd_table (mk s) ! i) = 0 then vfs_bytes (mmem s) (file_of (kinitrd (mk s)) t)
                   else lit ''cat: open failed''
       | None \<Rightarrow> lit ''cat: open failed'') @ [chr_nl]) (kio (mk s))"
proof -
  let ?st = "kinitrd (mk s)"
  have ix: "indexed (mmem s) ?st fs" using e by (simp add: shell_env_def)
  have p: "p \<noteq> 0" and str: "str_at (mmem s) p a" using t by (auto simp: text_at_def)
  have p0: "mmem s p \<noteq> 0" using str ne by (cases a) auto
  have mem: "t \<in> set fs" if "lookup fs a = Some t" for t using that by (auto simp: lookup_def find_Some_iff)
  have op: "vfs_open (mmem s) ?st p = Some (case lookup fs a of None \<Rightarrow> vfs_closed | Some t \<Rightarrow> file_of ?st t)"
    unfolding file_of_def by (rule vfs_open_spec [OF ix str p]) (use e mem in \<open>auto simp: shell_env_def\<close>)
  have fail: "\<exists>s'. cmd_cat lay p s = Some s' \<and> host_kept s s' \<and> (\<forall>x. x \<notin> span (buf_at lay) 64 \<longrightarrow> mmem s' x = mmem s x)
      \<and> kio (mk s') = print (lit ''cat: open failed'' @ [chr_nl]) (kio (mk s))"
    if "syscall1 SYS_OPEN p s = Some (- 1, s\<lparr>mregs := regs\<rparr>)" for regs
    using that p p0
    by (simp add: cmd_cat_def sayln_say say_def on_io_def host_kept_def env_kept_def same_host_def mmem_def kmem_def)
  show ?thesis
  proof (cases "lookup fs a")
    case None
    then show ?thesis using fail open_fails [OF op] by (auto simp: vfs_closed_def)
  next
    case (Some t)
    have f: "vvalid (file_of ?st t) \<noteq> 0" "vposition (file_of ?st t) = 0" by (simp_all add: file_of_def)
    have dj: "span (buf_at lay) 64 \<inter> span (vdata (file_of ?st t)) (unat (vsize (file_of ?st t))) = {}"
      using e mem [OF Some] unfolding shell_env_def own_def file_of_def by fastforce
    show ?thesis
    proof (cases "\<exists>i < 8. fd_used (fd_table (mk s) ! i) = 0")
      case True
      then show ?thesis
        using cmd_cat_prints [OF p p0 _ _ f True _ dj] op Some e by (auto simp: shell_env_def)
    next
      case False
      then show ?thesis using fail open_fails [OF op] Some by auto
    qed
  qed
qed

lemma cmd_ls_env:
  assumes e: "shell_env lay fs s" and t: "text_at (mmem s) (unat (line_at lay)) (unat (line_at lay) + 127) p a"
  shows "ls_env lay p fs a s"
proof -
  have "span p (length a + 1) \<subseteq> span (line_at lay) 128" using line_span [OF t] e by (simp add: shell_env_def)
  then have "span (name_at lay) 96 \<inter> span p (length a + 1) = {}" using e by (auto simp: shell_env_def)
  then show ?thesis using e t by (auto simp: shell_env_def ls_env_def text_at_def own_def)
qed

text \<open>Every command returns.\<close>

lemma perform_keeps:
  assumes e: "shell_env lay fs s" and t: "text_at (mmem s) (unat (line_at lay)) (unat (line_at lay) + 127) p (argument c)"
  shows "\<exists>s'. perform lay p c s = Some s' \<and> shell_keeps lay s s'"
proof (cases c)
  case (Ls a)
  obtain s' where "cmd_ls lay p s = Some s'" "host_kept s s'" "\<forall>x. x \<notin> span (name_at lay) 96 \<longrightarrow> mmem s' x = mmem s x"
    using cmd_ls_prints [OF cmd_ls_env [OF e t]] by blast
  then show ?thesis using Ls shell_keeps_host [of s s' lay] by (auto simp: own_def)
next
  case (Cat a)
  show ?thesis
  proof (cases "a = []")
    case True
    then have "mmem s p = 0" using t Cat by (simp add: text_at_def)
    then show ?thesis using Cat shell_keeps_out by (simp add: cmd_cat_def sayln_def)
  next
    case False
    obtain s' where "cmd_cat lay p s = Some s'" "host_kept s s'" "\<forall>x. x \<notin> span (buf_at lay) 64 \<longrightarrow> mmem s' x = mmem s x"
      using cmd_cat_env [OF e t] Cat False by auto
    then show ?thesis using Cat shell_keeps_host [of s s' lay] by (auto simp: own_def)
  qed
next
  case (Cd a)
  then show ?thesis using cmd_cd_keeps [OF t] by simp
next
  case Help
  then show ?thesis by (simp add: show_help_def Let_def sayln_def on_io_twice shell_keeps_out)
qed (simp_all add: shell_keeps_refl shell_keeps_out sayln_def)

lemma shell_char_returns:
  assumes e: "shell_env lay fs s" and h: "line_holds lay n s l"
  shows "\<exists>n' s' l'. shell_char lay c n s = Some (n', s') \<and> line_holds lay n' s' l' \<and> shell_keeps lay s s'"
proof (cases "c = chr_nl")
  case False
  then show ?thesis using shell_char_edit [OF h] shell_keeps_host [of s _ lay] by (metis UnI1 own_def)
next
  case True
  let ?s0 = "set_mmem ((mmem s)(line_at lay + n := 0)) s"
  have "n = of_nat (length l)" "length l \<le> 127" using h by (auto simp: line_holds_def)
  then have "line_at lay + n \<in> own lay" unfolding own_def using span_of_nat [of "length l" 128] by simp
  then have k0: "shell_keeps lay s ?s0" by (intro shell_keeps_host)
      (auto simp: host_kept_def env_kept_def same_host_def set_mmem_def set_kmem_def mmem_def kmem_def)
  obtain q where q: "text_at (mmem ?s0) (unat (line_at lay)) (unat (line_at lay) + 127) q (argument (parse_line l))"
    "shell_enter lay n s = map_option (\<lambda>s'. (0, print_prompt s')) (perform lay q (parse_line l) ?s0)"
    using shell_enter_parsed [OF shell_env_layout [OF e] h] by blast
  obtain s' where s': "perform lay q (parse_line l) ?s0 = Some s'" "shell_keeps lay ?s0 s'"
    using perform_keeps [OF shell_env_keeps [OF e k0] q(1)] by blast
  have "shell_keeps lay s (print_prompt s')" using shell_keeps_trans k0 s'(2) shell_keeps_prompt by blast
  moreover have "line_holds lay 0 (print_prompt s') []" by (simp add: line_holds_def bytes_at_def)
  ultimately show ?thesis using True q(2) s'(1) by (auto simp: shell_char_def chr_nl_def)
qed

end
