(* ===== verification/Shell_Props.thy ===== *)
theory Shell_Props
  imports Shell_Inv
begin

text \<open>The properties of the shell, on every run of its loop with interrupts in between.\<close>

section \<open>Passes and interrupts\<close>

lemma handler_wf: "kbd_wf k \<Longrightarrow> kbd_wf (fst (keyboard_handler dev (k, s)))"
proof -
  assume k: "kbd_wf k"
  have "kbd_wf (snd (ps2_scancode_to_ascii c k))" for c
    using k by (simp add: ps2_scancode_to_ascii_def Let_def kbd_wf_def)
  then have "kbd_wf k1" if "ps2_scancode_to_ascii c k = (a, k1)" for c a k1 by (metis that snd_conv)
  then show ?thesis using k typed_push(1) by (auto simp: keyboard_handler_def Let_def split: prod.split)
qed

lemma irq_keeps: "shell_keeps lay s (s\<lparr>mk := irq_handler dev regs (mk s)\<rparr>)"
proof -
  have "kbd_wf (kkbd (mk s)) \<Longrightarrow> kbd_wf k" if "keyboard_handler dev (kkbd (mk s), kio (mk s)) = (k, o1)" for k o1
    using handler_wf [of "kkbd (mk s)" dev "kio (mk s)"] that by simp
  then show ?thesis
    by (auto simp: shell_keeps_def irq_handler_def timer_handler_def Let_def mmem_def kmem_def kbd_wf_def split: prod.split)
qed

lemma shell_iteration_returns:
  assumes e: "shell_env lay fs s" and h: "line_holds lay n s l"
  shows "\<exists>n' s' l'. shell_iteration lay n s = Some (n', s') \<and> line_holds lay n' s' l' \<and> shell_keeps lay s s'"
proof -
  obtain r k where pop: "keyboard_pop_char True (kkbd (mk s)) = (r, k)" by fastforce
  let ?s1 = "s\<lparr>mk := (mk s)\<lparr>kkbd := k\<rparr>\<rparr>"
  have "kbd_wf (kkbd (mk s)) \<Longrightarrow> kbd_wf k" using typed_pop(1) [of "kkbd (mk s)"] pop by simp
  then have k1: "shell_keeps lay s ?s1" by (simp add: shell_keeps_def mmem_def kmem_def)
  have h1: "line_holds lay n ?s1 l" using h by (simp add: line_holds_def mmem_def kmem_def)
  show ?thesis
  proof (cases r)
    case None
    then show ?thesis using pop k1 h1 by (auto simp: shell_iteration_def)
  next
    case (Some c)
    then show ?thesis
      using pop shell_char_returns [OF shell_env_keeps [OF e k1] h1, of c] shell_keeps_trans [OF k1]
      by (auto simp: shell_iteration_def)
  qed
qed

lemma shell_run_invariant:
  assumes "shell_run dev lay (shell_start s0) st" and e: "shell_env lay fs s0"
  shows "\<exists>n s l. st = (n, s) \<and> line_holds lay n s l \<and> shell_keeps lay s0 s"
  using assms(1)
proof (induction "shell_start s0" st rule: shell_run.induct)
  case Start
  have "line_holds lay 0 s []" for s by (simp add: line_holds_def bytes_at_def)
  moreover have "shell_keeps lay s0 (print_prompt (sayln cs s0))" for cs
    using shell_keeps_trans [OF _ shell_keeps_prompt] shell_keeps_out by (auto simp: sayln_def)
  ultimately show ?case by (auto simp: shell_start_def)
next
  case (Pass n s st')
  then obtain l where l: "line_holds lay n s l" "shell_keeps lay s0 s" by auto
  then show ?case
    using shell_iteration_returns [OF shell_env_keeps [OF e l(2)] l(1)] Pass(3) shell_keeps_trans [OF l(2)] by auto
next
  case (Irq n s regs)
  then obtain l where l: "line_holds lay n s l" "shell_keeps lay s0 s" by auto
  let ?s' = "s\<lparr>mk := irq_handler dev regs (mk s)\<rparr>"
  have "mmem ?s' = mmem s" by (auto simp: irq_handler_def Let_def mmem_def kmem_def split: prod.split)
  then have "line_holds lay n ?s' l" using l(1) by (simp add: line_holds_def)
  then show ?case using shell_keeps_trans [OF l(2) irq_keeps] by auto
qed

section \<open>A sample machine\<close>

text \<open>The index of the sample archive, the literals at \<open>0x2000\<close>, the buffers at \<open>0x8000\<close>.\<close>

definition shell_mem :: mem where
  "shell_mem = index_mem(0x2000 := 0x68, 0x2001 := 0x65, 0x2002 := 0x6C, 0x2003 := 0x70,
     0x2010 := 0x63, 0x2011 := 0x6C, 0x2012 := 0x65, 0x2013 := 0x61, 0x2014 := 0x72, 0x2020 := 0x6C, 0x2021 := 0x73,
     0x2028 := 0x63, 0x2029 := 0x61, 0x202A := 0x74, 0x2030 := 0x63, 0x2031 := 0x64, 0x300200 := 7)"

definition lay0 :: layout where
  "lay0 = \<lparr>line_at = 0x8000, name_at = 0x8100, buf_at = 0x8200, help_lit = 0x2000, clear_lit = 0x2010, ls_lit = 0x2020,
     cat_lit = 0x2028, cd_lit = 0x2030, preview_at = 0, msg_lit = 0, buffer_a_at = 0, buffer_b_at = 0, name_buf_at = 0,
     pref_buf_at = 0, demo_name_at = 0, first_any_at = 0, prefix_all_lit = 0, prefix_bin_lit = 0, prefix_etc_lit = 0, init_lit = 0,
     kernel_start_at = 0x100000, kernel_end_at = 0x110000, gdt_at = 0, idt_at = 0, page_directory_at = 0,
     page_tables_at = 0, isr_at = (\<lambda>_. 0), irq_at = (\<lambda>_. 0)\<rparr>"

definition shell_kernel :: kernel where
  "shell_kernel = \<lparr>kheap = \<lparr>hmem = shell_mem, hpmm = pmm_sample, heap_head = 0\<rparr>, kinitrd = index_sample, kio = io_sample,
     kkbd = kbd_boot, fd_table = fd_boot\<rparr>"

definition regs0 :: registers where
  "regs0 = \<lparr>gs_reg = 0, fs_reg = 0, es_reg = 0, ds_reg = 0, edi = 0, esi = 0, ebp = 0, esp = 0, ebx = 0, edx = 0, ecx = 0,
     eax = 0, int_no = 0, err_code = 0, eip = 0, cs_reg = 0, eflags = 0, useresp = 0, ss_reg = 0\<rparr>"

definition shell_machine :: machine where
  "shell_machine = \<lparr>mk = shell_kernel, mregs = regs0,
     mgdt = gdt_init 0 \<lparr>gdt_table = (\<lambda>_. \<lparr>limit_low = 0, base_low = 0, base_mid = 0, access = 0, granularity = 0, base_high = 0\<rparr>),
       gdt_ptr = (0, 0), gdtr = (0, 0)\<rparr>,
     midt = \<lparr>idt_table = (\<lambda>_. null_gate), idt_ptr = (0, 0), idtr = (0, 0)\<rparr>, mpaging = paging_boot,
     mcpu = \<lparr>cr0 = 1, cr3 = 0\<rparr>, interrupts_enabled = True, current_drive = 65, prompt_len = 0\<rparr>"

lemma span_apart: "unat a + n \<le> unat b \<Longrightarrow> unat b + k \<le> 4294967296 \<Longrightarrow> span a n \<inter> span b k = {} \<and> span b k \<inter> span a n = {}"
proof -
  assume ab: "unat a + n \<le> unat b" "unat b + k \<le> 4294967296"
  have "\<not> (x \<in> span a n \<and> x \<in> span b k)" for x
    using span_nowrap [of a n x] span_nowrap [of b k x] ab unat_less_2p32 [of b] by linarith
  then show ?thesis by blast
qed

lemma shell_sample_env: "shell_env lay0 [member_sample] shell_machine"
proof -
  have m: "mmem shell_machine = shell_mem" "kinitrd (mk shell_machine) = index_sample"
    by (simp_all add: mmem_def kmem_def shell_machine_def shell_kernel_def)
  have apart: "span 0x8100 96 \<inter> span 0x8000 128 = {}" "span 0x8200 64 \<inter> span 0x8000 128 = {}"
    using span_apart [of "0x8000" 128 "0x8100" 96] span_apart [of "0x8000" 128 "0x8200" 64] by auto
  have low: "span p n \<inter> own lay0 = {}" if "unat p + n \<le> 0x8000" for p n
    using that span_apart [of p n "0x8000" 128] span_apart [of p n "0x8100" 96] span_apart [of p n "0x8200" 64]
    by (auto simp: own_def lay0_def)
  have high: "span 0x300200 1 \<inter> own lay0 = {}"
    using span_apart [of "0x8000" 128 "0x300200" 1] span_apart [of "0x8100" 96 "0x300200" 1] span_apart [of "0x8200" 64 "0x300200" 1]
    by (auto simp: own_def lay0_def)
  have lits: "\<forall>(p, cs) \<in> set (shell_lits lay0). p \<noteq> 0 \<and> str_at shell_mem p cs \<and> span p (length cs + 1) \<inter> own lay0 = {}"
    using low by (simp add: shell_lits_def lay0_def lit_def) (simp add: shell_mem_def index_mem_def)
  have ix: "indexed shell_mem index_sample [member_sample]"
  proof (rule indexed_cong [OF indexed_sample])
    fix i x
    assume "i < length [member_sample]" "x \<in> span (file_entry (initrd_files index_sample) (of_nat i)) 108"
    then have "0x5000 \<le> unat x \<and> unat x < 0x506C"
      using span_nowrap [of "0x5000" 108 x] by (auto simp: index_sample_def file_entry_def)
    then show "shell_mem x = index_mem x" by (auto simp: shell_mem_def)
  qed
  have ent: "span (file_entry (initrd_files index_sample) 0) 108 \<inter> own lay0 = {}"
    using low by (simp add: index_sample_def file_entry_def)
  have fds: "fds_ok (mk shell_machine)"
    using kernel_sample_fds(1) fds_ok_cong [of "mk shell_machine" kernel_sample]
    by (simp add: shell_machine_def shell_kernel_def kernel_sample_def)
  have "kbd_wf (kkbd (mk shell_machine))" by (simp add: shell_machine_def shell_kernel_def kbd_wf_def kbd_boot_def)
  then show ?thesis
    using apart lits ix ent high fds unfolding shell_env_def m
    by (simp add: lay0_def index_sample_def member_sample_def) (simp add: shell_machine_def)
qed

section \<open>Properties\<close>

text \<open>
  C3. Start the shell with its literals, the index and the files in memory outside
  its three buffers. Whatever is typed, and however timer, keyboard and other interrupts fall between
  the passes of its loop: the line never exceeds 127 characters and holds printable characters only,
  no byte outside the buffers is ever written, the descriptor table is back to what it was, the drive
  is a capital letter, and the next pass returns.
\<close>

theorem shell_always_runs:
  assumes "shell_env lay fs s0" and "shell_run dev lay (shell_start s0) (n, s)"
  shows "unat n \<le> 127 \<and> (\<forall>i < n. printable (mmem s (line_at lay + i)))
    \<and> (\<forall>x. x \<notin> own lay \<longrightarrow> mmem s x = mmem s0 x) \<and> fd_table (mk s) = fd_table (mk s0)
    \<and> 65 \<le> unat (current_drive s) \<and> unat (current_drive s) \<le> 90
    \<and> (\<exists>n' s'. shell_iteration lay n s = Some (n', s'))"
proof -
  obtain l where h: "line_holds lay n s l" and k: "shell_keeps lay s0 s"
    using shell_run_invariant [OF assms(2,1)] by auto
  have n: "unat n = length l" "length l \<le> 127" using h by (auto simp: line_holds_def unat_of_nat)
  have "printable (mmem s (line_at lay + i))" if "i < n" for i
  proof -
    have i: "unat i < length l" using that n(1) by (simp add: word_less_nat_alt)
    then have "l ! unat i = mmem s (line_at lay + of_nat (unat i))"
      using h unfolding line_holds_def bytes_at_def by (metis nth_map_upt add_0 diff_zero)
    moreover have "printable (l ! unat i)" using h i nth_mem [of "unat i" l] unfolding line_holds_def by blast
    ultimately show ?thesis by simp
  qed
  moreover have "\<exists>n' s'. shell_iteration lay n s = Some (n', s')"
    using shell_iteration_returns [OF shell_env_keeps [OF assms(1) k] h] by blast
  moreover have "65 \<le> unat (current_drive s0) \<and> unat (current_drive s0) \<le> 90" using assms(1) by (simp add: shell_env_def)
  ultimately show ?thesis using n k by (simp add: shell_keeps_def)
qed

theorem shell_always_runs_witness:
  "shell_env lay0 [member_sample] shell_machine
   \<and> shell_run (\<lambda>_ _. 0) lay0 (shell_start shell_machine) (shell_start shell_machine)
   \<and> (\<exists>n' s'. shell_iteration lay0 0 (snd (shell_start shell_machine)) = Some (n', s'))"
proof -
  have "fst (shell_start shell_machine) = 0" by (simp add: shell_start_def)
  then have "shell_start shell_machine = (0, snd (shell_start shell_machine))" by (metis prod.collapse)
  then have "shell_run (\<lambda>_ _. 0) lay0 (shell_start shell_machine) (0, snd (shell_start shell_machine))"
    by (metis shell_run.Start)
  from shell_always_runs [OF shell_sample_env this] shell_sample_env show ?thesis by (simp add: shell_run.Start)
qed

text \<open>
  C20. Typing at an empty line, without Enter, is editing a string: a printable
  character is appended while there are fewer than 127, a backspace removes the last one, every other
  key is ignored. The buffer and its length hold exactly that string, the console shows each key that
  changed it and no other, so the prompt is never erased, and nothing else changes.
\<close>

theorem shell_line_editor:
  assumes "chr_nl \<notin> set cs"
  shows "\<exists>n s'. shell_chars lay cs 0 s = Some (n, s') \<and> unat n = length (foldl edit [] cs) \<and> unat n \<le> 127
    \<and> bytes_at (mmem s') (line_at lay) (unat n) = foldl edit [] cs
    \<and> kio (mk s') = print (echoed [] cs) (kio (mk s)) \<and> host_kept s s'
    \<and> (\<forall>x. x \<notin> span (line_at lay) 128 \<longrightarrow> mmem s' x = mmem s x)"
proof -
  have "line_holds lay 0 s []" by (simp add: line_holds_def bytes_at_def)
  from shell_chars_edit [OF this assms] show ?thesis by (auto simp: line_holds_def unat_of_nat)
qed

theorem shell_line_editor_witness:
  "\<exists>n s'. shell_chars lay0 [0x6C, 0x7A, 8, 0x73, 0x1B, 0x0D] 0 shell_machine = Some (n, s') \<and> unat n = 2
     \<and> bytes_at (mmem s') 0x8000 2 = [0x6C, 0x73]
     \<and> kio (mk s') = print [0x6C, 0x7A, 8, 0x73] (kio (mk shell_machine))"
proof -
  let ?keys = "[0x6C, 0x7A, 8, 0x73, 0x1B, 0x0D] :: cstr"
  have keys: "foldl edit [] ?keys = [0x6C, 0x73]" "echoed [] ?keys = [0x6C, 0x7A, 8, 0x73]"
    by (simp_all add: edit_def printable_def chr_bs_def)
  have "chr_nl \<notin> set ?keys" by (simp add: chr_nl_def)
  from shell_line_editor [OF this, of lay0 shell_machine] obtain n s' where
    r: "shell_chars lay0 ?keys 0 shell_machine = Some (n, s')" "unat n = length (foldl edit [] ?keys)"
    "bytes_at (mmem s') (line_at lay0) (unat n) = foldl edit [] ?keys"
    "kio (mk s') = print (echoed [] ?keys) (kio (mk shell_machine))" by blast
  have n: "unat n = 2" using r(2) unfolding keys by simp
  have "bytes_at (mmem s') 0x8000 2 = [0x6C, 0x73]" using r(3) unfolding n keys by (simp add: lay0_def)
  then show ?thesis using r(1,4) n unfolding keys by blast
qed

text \<open>
  C9. Enter runs exactly the command the line parses to, once, on the state as
  it was but for the terminator of the line, passes it the address of its argument within the line,
  then prints the prompt and empties the line. Leading blanks are skipped; \<open>help\<close> and \<open>clear\<close> must be
  the whole line; \<open>ls\<close>, \<open>cat\<close> and \<open>cd\<close> must be followed by a blank, or, but for \<open>cat\<close>, by nothing.
\<close>

theorem shell_enter_runs_line:
  assumes "shell_layout lay (mmem s)" and "line_holds lay n s l"
  shows "\<exists>q. str_at ((mmem s)(line_at lay + n := 0)) q (argument (parse_line l))
    \<and> unat (line_at lay) \<le> unat q \<and> unat q \<le> unat (line_at lay) + 127
    \<and> shell_enter lay n s = map_option (\<lambda>s'. (0, print_prompt s'))
        (perform lay q (parse_line l) (set_mmem ((mmem s)(line_at lay + n := 0)) s))"
  using shell_enter_parsed [OF assms] by (auto simp: text_at_def)

theorem shell_enter_runs_line_witness:
  "shell_layout lay0 (mmem shell_machine) \<and> line_holds lay0 0 shell_machine []
   \<and> shell_enter lay0 0 shell_machine = Some (0, print_prompt (set_mmem (shell_mem(0x8000 := 0)) shell_machine))"
proof -
  have h: "line_holds lay0 0 shell_machine []" by (simp add: line_holds_def bytes_at_def)
  have m: "mmem shell_machine = shell_mem" by (simp add: mmem_def kmem_def shell_machine_def shell_kernel_def)
  have "parse_line [] = Nothing" by (simp add: parse_line_def)
  then show ?thesis
    using shell_enter_runs_line [OF shell_env_layout [OF shell_sample_env] h] shell_env_layout [OF shell_sample_env] h m
    by (auto simp: lay0_def)
qed

text \<open>
  C8. \<open>cat\<close> of a name in the index ends and prints every byte of the first file of that
  name, in order, in pieces of 64, then a newline; the descriptor it takes is free again and nothing
  changes but its buffer and the console. For an unknown name, or when all eight descriptors are in
  use, it reports that the file cannot be opened.
\<close>

theorem cat_prints_file:
  assumes "shell_env lay fs s" and "str_at (mmem s) p a" and "a \<noteq> []" and "0 < unat p" and "unat p + length a < 4294967296"
  shows "\<exists>s'. cmd_cat lay p s = Some s' \<and> host_kept s s' \<and> (\<forall>x. x \<notin> span (buf_at lay) 64 \<longrightarrow> mmem s' x = mmem s x)
    \<and> kio (mk s') = print ((case lookup fs a of
         Some t \<Rightarrow> if \<exists>i < 8. fd_used (fd_table (mk s) ! i) = 0
           then bytes_at (mmem s) (initrd_base (kinitrd (mk s)) + of_nat (toff t)) (unat (of_nat (tsize t) :: u32))
           else lit ''cat: open failed''
       | None \<Rightarrow> lit ''cat: open failed'') @ [chr_nl]) (kio (mk s))"
proof -
  have "text_at (mmem s) (unat p) (unat p + length a) p a" using assms by (simp add: text_at_def)
  from cmd_cat_env [OF assms(1) this assms(3)] show ?thesis by (simp only: vfs_bytes_def file_of_def vfs_file.select_convs)
qed

theorem cat_prints_file_witness:
  "shell_env lay0 [member_sample] shell_machine
   \<and> (\<exists>s'. cmd_cat lay0 0x6000 shell_machine = Some s' \<and> kio (mk s') = print [7, chr_nl] (kio (mk shell_machine)))"
proof -
  have m: "mmem shell_machine = shell_mem" "kinitrd (mk shell_machine) = index_sample" "fd_table (mk shell_machine) = fd_boot"
    by (simp_all add: mmem_def kmem_def shell_machine_def shell_kernel_def)
  have name: "str_at shell_mem 0x6000 [0x61]" by (simp add: shell_mem_def index_mem_def)
  have lk: "lookup [member_sample] [0x61] = Some member_sample" by (simp add: lookup_def fname_def member_sample_def)
  have free: "\<exists>i < 8. fd_used (fd_boot ! i) = 0" by (intro exI [of _ 0]) (simp add: fd_boot_def)
  have "bytes_at shell_mem 0x300200 1 = [7]" by (simp add: bytes_at_def shell_mem_def)
  then show ?thesis
    using cat_prints_file [OF shell_sample_env, of "0x6000" "[0x61]"] name lk free shell_sample_env
    by (auto simp: m index_sample_def member_sample_def)
qed

text \<open>
  C15. \<open>ls\<close> prints the number of files whose names begin with its argument, then the
  first 32 of them in the order of the archive, each with its name and size, and the number of the
  remaining ones; only its name buffer and the console change. A name longer than 95 characters is
  cut, and its size is the one found under the cut name, \<open>4294967295\<close> when there is none.
\<close>

theorem ls_lists_prefix:
  assumes "ls_env lay pre fs ps s"
  shows "\<exists>s'. cmd_ls lay pre s = Some s' \<and> kio (mk s') = print (ls_text fs ps) (kio (mk s)) \<and> host_kept s s'
    \<and> (\<forall>x. x \<notin> span (name_at lay) 96 \<longrightarrow> mmem s' x = mmem s x)"
  using cmd_ls_prints [OF assms] .

theorem ls_lists_prefix_witness:
  "ls_env lay0 0x6000 [member_sample] [0x61] shell_machine
   \<and> (\<exists>s'. cmd_ls lay0 0x6000 shell_machine = Some s'
        \<and> kio (mk s') = print (lit ''ls count=1'' @ [chr_nl] @ lit '' - a (1)'' @ [chr_nl]) (kio (mk shell_machine)))"
proof -
  have m: "mmem shell_machine = shell_mem" "kinitrd (mk shell_machine) = index_sample"
    by (simp_all add: mmem_def kmem_def shell_machine_def shell_kernel_def)
  have "str_at shell_mem 0x6000 [0x61]" by (simp add: shell_mem_def index_mem_def)
  moreover have "span 0x8100 96 \<inter> span 0x6000 (length [0x61 :: u8] + 1) = {}"
    using span_apart [of "0x6000" "length [0x61 :: u8] + 1" "0x8100" 96] by auto
  ultimately have e: "ls_env lay0 0x6000 [member_sample] [0x61] shell_machine"
    using shell_sample_env unfolding shell_env_def ls_env_def m own_def by (auto simp: lay0_def)
  have "listing [member_sample] [0x61] = [member_sample]" by (simp add: listing_def fname_def member_sample_def)
  moreover have "shown_name member_sample = [0x61]" by (simp add: shown_name_def fname_def member_sample_def)
  then have "ls_line [member_sample] member_sample = lit '' - a (1)'' @ [chr_nl]"
    by (simp add: ls_line_def shown_size_def lookup_def fname_def) (simp add: member_sample_def decimal.simps lit_def)
  ultimately have "ls_text [member_sample] [0x61] = lit ''ls count=1'' @ [chr_nl] @ lit '' - a (1)'' @ [chr_nl]"
    by (simp add: ls_text_def) (simp add: decimal.simps lit_def)
  then show ?thesis using ls_lists_prefix [OF e] e by auto
qed

end
