(* ===== verification/Kmain.thy ===== *)
theory Kmain
  imports Shell
begin

text \<open>
  The boot sequence of \<open>kernel/kmain.c\<close>: the diagnostics it runs and \<open>kernel_main\<close>, from the jump of the
  boot code to the loop of the shell.
\<close>

section \<open>Configuration\<close>

text \<open>
  The three compile-time flags. An ELF entry point is code outside the kernel: \<open>call\<close> is what it does to
  the machine, if it returns.
\<close>

record config =
  elf_execute_on_boot :: bool
  paging_enable_on_boot :: bool
  elf_vaddr_load_on_boot :: bool

section \<open>The banner\<close>

definition hello_world :: "machine \<Rightarrow> machine" where
  "hello_world s =
     (let s = sayln (lit ''  ,---.  ,------.  ,-----.,--------.,--. ,-----.                   '') s;
          s = sayln (lit '' /  O  '' @ [0x5C] @ lit '' |  .--. '' @ [0x27, 0x27] @ lit ''  .--./'' @ [0x27]
              @ lit ''--.  .--'' @ [0x27] @ lit ''|  |'' @ [0x27] @ lit ''  .--./     ,---.  ,---.  '') s;
          s = sayln (lit ''|  .-.  ||  '' @ [0x27] @ lit ''--'' @ [0x27] @ lit ''.'' @ [0x27]
              @ lit ''|  |       |  |   |  ||  |        | .-. |(  .-'' @ [0x27] @ lit ''  '') s;
          s = sayln (lit ''|  | |  ||  |'' @ [0x5C] @ lit ''  '' @ [0x5C] @ lit '' '' @ [0x27] @ lit ''  '' @ [0x27]
              @ lit ''--'' @ [0x27, 0x5C] @ lit ''   |  |   |  |'' @ [0x27] @ lit ''  '' @ [0x27] @ lit ''--''
              @ [0x27, 0x5C] @ lit ''    '' @ [0x27] @ lit '' '' @ [0x27] @ lit ''-'' @ [0x27] @ lit '' ''
              @ [0x27] @ lit ''.-'' @ [0x27] @ lit ''  '' @ [0x60] @ lit '') '') s
      in sayln ([0x60] @ lit ''--'' @ [0x27] @ lit '' '' @ [0x60] @ lit ''--'' @ [0x27, 0x60] @ lit ''--''
              @ [0x27] @ lit '' '' @ [0x27] @ lit ''--'' @ [0x27] @ lit '' '' @ [0x60] @ lit ''-----'' @ [0x27]
              @ lit ''   '' @ [0x60] @ lit ''--'' @ [0x27] @ lit ''   '' @ [0x60] @ lit ''--'' @ [0x27]
              @ lit '' '' @ [0x60] @ lit ''-----'' @ [0x27] @ lit ''     '' @ [0x60] @ lit ''---'' @ [0x27]
              @ lit '' '' @ [0x60] @ lit ''----'' @ [0x27] @ lit ''  '') s)"

section \<open>Diagnostics\<close>

text \<open>Calls of the frame and heap allocators from \<open>kmain.c\<close>.\<close>

definition on_pmm :: "(pmm \<Rightarrow> 'a \<times> pmm) \<Rightarrow> machine \<Rightarrow> 'a \<times> machine" where
  "on_pmm f s = (case f (hpmm (kheap (mk s))) of (r, p) \<Rightarrow> (r, s\<lparr>mk := (mk s)\<lparr>kheap := (kheap (mk s))\<lparr>hpmm := p\<rparr>\<rparr>\<rparr>))"

definition on_heap :: "(heap \<Rightarrow> ('a \<times> heap) option) \<Rightarrow> machine \<Rightarrow> ('a \<times> machine) option" where
  "on_heap f s = do { (r, h) \<leftarrow> f (kheap (mk s)); Some (r, s\<lparr>mk := (mk s)\<lparr>kheap := h\<rparr>\<rparr>) }"

definition free_frames :: "machine \<Rightarrow> u32" where "free_frames s = pmm_get_free_frames (hpmm (kheap (mk s)))"

definition release :: "u32 \<Rightarrow> machine \<Rightarrow> machine option" where
  "release p s = do { h \<leftarrow> kfree p (kheap (mk s)); Some (s\<lparr>mk := (mk s)\<lparr>kheap := h\<rparr>\<rparr>) }"

definition frame_test :: "machine \<Rightarrow> machine" where
  "frame_test s =
     (let before = free_frames s;
          (frame, s) = on_pmm pmm_alloc_frame s;
          after_alloc = free_frames s;
          s = say (lit ''PMM test: '') s
      in if frame = 0 \<or> after_alloc + 1 \<noteq> before then sayln (lit ''FAIL'') s
         else
           let (_, s) = on_pmm (\<lambda>p. ((), pmm_free_frame frame p)) s
           in if free_frames s \<noteq> before then sayln (lit ''FAIL'') s else sayln (lit ''OK'') s)"

definition heap_test :: "machine \<Rightarrow> machine option" where
  "heap_test s =
     do {
       (a, s) \<leftarrow> on_heap (kmalloc 64) s;
       (b, s) \<leftarrow> on_heap (kmalloc 128) s;
       if a = 0 \<or> b = 0 then Some (sayln (lit ''HEAP test: FAIL'') s)
       else do {
         s \<leftarrow> release a s;
         (c, s) \<leftarrow> on_heap (kmalloc 32) s;
         let s = say (lit ''HEAP test: '') s;
         let s = (if c = 0 then sayln (lit ''FAIL'') s else sayln (lit ''OK'') s);
         s \<leftarrow> release b s;
         release c s
       }
     }"

definition run_memory_smoke_tests :: "machine \<Rightarrow> machine option" where
  "run_memory_smoke_tests s = heap_test (frame_test s)"

text \<open>A byte, or a dot where it is not printable; \<open>char\<close> is signed.\<close>

definition shown_char :: "u8 \<Rightarrow> u8" where
  "shown_char c = (if sint c \<ge> 32 \<and> sint c \<le> 126 then c else 0x2E)"

definition show_bytes :: "u32 \<Rightarrow> u32 \<Rightarrow> machine \<Rightarrow> machine" where
  "show_bytes buffer n s = for_u32 0 n (\<lambda>i s. putc (shown_char (mmem s (buffer + i))) s) s"

definition run_vfs_smoke_test :: "layout \<Rightarrow> machine \<Rightarrow> machine option" where
  "run_vfs_smoke_test lay s =
     (let st = kinitrd (mk s); file_count = initrd_file_count st
      in if initrd_is_ready st = 0 \<or> file_count = 0 then Some (sayln (lit ''VFS test: SKIP'') s)
         else
           let name = initrd_get_file_name st 0
           in if name = 0 then Some (sayln (lit ''VFS test: FAIL'') s)
              else do {
                file \<leftarrow> vfs_open (mmem s) st name;
                if vvalid file = 0 then Some (sayln (lit ''VFS test: FAIL'') s)
                else
                  case vfs_read (Some file) (preview_at lay) 32 (mmem s) of (bytes_read, f, m) \<Rightarrow>
                    do {
                      let s = set_mmem m s;
                      let s = say (lit ''VFS test: OK '') s;
                      s \<leftarrow> print_ptr name s;
                      let s = say (lit '' ['') s;
                      let s = print_uint_kmain bytes_read s;
                      let s = say (lit ''] '') s;
                      Some (putc chr_nl (show_bytes (preview_at lay) bytes_read s))
                    }
              })"

text \<open>The comparison loop of the system call test: the first index where the buffers differ.\<close>

definition buffers_match :: "mem \<Rightarrow> u32 \<Rightarrow> u32 \<Rightarrow> u32 \<Rightarrow> u32 \<Rightarrow> bool option" where
  "buffers_match m a b read_a read_b =
     do {
       r \<leftarrow> search_u32 0 (if read_a < read_b then read_a else read_b) (\<lambda>i. Some (m (a + i) \<noteq> m (b + i)));
       Some (read_a = read_b \<and> r = None)
     }"

definition field :: "string \<Rightarrow> u32 \<Rightarrow> machine \<Rightarrow> machine" where
  "field label v s = print_uint_kmain v (say (lit label) s)"

definition SYS_SEEK_SET :: u32 where "SYS_SEEK_SET = 0"

definition run_syscall_smoke_test :: "layout \<Rightarrow> machine \<Rightarrow> machine option" where
  "run_syscall_smoke_test lay s =
     do {
       (written, s) \<leftarrow> syscall3 SYS_WRITE 1 (msg_lit lay) 25 s;
       let s = putc chr_nl (field ''sys_write ret='' written s);
       let st = kinitrd (mk s);
       if initrd_is_ready st \<noteq> 0 \<and> initrd_file_count st > 0 then
         let name = initrd_get_file_name st 0
         in if name = 0 then Some s
            else do {
              (fd, s) \<leftarrow> syscall1 SYS_OPEN name s;
              (read_a, s) \<leftarrow> syscall3 SYS_READ fd (buffer_a_at lay) 8 s;
              (seek_ret, s) \<leftarrow> syscall3 SYS_SEEK fd 0 SYS_SEEK_SET s;
              (read_b, s) \<leftarrow> syscall3 SYS_READ fd (buffer_b_at lay) 8 s;
              (close_ret, s) \<leftarrow> syscall1 SYS_CLOSE fd s;
              (files_total, s) \<leftarrow> syscall0 SYS_FILE_COUNT s;
              (name_len, s) \<leftarrow> syscall3 SYS_FILE_NAME 0 (name_buf_at lay) 64 s;
              (file_size, s) \<leftarrow> syscall1 SYS_FILE_SIZE 0 s;
              (file_size_by_name, s) \<leftarrow> syscall1 SYS_FILE_SIZE_BY_NAME name s;
              (files_pref, s) \<leftarrow> syscall1 SYS_FILE_COUNT_PREFIX (prefix_all_lit lay) s;
              (pref_name_len, s) \<leftarrow> syscall4 SYS_FILE_NAME_PREFIX (prefix_all_lit lay) 0 (pref_buf_at lay) 64 s;
              same \<leftarrow> buffers_match (mmem s) (buffer_a_at lay) (buffer_b_at lay) read_a read_b;
              let s = field ''sys_open fd='' fd s;
              let s = field '' sys_read_a='' read_a s;
              let s = field '' sys_seek='' seek_ret s;
              let s = field '' sys_read_b='' read_b s;
              let s = field '' sys_close='' close_ret s;
              let s = field '' seek_match='' (if same then 1 else 0) s;
              let s = field '' files='' files_total s;
              let s = field '' first_name_len='' name_len s;
              let s = field '' first_size='' file_size s;
              let s = field '' first_size_by_name='' file_size_by_name s;
              let s = field '' pref_count='' files_pref s;
              let s = field '' pref_name_len='' pref_name_len s;
              let s = say (lit '' '') s;
              Some (putc chr_nl (show_bytes (buffer_a_at lay) (if read_a < 8 then read_a else 8) s))
            }
       else Some s
     }"

text \<open>The body of the loop of \<open>run_fs_listing_demo\<close>.\<close>

definition demo_item :: "layout \<Rightarrow> u32 \<Rightarrow> machine \<Rightarrow> machine option" where
  "demo_item lay i s =
     do {
       (name_len, s) \<leftarrow> syscall3 SYS_FILE_NAME i (demo_name_at lay) 64 s;
       (file_size, s) \<leftarrow> syscall1 SYS_FILE_SIZE i s;
       let s = say (lit '': '') (field '' - '' i s);
       s \<leftarrow> (if name_len = - 1 then Some (say (lit ''<invalid>'') s) else print_ptr (demo_name_at lay) s);
       let s = field '' ('' file_size s;
       let s = say (lit '')'') s;
       Some (putc chr_nl s)
     }"

definition run_fs_listing_demo :: "layout \<Rightarrow> machine \<Rightarrow> machine option" where
  "run_fs_listing_demo lay s =
     (if initrd_is_ready (kinitrd (mk s)) = 0 then Some (sayln (lit ''LS demo: SKIP'') s)
      else do {
        (total, s) \<leftarrow> syscall0 SYS_FILE_COUNT s;
        let max_items = (if total < 6 then total else 6);
        let s = putc chr_nl (field '' showing='' max_items (field ''LS demo total='' total s));
        s \<leftarrow> each_u32 max_items (demo_item lay) s;
        (bin_count, s) \<leftarrow> syscall1 SYS_FILE_COUNT_PREFIX (prefix_bin_lit lay) s;
        (etc_count, s) \<leftarrow> syscall1 SYS_FILE_COUNT_PREFIX (prefix_etc_lit lay) s;
        let s = putc chr_nl (field '' etc/='' etc_count (field ''LS demo prefix bin/='' bin_count s));
        if total > 0 then do {
          (any_len, s) \<leftarrow> syscall4 SYS_FILE_NAME_PREFIX (prefix_all_lit lay) 0 (first_any_at lay) 64 s;
          let s = say (lit ''LS demo first(any)='') s;
          s \<leftarrow> (if any_len = - 1 then Some (say (lit ''<invalid>'') s) else print_ptr (first_any_at lay) s);
          Some (putc chr_nl s)
        }
        else Some s
      })"

text \<open>
  The part of \<open>run_elf_smoke_test\<close> that follows a successful load, after the name has been printed; the
  code has it twice. All out-parameters of a successful load are stored.
\<close>

definition stored :: "u32 option \<Rightarrow> u32" where "stored v = (case v of None \<Rightarrow> 0 | Some x \<Rightarrow> x)"

definition report_load ::
    "config \<Rightarrow> (u32 \<Rightarrow> machine \<Rightarrow> machine option) \<Rightarrow> u32 \<Rightarrow> u32 option \<Rightarrow> u32 option \<Rightarrow> u32 option \<Rightarrow> u32 option
      \<Rightarrow> machine \<Rightarrow> machine option" where
  "report_load cfg call path entry entry_loaded segments loaded_bytes s =
     do {
       let s = field '' entry='' (stored entry) s;
       let s = field '' loaded='' (stored entry_loaded) s;
       let s = field '' seg='' (stored segments) s;
       let s = field '' bytes='' (stored loaded_bytes) s;
       let s = putc chr_nl s;
       s \<leftarrow> (if elf_execute_on_boot cfg then do {
               (r, s) \<leftarrow> elf_try_execute_loaded_entry call (stored entry_loaded) s;
               Some (if r \<noteq> 0 then sayln (lit ''ELF exec: OK'') s else sayln (lit ''ELF exec: FAIL'') s)
             }
             else Some (sayln (lit ''ELF exec: disabled'') s));
       if elf_vaddr_load_on_boot cfg then do {
         ((r, v, n, b), m) \<leftarrow> elf_load_virtual_identity_from_vfs (mpaging s) (kinitrd (mk s)) path True True True (mmem s);
         let s = set_mmem m s;
         Some (if r \<noteq> 0
               then putc chr_nl (field '' bytes='' (stored b) (field '' seg='' (stored n)
                      (field ''ELF vaddr: OK entry='' (stored v) s)))
               else sayln (lit ''ELF vaddr: FAIL'') s)
       }
       else Some (sayln (lit ''ELF vaddr: disabled'') s)
     }"

definition load_image :: "u32 \<Rightarrow> machine
    \<Rightarrow> ((u8 \<times> u32 option \<times> u32 option \<times> u32 option \<times> u32 option) \<times> machine) option" where
  "load_image path s = on_heap (elf_load_image_from_vfs (kinitrd (mk s)) path True True True True) s"

text \<open>The body of the loop over the files: \<open>Inl\<close> is the return after a successful load.\<close>

definition try_file :: "config \<Rightarrow> (u32 \<Rightarrow> machine \<Rightarrow> machine option) \<Rightarrow> u32 \<Rightarrow> machine \<Rightarrow> (machine + machine) option" where
  "try_file cfg call i s =
     (let name = initrd_get_file_name (kinitrd (mk s)) i
      in if name = 0 then Some (Inr s)
         else do {
           ((r, e, l, n, b), s) \<leftarrow> load_image name s;
           if r \<noteq> 0 then do {
             s \<leftarrow> print_ptr name (say (lit ''ELF test: LOAD '') s);
             s \<leftarrow> report_load cfg call name e l n b s;
             Some (Inl s)
           }
           else Some (Inr s)
         })"

definition run_elf_smoke_test ::
    "config \<Rightarrow> (u32 \<Rightarrow> machine \<Rightarrow> machine option) \<Rightarrow> layout \<Rightarrow> machine \<Rightarrow> machine option" where
  "run_elf_smoke_test cfg call lay s =
     (let st = kinitrd (mk s); file_count = initrd_file_count st
      in if initrd_is_ready st = 0 \<or> file_count = 0 then Some (sayln (lit ''ELF test: SKIP'') s)
         else do {
           ((r, e, l, n, b), s) \<leftarrow> load_image (init_lit lay) s;
           if r \<noteq> 0 then report_load cfg call (init_lit lay) e l n b (say (lit ''ELF test: LOAD init'') s)
           else do {
             res \<leftarrow> loop_u32 0 file_count (try_file cfg call) s;
             case res of Inl s \<Rightarrow> Some s | Inr s \<Rightarrow> Some (sayln (lit ''ELF test: SKIP'') s)
           }
         })"

section \<open>Boot\<close>

definition enable_interrupts :: "machine \<Rightarrow> machine" where
  "enable_interrupts s = s\<lparr>interrupts_enabled := True\<rparr>"

text \<open>
  The first part: processor, frames, heap, page tables. \<open>paging_enable\<close> sets the control registers; memory stays
  the flat map \<open>mem\<close> afterwards, which is what the identity tables give below the identity limit. The page faults that
  accesses above the limit would take in a build with \<open>PAGING_ENABLE_ON_BOOT\<close> are not modelled.
\<close>

definition boot_core :: "config \<Rightarrow> layout \<Rightarrow> u32 \<Rightarrow> machine \<Rightarrow> machine option" where
  "boot_core cfg lay multiboot_info s =
     do {
       let s = hello_world (on_io clear s);
       let s = say (lit ''GDT: '') s;
       let s = sayln (lit ''OK'') (s\<lparr>mgdt := gdt_init (gdt_at lay) (mgdt s)\<rparr>);
       let s = say (lit ''IDT: '') s;
       let s = sayln (lit ''OK'') (s\<lparr>midt := idt_init (isr_at lay) (irq_at lay) (idt_at lay) (midt s)\<rparr>);
       let s = say (lit ''PIC: '') s;
       let s = sayln (lit ''OK'') (on_io pic_init s);
       let s = say (lit ''PIT: '') s;
       o1 \<leftarrow> pit_init (kio (mk s));
       let s = sayln (lit ''OK'') (s\<lparr>mk := (mk s)\<lparr>kio := o1\<rparr>\<rparr>);
       let s = say (lit ''PMM: '') s;
       p \<leftarrow> pmm_init (mmem s) multiboot_info (kernel_start_at lay) (kernel_end_at lay) (hpmm (kheap (mk s)));
       let s = sayln (lit ''OK'') (s\<lparr>mk := (mk s)\<lparr>kheap := (kheap (mk s))\<lparr>hpmm := p\<rparr>\<rparr>\<rparr>);
       let s = field ''PMM free frames: '' (free_frames s) s;
       let s = putc chr_nl (field ''/'' (pmm_get_total_frames (hpmm (kheap (mk s)))) s);
       let s = say (lit ''HEAP: '') s;
       let s = sayln (lit ''OK'') (s\<lparr>mk := (mk s)\<lparr>kheap := heap_init (kheap (mk s))\<rparr>\<rparr>);
       let s = say (lit ''PAGING: '') s;
       let s = s\<lparr>mpaging := paging_prepare_identity (page_tables_at lay) (16 * 1024 * 1024) (mpaging s)\<rparr>;
       let s = (if paging_is_prepared (mpaging s) \<noteq> 0
                then putc chr_nl (field '' dir='' (paging_get_directory_physical (page_directory_at lay))
                       (field ''PAGING pages: '' (paging_get_mapped_pages (mpaging s)) (sayln (lit ''prepared'') s)))
                else sayln (lit ''FAIL'') s);
       Some (if paging_enable_on_boot cfg
             then sayln (lit ''PAGING enabled'') (s\<lparr>mcpu := paging_enable (page_directory_at lay) (mpaging s) (mcpu s)\<rparr>)
             else sayln (lit ''PAGING disabled'') s)
     }"

definition boot_initrd :: "u32 \<Rightarrow> machine \<Rightarrow> machine option" where
  "boot_initrd multiboot_info s =
     do {
       let s = say (lit ''INITRD: '') s;
       (st, h) \<leftarrow> initrd_init multiboot_info (kheap (mk s));
       let s = s\<lparr>mk := (mk s)\<lparr>kheap := h, kinitrd := st\<rparr>\<rparr>;
       Some (if initrd_is_ready (kinitrd (mk s)) \<noteq> 0
             then putc chr_nl (field ''INITRD files: '' (initrd_file_count (kinitrd (mk s))) (sayln (lit ''OK'') s))
             else sayln (lit ''none'') s)
     }"

text \<open>From the start to the ramdisk.\<close>

definition boot_files :: "config \<Rightarrow> layout \<Rightarrow> u32 \<Rightarrow> machine \<Rightarrow> machine option" where
  "boot_files cfg lay multiboot_info s =
     do {
       s \<leftarrow> boot_core cfg lay multiboot_info s;
       s \<leftarrow> run_memory_smoke_tests s;
       boot_initrd multiboot_info s
     }"

text \<open>
  The result is the state in which \<open>run_builtin_shell\<close> enters its loop, see \<open>shell_run\<close>; \<open>None\<close>: some
  part of the boot does not end.
\<close>

definition kernel_main ::
    "config \<Rightarrow> (u32 \<Rightarrow> machine \<Rightarrow> machine option) \<Rightarrow> device \<Rightarrow> layout \<Rightarrow> u32 \<Rightarrow> u32 \<Rightarrow> machine \<Rightarrow> (u32 \<times> machine) option" where
  "kernel_main cfg call dev lay magic multiboot_info s =
     do {
       s \<leftarrow> boot_files cfg lay multiboot_info s;
       s \<leftarrow> run_vfs_smoke_test lay s;
       s \<leftarrow> run_elf_smoke_test cfg call lay s;
       let s = say (lit ''KBD: '') s;
       let s = sayln (lit ''OK'') (on_io (keyboard_init dev) s);
       let s = say (lit ''IRQ: '') s;
       let s = sayln (lit ''OK'') (enable_interrupts s);
       s \<leftarrow> run_syscall_smoke_test lay s;
       s \<leftarrow> run_fs_listing_demo lay s;
       Some (shell_start (sayln (lit ''Ready! Type something:'') s))
     }"

end
