(* ===== verification/Outcomes.thy ===== *)
theory Outcomes
  imports Main "HOL-Library.Monad_Syntax"
begin

text \<open>
  Total correctness of code in the option monad: \<open>leads r Q\<close> says that \<open>r\<close> returns, with a result that
  satisfies \<open>Q\<close>. The rules follow the structure of a block of code, one binding at a time.
\<close>

definition leads :: "'a option \<Rightarrow> ('a \<Rightarrow> bool) \<Rightarrow> bool" where
  "leads r Q \<longleftrightarrow> (\<exists>x. r = Some x \<and> Q x)"

lemma leads_Some: "Q x \<Longrightarrow> leads (Some x) Q"
  by (simp add: leads_def)

lemma leads_mono: "leads r R \<Longrightarrow> (\<And>x. R x \<Longrightarrow> Q x) \<Longrightarrow> leads r Q"
  by (auto simp: leads_def)

lemma leads_bind: "leads r R \<Longrightarrow> (\<And>x. R x \<Longrightarrow> leads (f x) Q) \<Longrightarrow> leads (Option.bind r f) Q"
  by (auto simp: leads_def)

lemma leads_let: "R e \<Longrightarrow> (\<And>x. R x \<Longrightarrow> leads (f x) Q) \<Longrightarrow> leads (Let e f) Q"
  by simp

lemma leads_bind_pair:
  "leads r (\<lambda>(a, b). R a b) \<Longrightarrow> (\<And>a b. R a b \<Longrightarrow> leads (f a b) Q) \<Longrightarrow> leads (Option.bind r (\<lambda>(a, b). f a b)) Q"
  by (auto simp: leads_def)

lemma leads_let_pair: "(case e of (a, b) \<Rightarrow> R a b) \<Longrightarrow> (\<And>a b. R a b \<Longrightarrow> leads (f a b) Q) \<Longrightarrow> leads (let (a, b) = e in f a b) Q"
  by (cases e) simp

lemma leads_if: "(c \<Longrightarrow> leads a Q) \<Longrightarrow> (\<not> c \<Longrightarrow> leads b Q) \<Longrightarrow> leads (if c then a else b) Q"
  by simp

end
