(* ===== verification/Boot_Memory.thy ===== *)
theory Boot_Memory
  imports Kmain Shell_Props Outcomes
begin

text \<open>
  Booting up to the ramdisk: what the loader left in memory survives the set-up of frames and heap and
  the memory tests, and the index of the archive is built on the heap.
\<close>

section \<open>What the boot loader provides\<close>

text \<open>
  Statics as the image has them, a finite memory map \<open>es\<close>, a boot record and a table of modules that do not
  wrap, and as first module the archive at \<open>base\<close> with the members \<open>ts\<close>.
\<close>

definition boot_ready :: "u32 \<Rightarrow> u32 list \<Rightarrow> u32 \<Rightarrow> u32 \<Rightarrow> member list \<Rightarrow> machine \<Rightarrow> bool" where
  "boot_ready mbi es base sz ts s \<longleftrightarrow>
     pmm_total_frames (hpmm (kheap (mk s))) = PMM_MAX_FRAMES \<and> heap_head (kheap (mk s)) = 0
     \<and> mmap_entries (mmem s) mbi es \<and> unat mbi + 52 \<le> 4294967296
     \<and> bit (mbi_flags (mmem s) mbi) 3 \<and> 0 < unat (mbi_mods_count (mmem s) mbi)
     \<and> unat (mbi_mods_addr (mmem s) mbi) + 16 * unat (mbi_mods_count (mmem s) mbi) < 4294967296
     \<and> base = mod_start (mmem s) (mbi_mods_addr (mmem s) mbi) 0
     \<and> unat base + unat sz = unat (mod_end (mmem s) (mbi_mods_addr (mmem s) mbi) 0)
     \<and> tar_image (mmem s) base sz 0 ts"

text \<open>The frames the kernel may use: those a region of the map offers, less the reserved ones.\<close>

definition usable :: "mem \<Rightarrow> u32 \<Rightarrow> u32 list \<Rightarrow> layout \<Rightarrow> u32 set" where
  "usable m mbi es lay = {f. f < PMM_MAX_FRAMES \<and> (\<exists>e \<in> set es. entry_frees m e f)
     \<and> \<not> reserved m mbi (kernel_start_at lay) (kernel_end_at lay) f}"

lemma touches_span:
  assumes "unat a + n \<le> 4294967296" and "x \<in> span a n"
  shows "region_touches (unat a) n (x div 4096)"
proof -
  have "unat a \<le> unat x" "unat x < unat a + n" using assms span_nowrap by blast+
  moreover have "unat x < (unat x div 4096 + 1) * 4096" by (simp add: dividend_less_div_times)
  moreover have "unat x div 4096 * 4096 \<le> unat x" by simp
  ultimately show ?thesis unfolding region_touches_def unat_div by simp
qed

lemma usable_apart:
  assumes "boot_ready mbi es base sz ts s"
  shows "x \<in> span mbi 52 \<Longrightarrow> frame_of x \<notin> usable (mmem s) mbi es lay"
    and "x \<in> span (mbi_mods_addr (mmem s) mbi) (16 * unat (mbi_mods_count (mmem s) mbi)) \<Longrightarrow> frame_of x \<notin> usable (mmem s) mbi es lay"
    and "x \<in> span base (unat sz) \<Longrightarrow> frame_of x \<notin> usable (mmem s) mbi es lay"
    and "x \<in> span (kernel_start_at lay) (unat (kernel_end_at lay) - unat (kernel_start_at lay)) \<Longrightarrow> frame_of x \<notin> usable (mmem s) mbi es lay"
    and "unat x < 1048576 \<Longrightarrow> frame_of x \<notin> usable (mmem s) mbi es lay"
proof -
  let ?m = "mmem s" and ?n = "mbi_mods_count (mmem s) mbi"
  note b = assms [unfolded boot_ready_def]
  have n: "unat (?n * 16) = 16 * unat ?n" using b by (simp add: unat_word_ariths)
  have e: "unat (mod_end ?m (mbi_mods_addr ?m mbi) 0) - unat base = unat sz"
    and be: "unat base + unat sz \<le> 4294967296" using b unat_less_2p32 [of "mod_end ?m (mbi_mods_addr ?m mbi) 0"] by linarith+
  show "frame_of x \<notin> usable ?m mbi es lay" if "x \<in> span mbi 52"
    using touches_span [OF _ that] b by (simp add: usable_def reserved_def frame_of_def)
  show "frame_of x \<notin> usable ?m mbi es lay" if "x \<in> span (mbi_mods_addr ?m mbi) (16 * unat ?n)"
    using touches_span [OF _ that] b n by (simp add: usable_def reserved_def frame_of_def)
  show "frame_of x \<notin> usable ?m mbi es lay" if "x \<in> span base (unat sz)"
  proof -
    have "region_touches (unat base) (unat sz) (x div 4096)" using touches_span [OF be that] .
    moreover have "0 < ?n" using b by (simp add: word_less_nat_alt)
    ultimately show ?thesis using b e by (auto simp: usable_def reserved_def frame_of_def)
  qed
  show "frame_of x \<notin> usable ?m mbi es lay"
    if "x \<in> span (kernel_start_at lay) (unat (kernel_end_at lay) - unat (kernel_start_at lay))"
  proof -
    have "unat (kernel_start_at lay) + (unat (kernel_end_at lay) - unat (kernel_start_at lay)) \<le> 4294967296"
      using unat_less_2p32 [of "kernel_end_at lay"] unat_less_2p32 [of "kernel_start_at lay"] by linarith
    then show ?thesis using touches_span that by (simp add: usable_def reserved_def frame_of_def)
  qed
  show "frame_of x \<notin> usable ?m mbi es lay" if "unat x < 1048576"
  proof -
    have "unat x div 4096 < 256" using that by (simp add: div_less_iff_less_mult)
    then show ?thesis by (simp add: usable_def reserved_def frame_of_def unat_div)
  qed
qed

section \<open>Frames and heap\<close>

lemma grow_one_frame:
  assumes "pmm_wf (hpmm s)" and gr: "heap_grow 64 s = (h, s')" and nz: "h \<noteq> 0"
  shows "free_set (hpmm s') = free_set (hpmm s) - {frame_of h}"
proof -
  obtain p where al: "pmm_alloc_frame (hpmm s) = (h, p)"
    and s': "s' = heap_grow_loop 64 h (s\<lparr>hpmm := p, hmem := init_block h (hmem s)\<rparr>)"
    using gr nz by (auto simp: heap_grow_def Let_def split: prod.splits if_splits)
  have "s' = s\<lparr>hpmm := p, hmem := init_block h (hmem s)\<rparr>"
    unfolding s' by (subst heap_grow_loop.simps) (simp add: init_block_header)
  then show ?thesis using alloc_frame_addr [OF assms(1) al nz] by simp
qed

lemma heap_at_boot:
  assumes b: "boot_ready mbi es base sz ts s"
  shows "\<exists>p bs. pmm_init (mmem s) mbi (kernel_start_at lay) (kernel_end_at lay) (hpmm (kheap (mk s))) = Some p
    \<and> heap_inv (heap_init ((kheap (mk s))\<lparr>hpmm := p\<rparr>)) bs \<and> live bs = {}
    \<and> free_set p = usable (mmem s) mbi es lay
    \<and> heap_frame ((kheap (mk s))\<lparr>hpmm := p\<rparr>) [] (heap_init ((kheap (mk s))\<lparr>hpmm := p\<rparr>)) bs
    \<and> (bs = [] \<and> usable (mmem s) mbi es lay = {}
       \<or> (\<exists>a. bs = [fresh a] \<and> free_set (hpmm (heap_init ((kheap (mk s))\<lparr>hpmm := p\<rparr>))) = usable (mmem s) mbi es lay - {frame_of a}))"
proof -
  let ?U = "usable (mmem s) mbi es lay"
  have t: "pmm_total_frames (hpmm (kheap (mk s))) = PMM_MAX_FRAMES" and mm: "mmap_entries (mmem s) mbi es"
    and hd: "heap_head (kheap (mk s)) = 0" using b by (simp_all add: boot_ready_def)
  obtain p where p: "pmm_init (mmem s) mbi (kernel_start_at lay) (kernel_end_at lay) (hpmm (kheap (mk s))) = Some p"
    using pmm_init_eq [OF mm] by blast
  have wf: "pmm_wf p" using pmm_init_wf [OF t mm p] .
  have fs: "free_set p = ?U" using pmm_init_used [OF t mm p] wf by (auto simp: free_set_def pmm_wf_def usable_def)
  let ?h = "(kheap (mk s))\<lparr>hpmm := p\<rparr>"
  have inv: "heap_inv ?h []" using wf hd by (simp add: heap_inv_def blks_ok_def frames_held_def)
  have r: "ready ?h = heap_init ?h" using hd by (simp add: ready_def)
  obtain bs where bs: "heap_inv (heap_init ?h) bs" "live bs = {}" "bs = [] \<or> bs = [fresh (heap_head (heap_init ?h))]"
    "heap_frame ?h [] (heap_init ?h) bs" using ready_inv [OF inv] unfolding r by auto
  have z: "0 \<notin> free_set (hpmm ?h)" using fs by (simp add: usable_def reserved_def)
  have "bs = [] \<and> ?U = {} \<or> (\<exists>a. bs = [fresh a] \<and> free_set (hpmm (heap_init ?h)) = ?U - {frame_of a})"
  proof (cases "bs = []")
    case True
    then have "heap_head (ready ?h) = 0" using heap_inv_head [OF bs(1)] r by simp
    then show ?thesis using ready_empty [OF inv _ z] fs True by simp
  next
    case False
    obtain h s1 where gr: "heap_grow 64 ?h = (h, s1)" by fastforce
    then have hi: "heap_init ?h = s1\<lparr>heap_head := h\<rparr>" using hd by (simp add: heap_init_def)
    then have "h \<noteq> 0" "bs = [fresh h]" using bs(3) False heap_inv_head [OF bs(1)] by auto
    moreover have "free_set (hpmm s1) = free_set p - {frame_of h}" using grow_one_frame [OF _ gr] wf \<open>h \<noteq> 0\<close> by simp
    ultimately show ?thesis using hi fs by auto
  qed
  then show ?thesis using p bs fs by blast
qed

text \<open>What the output and the set-up of the tables leave alone.\<close>

definition inert :: "machine \<Rightarrow> machine \<Rightarrow> bool" where
  "inert s s' \<longleftrightarrow> kinitrd (mk s') = kinitrd (mk s) \<and> fd_table (mk s') = fd_table (mk s) \<and> kkbd (mk s') = kkbd (mk s)
     \<and> current_drive s' = current_drive s"

lemma inert_refl: "inert s s"
  by (simp add: inert_def)

lemma inert_trans: "inert s t \<Longrightarrow> inert t u \<Longrightarrow> inert s u"
  by (simp add: inert_def)

lemma inert_io: "inert s (on_io f s)"
  by (simp add: inert_def)

lemma pit_init_returns: "\<exists>o1. pit_init o0 = Some o1"
  by (simp add: pit_init_def pit_set_frequency_def Let_def)

text \<open>The state of the machine as far as the boot sequence is concerned: its heap, and the rest as at the start.\<close>

definition at_heap :: "machine \<Rightarrow> heap \<Rightarrow> machine \<Rightarrow> bool" where
  "at_heap s h t \<longleftrightarrow> kheap (mk t) = h \<and> inert s t"

lemma at_heap_io: "at_heap s h (on_io f t) \<longleftrightarrow> at_heap s h t"
  by (simp add: at_heap_def inert_def)

lemmas at_heap_out = at_heap_io say_def sayln_def putc_def print_uint_kmain_def field_def

lemma at_heap_update:
  "at_heap s h t \<Longrightarrow> at_heap s h' (t\<lparr>mk := (mk t)\<lparr>kheap := h'\<rparr>\<rparr>)"
  "at_heap s h (t\<lparr>mgdt := g\<rparr>) = at_heap s h t" "at_heap s h (t\<lparr>midt := i\<rparr>) = at_heap s h t"
  "at_heap s h (t\<lparr>mpaging := pg\<rparr>) = at_heap s h t" "at_heap s h (t\<lparr>mcpu := c\<rparr>) = at_heap s h t"
  "at_heap s h (t\<lparr>mk := (mk t)\<lparr>kio := o1\<rparr>\<rparr>) = at_heap s h t"
  by (auto simp: at_heap_def inert_def)

lemma boot_core_returns:
  assumes "pmm_init (hmem h) mbi (kernel_start_at lay) (kernel_end_at lay) (hpmm h) = Some p" and "at_heap s0 h s"
  shows "leads (boot_core cfg lay mbi s) (at_heap s0 (heap_init (h\<lparr>hpmm := p\<rparr>)))"
proof -
  have hello: "at_heap s0 h (hello_world t) \<longleftrightarrow> at_heap s0 h t" for h t by (simp add: hello_world_def Let_def at_heap_out)
  let ?R = "at_heap s0 h" and ?R1 = "at_heap s0 (h\<lparr>hpmm := p\<rparr>)" and ?R2 = "at_heap s0 (heap_init (h\<lparr>hpmm := p\<rparr>))"
  note steps = hello at_heap_out at_heap_update
  show ?thesis unfolding boot_core_def
    apply ((rule leads_let [where R = ?R], simp add: steps assms)+)
    apply (rule leads_bind [where R = "\<lambda>_. True"], simp add: leads_def pit_init_returns)
    apply ((rule leads_let [where R = ?R], simp add: steps)+)
    apply (rule leads_bind [where R = "\<lambda>q. q = p"], simp add: leads_def at_heap_def mmem_def kmem_def assms)
    apply (rule leads_let [where R = ?R1], simp add: at_heap_out, simp add: at_heap_def inert_def)
    apply ((rule leads_let [where R = ?R1], (simp add: steps; fail))+)
    apply (rule leads_let [where R = ?R2], simp add: at_heap_out, simp add: at_heap_def inert_def)
    apply (rule leads_let [where R = ?R2], simp add: steps)+
    by (rule leads_Some, simp add: steps)
qed

section \<open>The memory tests\<close>

lemma kmalloc_leads:
  assumes inv: "heap_inv h bs" and nz: "sz \<noteq> 0" "bs \<noteq> []"
  shows "leads (kmalloc sz h) (\<lambda>(p, h'). \<exists>bs'. alloc_result (align8 sz) h bs p h' bs'
    \<and> ((\<exists>c \<in> set bs. fits (align8 sz) c) \<longrightarrow> p \<noteq> 0 \<and> hpmm h' = hpmm h))"
proof -
  obtain p h' bs' where k: "kmalloc sz h = Some (p, h')" "alloc_result (align8 sz) h bs p h' bs'"
    using kmalloc_spec [OF inv] by blast
  have r: "ready h = h" using ready_nonempty [OF inv nz(2)] .
  have "p \<noteq> 0 \<and> hpmm h' = hpmm h" if room: "\<exists>c \<in> set bs. fits (align8 sz) c"
  proof -
    obtain xs b ys where bs: "bs = xs @ b # ys" "fits (align8 sz) b" "\<forall>c \<in> set xs. \<not> fits (align8 sz) c"
      using split_list_first_prop [OF room] by blast
    have "hpmm h' = hpmm h" using kmalloc_hit [OF nz(1), of h xs b ys] inv bs r k(1) by simp
    moreover have "p \<noteq> 0" using kmalloc_first_fit [OF nz(1), of h bs] inv r room k(1) by auto
    ultimately show ?thesis by simp
  qed
  then show ?thesis using k by (auto simp: leads_def)
qed

lemma kfree_leads:
  assumes "heap_inv h bs" and "b \<in> live bs"
  shows "leads (kfree (addr b + 12) h) (\<lambda>h'. \<exists>bs'. heap_inv h' bs' \<and> live bs' = live bs - {b} \<and> hpmm h' = hpmm h
    \<and> heap_frame h bs h' bs' \<and> (\<exists>c \<in> set bs'. bfree c \<and> bsize b \<le> bsize c))"
  using kfree_spec [OF assms] unfolding leads_def by blast

text \<open>Taking the lowest frame and giving it back leaves the same frames free.\<close>

lemma pmm_test_neutral:
  assumes wf: "pmm_wf p" and z: "0 \<notin> free_set p" and al: "pmm_alloc_frame p = (f, q)"
  shows "f = 0 \<and> q = p \<or> f \<noteq> 0 \<and> pmm_free_frames q + 1 = pmm_free_frames p
    \<and> pmm_wf (pmm_free_frame f q) \<and> free_set (pmm_free_frame f q) = free_set p"
  using wf
proof (cases rule: alloc_frame_cases)
  case (1 g)
  have g: "f = g * PMM_FRAME_SIZE" "q = pmm_mark_frame_used g p" using 1(3) al by auto
  have lt: "g < PMM_MAX_FRAMES" "unat g < 1048576" using 1(1) wf by (auto simp: free_set_def pmm_wf_def PMM_MAX_FRAMES_def nat_of_word)
  have "g \<noteq> 0" using 1(1) z by metis
  then have "f \<noteq> 0" using unat_frame_addr [OF lt(2)] g(1) by (auto simp flip: unat_eq_zero)
  moreover have fr: "pmm_free_frame f q = pmm_mark_frame_free g q"
    using frame_of_addr [OF lt(2)] g(1) by (simp add: pmm_free_frame_def PMM_FRAME_SIZE_def)
  moreover have wq: "pmm_wf q" "free_set q = free_set p - {g}" using wf g(2) free_set_mark_used by auto
  moreover have "free_set (pmm_mark_frame_free g q) = free_set p"
    using 1(1) wq lt by (auto simp: free_set_mark_free pmm_wf_def)
  moreover have "pmm_free_frames q + 1 = pmm_free_frames p"
  proof -
    have "unat (pmm_free_frames p) = unat (pmm_free_frames q) + 1"
      using wf wq 1(1) card_Suc_Diff1 [OF finite_free_set 1(1)] by (simp add: pmm_wf_def)
    then show ?thesis using unat_less_2p32 [of "pmm_free_frames p"] by (simp add: word_eq_unat unat_add_nowrap)
  qed
  ultimately show ?thesis by auto
qed (use al in auto)

lemma on_heap_leads:
  assumes "at_heap s0 h t" and "leads (f h) (\<lambda>(r, h'). R r h')"
  shows "leads (on_heap f t) (\<lambda>(r, t'). \<exists>h'. at_heap s0 h' t' \<and> R r h')"
  using assms by (auto simp: on_heap_def leads_def at_heap_def inert_def)

lemma release_leads:
  assumes "at_heap s0 h t" and "leads (kfree p h) R"
  shows "leads (release p t) (\<lambda>t'. \<exists>h'. at_heap s0 h' t' \<and> R h')"
  using assms by (auto simp: release_def leads_def at_heap_def inert_def)

text \<open>
  The state of the heap between two steps of the test: reached from \<open>h0\<close> within the memory the heap may use,
  with the blocks \<open>L\<close> in use, and with the frames \<open>F\<close> free if the heap had its first block (\<open>full\<close>).
\<close>

definition tested :: "heap \<Rightarrow> blk list \<Rightarrow> blk set \<Rightarrow> bool \<Rightarrow> heap \<Rightarrow> blk list \<Rightarrow> bool" where
  "tested h0 bs0 L full h bs \<longleftrightarrow> heap_inv h bs \<and> heap_frame h0 bs0 h bs \<and> live bs = L
     \<and> (full \<longrightarrow> free_set (hpmm h) = free_set (hpmm h0))"

text \<open>An allocation: null and no block, or the address of a block that is not in \<open>L\<close>.\<close>

definition got :: "u32 \<Rightarrow> blk set \<Rightarrow> u32 \<Rightarrow> blk set \<Rightarrow> bool" where
  "got w L p N \<longleftrightarrow> p = 0 \<and> N = {} \<or> (\<exists>b. N = {b} \<and> b \<notin> L \<and> p = addr b + 12 \<and> w \<le> bsize b)"

lemma tested_alloc:
  assumes t: "tested h0 bs0 L full h bs" and w: "sz \<noteq> 0" "full \<longrightarrow> (\<exists>c \<in> set bs. fits (align8 sz) c)"
  shows "leads (kmalloc sz h) (\<lambda>(p, h'). \<exists>bs' N. (full \<longrightarrow> p \<noteq> 0) \<and> got (align8 sz) L p N \<and> tested h0 bs0 (N \<union> L) full h' bs')"
proof -
  have inv: "heap_inv h bs" using t by (simp add: tested_def)
  obtain p h' bs' where k: "kmalloc sz h = Some (p, h')" "alloc_result (align8 sz) h bs p h' bs'"
    using kmalloc_spec [OF inv] by blast
  obtain N where N: "got (align8 sz) L p N" "live bs' = N \<union> L"
    using k(2) t by (cases "p = 0") (auto simp: alloc_result_def got_def tested_def)
  have "p \<noteq> 0 \<and> hpmm h' = hpmm h" if full
    using kmalloc_leads [OF inv w(1)] w(2) that k(1) by (fastforce simp: leads_def)
  then have "tested h0 bs0 (N \<union> L) full h' bs'" "full \<longrightarrow> p \<noteq> 0"
    using t k(2) N(2) heap_frame_trans [of h0 bs0 h bs h' bs'] by (auto simp: tested_def alloc_result_def)
  then show ?thesis using k(1) N(1) by (auto simp: leads_def)
qed

lemma tested_free:
  assumes t: "tested h0 bs0 (N \<union> L) full h bs" and g: "got w L p N"
  shows "leads (kfree p h) (\<lambda>h'. \<exists>bs'. tested h0 bs0 L full h' bs' \<and> (p \<noteq> 0 \<longrightarrow> (\<exists>c \<in> set bs'. bfree c \<and> w \<le> bsize c)))"
  using g unfolding got_def
proof
  assume "p = 0 \<and> N = {}"
  then show ?thesis using t by (auto simp: leads_def kfree_null)
next
  assume "\<exists>b. N = {b} \<and> b \<notin> L \<and> p = addr b + 12 \<and> w \<le> bsize b"
  then obtain b where b: "N = {b}" "b \<notin> L" "p = addr b + 12" "w \<le> bsize b" by blast
  have "heap_inv h bs" "live bs = insert b L" using t b(1) by (simp_all add: tested_def)
  with kfree_leads [of h bs b] obtain h' bs' c where k: "kfree p h = Some h'" "heap_inv h' bs'" "live bs' = insert b L - {b}"
    "hpmm h' = hpmm h" "heap_frame h bs h' bs'" "c \<in> set bs'" "bfree c" "bsize b \<le> bsize c"
    unfolding leads_def b(3) by auto
  have "tested h0 bs0 L full h' bs'"
    using t k b(2) heap_frame_trans [of h0 bs0 h bs h' bs'] by (simp add: tested_def)
  then show ?thesis using k(1,6,7) order_trans [OF b(4) k(8)] by (auto simp: leads_def)
qed

lemma fresh_leaves_room:
  assumes inv: "heap_inv h [fresh a]" and k: "kmalloc 64 h = Some (p, h')" and inv': "heap_inv h' bs'"
  shows "\<exists>c \<in> set bs'. fits (align8 128) c"
proof -
  have al: "align8 64 = 64" "align8 128 = 128" by (simp_all add: align8_def)
  have r: "ready h = h" using ready_nonempty [OF inv] by simp
  have f: "fits 64 (fresh a)" by (simp add: fits_fresh)
  have "h' = h\<lparr>hmem := hb_set_free (addr (fresh a)) 0 (split_block (addr (fresh a)) 64 (hmem h))\<rparr>"
    using kmalloc_hit [of 64 h "[]" "fresh a" "[]"] inv f k r al(1) by simp
  then have "heap_inv h' (take_from 64 (fresh a))"
    using take_result [of h "[]" "fresh a" "[]" 64] inv f by (simp add: alloc_result_def)
  then have "bs' = take_from 64 (fresh a)" using heap_inv_unique [OF inv'] by blast
  then show ?thesis by (simp add: take_from_def fresh_def fits_def al)
qed

lemma frame_test_neutral:
  assumes s: "at_heap s0 h0 s" and wf: "pmm_wf (hpmm h0)" and z: "0 \<notin> free_set (hpmm h0)"
  shows "\<exists>p'. at_heap s0 (h0\<lparr>hpmm := p'\<rparr>) (frame_test s) \<and> pmm_wf p' \<and> free_set p' = free_set (hpmm h0)"
proof -
  obtain f q where al: "pmm_alloc_frame (hpmm h0) = (f, q)" by fastforce
  have ff: "free_frames t = pmm_free_frames (hpmm h)" if "at_heap s0 h t" for h t
    using that by (simp add: free_frames_def pmm_get_free_frames_def at_heap_def)
  obtain s1 where s1: "on_pmm pmm_alloc_frame s = (f, s1)" "at_heap s0 (h0\<lparr>hpmm := q\<rparr>) s1"
    using s al by (simp add: on_pmm_def at_heap_def inert_def)
  define s2 where "s2 = say (lit ''PMM test: '') s1"
  have s2: "at_heap s0 (h0\<lparr>hpmm := q\<rparr>) s2" using s1(2) by (simp add: s2_def at_heap_out)
  obtain s3 where s3: "on_pmm (\<lambda>p. ((), pmm_free_frame f p)) s2 = ((), s3)" "at_heap s0 (h0\<lparr>hpmm := pmm_free_frame f q\<rparr>) s3"
    using s2 by (simp add: on_pmm_def at_heap_def inert_def)
  have "frame_test s = (if f = 0 \<or> free_frames s1 + 1 \<noteq> free_frames s then sayln (lit ''FAIL'') s2
      else if free_frames s3 \<noteq> free_frames s then sayln (lit ''FAIL'') s3 else sayln (lit ''OK'') s3)"
    using s1(1) s3(1) by (simp add: frame_test_def s2_def [symmetric])
  then show ?thesis using pmm_test_neutral [OF wf z al] ff [OF s] ff [OF s1(2)] s2 s3(2) wf by (auto simp: at_heap_out)
qed

lemma first_alloc:
  assumes t: "tested h0 bs0 {} (bs0 \<noteq> []) h bs0" and bs0: "bs0 = [] \<or> (\<exists>a. bs0 = [fresh a])"
  shows "leads (kmalloc 64 h) (\<lambda>(p, h'). \<exists>bs N. (bs0 \<noteq> [] \<longrightarrow> p \<noteq> 0 \<and> (\<exists>c \<in> set bs. fits (align8 128) c))
    \<and> got 64 {} p N \<and> tested h0 bs0 N (bs0 \<noteq> []) h' bs)"
proof -
  have a: "align8 64 = 64" by (simp add: align8_def)
  have "bs0 \<noteq> [] \<longrightarrow> (\<exists>c \<in> set bs0. fits (align8 64) c)" using bs0 by (auto simp: fits_fresh a)
  from tested_alloc [OF t _ this] obtain p h' bs N where k: "kmalloc 64 h = Some (p, h')" "bs0 \<noteq> [] \<longrightarrow> p \<noteq> 0"
    "got 64 {} p N" "tested h0 bs0 N (bs0 \<noteq> []) h' bs" by (auto simp: leads_def a)
  have "heap_inv h' bs" "heap_inv h bs0" using t k(4) by (simp_all add: tested_def)
  then have "bs0 \<noteq> [] \<longrightarrow> (\<exists>c \<in> set bs. fits (align8 128) c)" using fresh_leaves_room [OF _ k(1)] bs0 by blast
  then show ?thesis using k by (auto simp: leads_def)
qed

lemma heap_test_returns:
  assumes s: "at_heap s0 h s" and t: "tested h0 bs0 {} (bs0 \<noteq> []) h bs0" and bs0: "bs0 = [] \<or> (\<exists>a. bs0 = [fresh a])"
  shows "leads (heap_test s) (\<lambda>t. \<exists>h bs L. at_heap s0 h t \<and> tested h0 bs0 L (bs0 \<noteq> []) h bs)"
    (is "leads _ ?Q")
  unfolding heap_test_def
proof (rule leads_bind_pair [OF on_heap_leads [OF s, where f = "kmalloc 64", OF first_alloc [OF t bs0]]], elim exE conjE)
  let ?full = "bs0 \<noteq> []"
  let ?T = "\<lambda>L. tested h0 bs0 L ?full"
  fix a s1 h1 bs1 A
  assume s1: "at_heap s0 h1 s1" and a: "?full \<longrightarrow> a \<noteq> 0 \<and> (\<exists>c \<in> set bs1. fits (align8 128) c)" "got 64 {} a A" "?T A h1 bs1"
  have room: "?full \<longrightarrow> (\<exists>c \<in> set bs1. fits (align8 128) c)" using a(1) by blast
  show "leads (do { (b, s) \<leftarrow> on_heap (kmalloc 128) s1;
      if a = 0 \<or> b = 0 then Some (sayln (lit ''HEAP test: FAIL'') s)
      else do { s \<leftarrow> release a s; (c, s) \<leftarrow> on_heap (kmalloc 32) s; let s = say (lit ''HEAP test: '') s;
        let s = (if c = 0 then sayln (lit ''FAIL'') s else sayln (lit ''OK'') s); s \<leftarrow> release b s; release c s } }) ?Q"
  proof (rule leads_bind_pair [OF on_heap_leads [OF s1, where f = "kmalloc 128", OF tested_alloc [OF a(3) _ room]]], simp, elim exE conjE, rule leads_if)
    fix b s2 h2 bs2 B
    assume s2: "at_heap s0 h2 s2" and b: "got (align8 128) A b B" "?T (B \<union> A) h2 bs2"
    show "leads (Some (sayln (lit ''HEAP test: FAIL'') s2)) ?Q" using s2 b(2) by (auto simp: leads_def at_heap_out)
    assume nz: "\<not> (a = 0 \<or> b = 0)"
    have ga: "got 64 B a A" and tB: "?T (A \<union> B) h2 bs2" using a(2) b nz by (auto simp: got_def Un_commute)
    show "leads (do { s \<leftarrow> release a s2; (c, s) \<leftarrow> on_heap (kmalloc 32) s; let s = say (lit ''HEAP test: '') s;
        let s = (if c = 0 then sayln (lit ''FAIL'') s else sayln (lit ''OK'') s); s \<leftarrow> release b s; release c s }) ?Q"
    proof (rule leads_bind [OF release_leads [OF s2 tested_free [OF tB ga]]], elim exE conjE)
      fix s3 h3 bs3
      assume s3: "at_heap s0 h3 s3" and t3: "?T B h3 bs3" "a \<noteq> 0 \<longrightarrow> (\<exists>c \<in> set bs3. bfree c \<and> 64 \<le> bsize c)"
      then have room: "?full \<longrightarrow> (\<exists>c \<in> set bs3. fits (align8 32) c)"
        using nz by (auto simp: fits_def align8_def intro: order_trans [of 32 64] elim!: bexI [rotated])
      show "leads (do { (c, s) \<leftarrow> on_heap (kmalloc 32) s3; let s = say (lit ''HEAP test: '') s;
          let s = (if c = 0 then sayln (lit ''FAIL'') s else sayln (lit ''OK'') s); s \<leftarrow> release b s; release c s }) ?Q"
      proof (rule leads_bind_pair [OF on_heap_leads [OF s3, where f = "kmalloc 32", OF tested_alloc [OF t3(1) _ room]]], simp, elim exE conjE)
        fix c s4 h4 bs4 C
        assume s4: "at_heap s0 h4 s4" and c: "got (align8 32) B c C" "?T (C \<union> B) h4 bs4"
        have gb: "got (align8 128) C b B" and tC: "?T (B \<union> C) h4 bs4" and gc: "got (align8 32) {} c C"
          using b c by (auto simp: got_def Un_commute)
        show "leads (let s = say (lit ''HEAP test: '') s4; s = (if c = 0 then sayln (lit ''FAIL'') s else sayln (lit ''OK'') s)
            in do { s \<leftarrow> release b s; release c s }) ?Q"
        proof (intro leads_let [where R = "at_heap s0 h4"])
          fix s5
          assume "at_heap s0 h4 s5"
          then show "leads (do { s \<leftarrow> release b s5; release c s }) ?Q"
            by (rule leads_bind [OF release_leads [OF _ tested_free [OF tC gb]]])
              (use gc in \<open>auto intro!: leads_mono [OF release_leads [OF _ tested_free]] simp: Un_commute\<close>)
        qed (use s4 in \<open>simp_all add: at_heap_out\<close>)
      qed
    qed
  qed
qed

section \<open>The ramdisk\<close>

text \<open>Memory that differs only in usable frames holds the same boot record, modules and archive.\<close>

lemma boot_record_kept:
  assumes b: "boot_ready mbi es base sz ts s" and m: "\<And>x. frame_of x \<notin> usable (mmem s) mbi es lay \<Longrightarrow> m x = mmem s x"
  shows "mbi_flags m mbi AND push_bit 3 1 \<noteq> 0" "mbi_mods_count m mbi \<noteq> 0" "base = mod_start m (mbi_mods_addr m mbi) 0"
    "sz = mod_end m (mbi_mods_addr m mbi) 0 - base" "tar_image m base sz 0 ts"
proof -
  let ?m = "mmem s"
  note rd = b [unfolded boot_ready_def] and ap = usable_apart [OF b]
  have f: "mbi_flags m mbi = mbi_flags ?m mbi" "mbi_mods_count m mbi = mbi_mods_count ?m mbi"
    "mbi_mods_addr m mbi = mbi_mods_addr ?m mbi"
    unfolding mbi_flags_def mbi_mods_count_def mbi_mods_addr_def
    using span_piece [of 0 4 52 mbi] span_piece [of 20 4 52 mbi] span_piece [of 24 4 52 mbi] ap(1) m by (auto intro!: read_u32_cong)
  let ?a = "mbi_mods_addr ?m mbi" and ?n = "16 * unat (mbi_mods_count ?m mbi)"
  have n: "16 \<le> ?n" "?n < 4294967296" using rd by linarith+
  have g: "mod_start m ?a 0 = mod_start ?m ?a 0" "mod_end m ?a 0 = mod_end ?m ?a 0"
    unfolding mod_start_def mod_end_def using span_piece [of 0 4 ?n ?a] span_piece [of 4 4 ?n ?a] n ap(2) m by (auto intro!: read_u32_cong)
  show "mbi_flags m mbi AND push_bit 3 1 \<noteq> 0" using rd f(1) by (simp add: bit_flags)
  show "mbi_mods_count m mbi \<noteq> 0" using rd f(2) by auto
  show "base = mod_start m (mbi_mods_addr m mbi) 0" using rd f(3) g by simp
  show "sz = mod_end m (mbi_mods_addr m mbi) 0 - base"
  proof -
    have e: "unat base + unat sz = unat (mod_end ?m ?a 0)" using rd by blast
    then have "unat (base + sz) = unat (mod_end ?m ?a 0)"
      using unat_add_nowrap [of base sz] unat_less_2p32 [of "mod_end ?m ?a 0"] by linarith
    then have "mod_end ?m ?a 0 = base + sz" by (simp only: word_eq_unat)
    then show ?thesis using f(3) g by simp
  qed
  have "tar_image ?m base sz 0 ts" using rd by blast
  then show "tar_image m base sz 0 ts" by (rule tar_image_cong) (use ap(3) m in blast)
qed

text \<open>The state of a machine that has booted up to the ramdisk.\<close>

definition disk_booted :: "u32 \<Rightarrow> u32 list \<Rightarrow> u32 \<Rightarrow> u32 \<Rightarrow> member list \<Rightarrow> layout \<Rightarrow> machine \<Rightarrow> blk list \<Rightarrow> machine \<Rightarrow> bool" where
  "disk_booted mbi es base sz ts lay s bs t \<longleftrightarrow>
     heap_inv (kheap (mk t)) bs \<and> managed (hpmm (kheap (mk t))) bs \<subseteq> {x. frame_of x \<in> usable (mmem s) mbi es lay}
     \<and> (\<forall>x. frame_of x \<notin> usable (mmem s) mbi es lay \<longrightarrow> mmem t x = mmem s x)
     \<and> initrd_base (kinitrd (mk t)) = base \<and> index_owned (kinitrd (mk t)) bs
     \<and> (initrd_ready (kinitrd (mk t)) \<noteq> 0 \<longrightarrow> indexed (mmem t) (kinitrd (mk t)) (tar_files sz ts))
     \<and> (length (filter regular ts) \<le> 37 \<longrightarrow> 2 \<le> card (usable (mmem s) mbi es lay) \<longrightarrow> initrd_ready (kinitrd (mk t)) \<noteq> 0)
     \<and> fd_table (mk t) = fd_table (mk s) \<and> kkbd (mk t) = kkbd (mk s) \<and> current_drive t = current_drive s"

lemma boot_initrd_returns:
  assumes b: "boot_ready mbi es base sz ts s" and t: "at_heap s h t" and inv: "heap_inv h bs"
    and fr: "managed (hpmm h) bs \<subseteq> {x. frame_of x \<in> usable (mmem s) mbi es lay}"
    and m: "\<And>x. frame_of x \<notin> usable (mmem s) mbi es lay \<Longrightarrow> hmem h x = mmem s x"
    and z: "0 \<notin> free_set (hpmm h)" and two: "2 \<le> card (usable (mmem s) mbi es lay) \<Longrightarrow> free_set (hpmm h) \<noteq> {}"
  shows "leads (boot_initrd mbi t) (\<lambda>t'. \<exists>bs'. disk_booted mbi es base sz ts lay s bs' t')"
proof -
  note rec = boot_record_kept [OF b m]
  have dj: "span base (unat sz) \<inter> managed (hpmm h) bs = {}" using usable_apart(3) [OF b] fr by blast
  obtain st h' bs' where i: "initrd_init mbi h = Some (st, h')" and r: "heap_inv h' bs'" "heap_frame h bs h' bs'"
    "initrd_base st = base" "index_owned st bs'" "initrd_ready st \<noteq> 0 \<longrightarrow> indexed (hmem h') st (tar_files sz ts)"
    "length (filter regular ts) \<le> 37 \<longrightarrow> free_set (hpmm h) \<noteq> {} \<longrightarrow> 0 \<notin> free_set (hpmm h) \<longrightarrow> initrd_ready st \<noteq> 0"
    using initrd_init_ready [OF inv rec(5) dj rec(1-4)] by blast
  let ?R = "\<lambda>t'. kheap (mk t') = h' \<and> kinitrd (mk t') = st \<and> fd_table (mk t') = fd_table (mk s)
     \<and> kkbd (mk t') = kkbd (mk s) \<and> current_drive t' = current_drive s"
  have "leads (boot_initrd mbi t) ?R" unfolding boot_initrd_def
    apply (rule leads_let [where R = "at_heap s h"], simp add: at_heap_out t)
    apply (rule leads_bind_pair [where R = "\<lambda>a b. a = st \<and> b = h'"], simp add: leads_def i at_heap_def)
    apply (rule leads_let [where R = ?R], simp add: at_heap_def inert_def)
    by (rule leads_Some, simp add: out_defs field_def)
  moreover have "disk_booted mbi es base sz ts lay s bs' t'" if "?R t'" for t'
  proof -
    have "managed (hpmm h') bs' \<subseteq> {x. frame_of x \<in> usable (mmem s) mbi es lay}"
      and "\<And>x. frame_of x \<notin> usable (mmem s) mbi es lay \<Longrightarrow> hmem h' x = mmem s x"
      using r(2) fr m by (auto simp: heap_frame_def)
    then show ?thesis using that r z two by (auto simp: disk_booted_def mmem_def [of t'] kmem_def [of "mk t'"])
  qed
  ultimately show ?thesis by (auto intro: leads_mono)
qed

lemma free_in_managed:
  assumes "heap_inv h bs" and m: "managed (hpmm h) bs \<subseteq> {x. frame_of x \<in> U}"
  shows "free_set (hpmm h) \<subseteq> U"
proof
  fix f assume f: "f \<in> free_set (hpmm h)"
  then have "unat f < 1048576" using assms(1) by (auto simp: heap_inv_def pmm_wf_def free_set_def PMM_MAX_FRAMES_def nat_of_word)
  then have fr: "frame_of (f * PMM_FRAME_SIZE) = f" using frame_of_addr by (simp add: frame_of_def)
  then have "f * PMM_FRAME_SIZE \<in> managed (hpmm h) bs" using f by (simp add: managed_def)
  then show "f \<in> U" using m fr by auto
qed

lemma boot_files_returns:
  assumes b: "boot_ready mbi es base sz ts s"
  shows "leads (boot_files cfg lay mbi s) (\<lambda>t. \<exists>bs. disk_booted mbi es base sz ts lay s bs t)"
proof -
  let ?U = "usable (mmem s) mbi es lay" and ?h = "kheap (mk s)"
  obtain p bs0 where p: "pmm_init (mmem s) mbi (kernel_start_at lay) (kernel_end_at lay) (hpmm ?h) = Some p"
    and i: "heap_inv (heap_init (?h\<lparr>hpmm := p\<rparr>)) bs0" "live bs0 = {}" "free_set p = ?U"
      "heap_frame (?h\<lparr>hpmm := p\<rparr>) [] (heap_init (?h\<lparr>hpmm := p\<rparr>)) bs0"
    and c: "bs0 = [] \<and> ?U = {} \<or> (\<exists>a. bs0 = [fresh a] \<and> free_set (hpmm (heap_init (?h\<lparr>hpmm := p\<rparr>))) = ?U - {frame_of a})"
    using heap_at_boot [OF b, of lay] by blast
  define h0 where "h0 = heap_init (?h\<lparr>hpmm := p\<rparr>)"
  have h0: "heap_inv h0 bs0" "managed (hpmm h0) bs0 \<subseteq> {x. frame_of x \<in> ?U}"
    "\<And>x. frame_of x \<notin> ?U \<Longrightarrow> hmem h0 x = mmem s x"
    using i by (auto simp: h0_def heap_frame_def managed_def mmem_def kmem_def)
  have "frame_of 0 = 0" by (simp add: frame_of_def)
  then have z0: "0 \<notin> ?U" using usable_apart(5) [OF b, of 0] by simp
  have z: "0 \<notin> free_set (hpmm h0)" using free_in_managed [OF h0(1,2)] z0 by blast
  have "leads (boot_core cfg lay mbi s) (at_heap s h0)"
    using boot_core_returns [of ?h mbi lay p s s cfg] p by (simp add: h0_def at_heap_def inert_refl mmem_def kmem_def)
  then show ?thesis unfolding boot_files_def
  proof (rule leads_bind)
    fix s1
    assume s1: "at_heap s h0 s1"
    have wf: "pmm_wf (hpmm h0)" using h0(1) by (simp add: heap_inv_def)
    obtain p' where p': "at_heap s (h0\<lparr>hpmm := p'\<rparr>) (frame_test s1)" "pmm_wf p'" "free_set p' = free_set (hpmm h0)"
      using frame_test_neutral [OF s1 wf z] by blast
    have t0: "tested h0 bs0 {} (bs0 \<noteq> []) (h0\<lparr>hpmm := p'\<rparr>) bs0"
      using p'(2,3) h0(1) i(2) by (simp add: tested_def heap_inv_def frames_held_def heap_frame_def managed_def)
    have "bs0 = [] \<or> (\<exists>a. bs0 = [fresh a])" using c by blast
    from heap_test_returns [OF p'(1) t0 this]
    show "leads (do { s \<leftarrow> run_memory_smoke_tests s1; boot_initrd mbi s }) (\<lambda>t. \<exists>bs. disk_booted mbi es base sz ts lay s bs t)"
      unfolding run_memory_smoke_tests_def
    proof (rule leads_bind, elim exE conjE)
      fix s2 h bs L
      assume s2: "at_heap s h s2" and t: "tested h0 bs0 L (bs0 \<noteq> []) h bs"
      have h: "heap_inv h bs" "managed (hpmm h) bs \<subseteq> {x. frame_of x \<in> ?U}" "\<And>x. frame_of x \<notin> ?U \<Longrightarrow> hmem h x = mmem s x"
        using t h0 by (auto simp: tested_def heap_frame_def)
      have zh: "0 \<notin> free_set (hpmm h)" using free_in_managed [OF h(1,2)] z0 by blast
      have two: "free_set (hpmm h) \<noteq> {}" if cd: "2 \<le> card ?U"
      proof -
        obtain a where a: "bs0 = [fresh a]" "free_set (hpmm h0) = ?U - {frame_of a}" using c cd by (auto simp: h0_def)
        then have "free_set (hpmm h) = ?U - {frame_of a}" using t by (simp add: tested_def)
        moreover have "\<not> ?U \<subseteq> {frame_of a}" using cd card_mono [of "{frame_of a}" ?U] by auto
        ultimately show ?thesis by blast
      qed
      show "leads (boot_initrd mbi s2) (\<lambda>t. \<exists>bs. disk_booted mbi es base sz ts lay s bs t)"
        by (rule boot_initrd_returns [OF b s2 h zh two])
    qed
  qed
qed

end
