(* ===== verification/Boot_Inv.thy ===== *)
theory Boot_Inv
  imports Boot_Memory
begin

text \<open>
  The invariant of the second half of the boot sequence: heap and index intact, everything outside the
  heap and the local buffers as the boot loader left it. System calls with buffers on the stack keep it.
\<close>

section \<open>The memory of the kernel image\<close>

text \<open>The local arrays whose addresses reach a system call, and the string literals that are passed on.\<close>

definition stack :: "layout \<Rightarrow> u32 set" where
  "stack lay = own lay \<union> span (preview_at lay) 33 \<union> span (buffer_a_at lay) 9 \<union> span (buffer_b_at lay) 9
     \<union> span (name_buf_at lay) 64 \<union> span (pref_buf_at lay) 64 \<union> span (demo_name_at lay) 64 \<union> span (first_any_at lay) 64"

definition boot_lits :: "layout \<Rightarrow> (u32 \<times> cstr) list" where
  "boot_lits lay = [(prefix_all_lit lay, []), (prefix_bin_lit lay, lit ''bin/''), (prefix_etc_lit lay, lit ''etc/''),
     (init_lit lay, lit ''init'')]"

text \<open>Files the loader can be tried on: rejected, or without the two wrap-arounds of the loader.\<close>

definition loader_safe :: "mem \<Rightarrow> u32 \<Rightarrow> u32 \<Rightarrow> bool" where
  "loader_safe m d sz \<longleftrightarrow> elf_validate_buffer m d sz = 0
     \<or> image_ok m d sz \<and> (\<forall>p \<in> set (elf_segments m d). unat (p_memsz m p) \<le> 4294967288)"

text \<open>
  \<open>site lay W base fs m\<close>: with \<open>W\<close> the memory left to the heap, buffers, literals and files are apart
  from it and from each other, as far as the kernel relies on it.
\<close>

definition site :: "layout \<Rightarrow> u32 set \<Rightarrow> u32 \<Rightarrow> member list \<Rightarrow> mem \<Rightarrow> bool" where
  "site lay W base fs m \<longleftrightarrow> stack lay \<inter> W = {}
     \<and> 0 < unat (line_at lay) \<and> unat (line_at lay) + 128 < 4294967296
     \<and> 0 \<notin> {name_at lay, buf_at lay, preview_at lay, buffer_a_at lay, buffer_b_at lay, name_buf_at lay,
            pref_buf_at lay, demo_name_at lay, first_any_at lay}
     \<and> span (name_at lay) 96 \<inter> span (line_at lay) 128 = {} \<and> span (buf_at lay) 64 \<inter> span (line_at lay) 128 = {}
     \<and> (\<forall>(p, cs) \<in> set (shell_lits lay @ boot_lits lay). p \<noteq> 0 \<and> str_at m p cs \<and> span p (length cs + 1) \<inter> (stack lay \<union> W) = {})
     \<and> (\<forall>t \<in> set fs. base + of_nat (toff t) \<noteq> 0
          \<and> span (base + of_nat (toff t)) (unat (of_nat (tsize t) :: u32)) \<inter> (stack lay \<union> W) = {}
          \<and> loader_safe m (base + of_nat (toff t)) (of_nat (tsize t)))"

lemma site_literal:
  assumes s: "site lay W base fs m" and l: "(p, cs) \<in> set (shell_lits lay @ boot_lits lay)"
  shows "p \<noteq> 0 \<and> str_at m p cs \<and> span p (length cs + 1) \<inter> (stack lay \<union> W) = {}"
proof -
  have "\<forall>(p, cs) \<in> set (shell_lits lay @ boot_lits lay). p \<noteq> 0 \<and> str_at m p cs \<and> span p (length cs + 1) \<inter> (stack lay \<union> W) = {}"
    using s unfolding site_def by (elim conjE)
  from bspec [OF this l] show ?thesis by simp
qed

section \<open>The invariant\<close>

definition alive :: "layout \<Rightarrow> u32 set \<Rightarrow> initrd \<Rightarrow> member list \<Rightarrow> mem \<Rightarrow> machine \<Rightarrow> bool" where
  "alive lay W st fs m s \<longleftrightarrow> site lay W (initrd_base st) fs m
     \<and> (\<exists>bs. heap_inv (kheap (mk s)) bs \<and> managed (hpmm (kheap (mk s))) bs \<subseteq> W \<and> index_owned st bs)
     \<and> kinitrd (mk s) = st \<and> (\<forall>x. x \<notin> W \<union> stack lay \<longrightarrow> mmem s x = m x)
     \<and> indexed (mmem s) st fs
     \<and> fds_ok (mk s) \<and> kbd_wf (kkbd (mk s)) \<and> 65 \<le> unat (current_drive s) \<and> unat (current_drive s) \<le> 90"

text \<open>What a step of the diagnostics that leaves the heap alone may change.\<close>

definition calm :: "u32 set \<Rightarrow> machine \<Rightarrow> machine \<Rightarrow> bool" where
  "calm B s s' \<longleftrightarrow> (\<forall>x. x \<notin> B \<longrightarrow> mmem s' x = mmem s x) \<and> env_kept s s' \<and> (fds_ok (mk s) \<longrightarrow> fds_ok (mk s'))"

lemma calm_refl: "calm B s s"
  by (simp add: calm_def env_kept_refl)

lemma calm_io: "calm B s (on_io f s)"
  using host_kept_key(1) [of s f] fds_ok_cong [of "mk (on_io f s)" "mk s"] by (simp add: calm_def host_kept_def)

lemma index_within:
  assumes ix: "indexed m st fs" and own: "index_owned st bs" and inv: "heap_inv h bs" and i: "i < length fs"
  shows "\<exists>b \<in> live bs. span (file_entry (initrd_files st) (of_nat i)) 108 \<subseteq> payload b"
proof -
  have n: "unat (initrd_files_count st) = length fs" and nz: "initrd_files st \<noteq> 0" using ix i by (auto simp: indexed_def)
  obtain b where b: "b \<in> live bs" "span (initrd_files st) (108 * length fs) \<subseteq> payload b"
    using own nz n by (auto simp: index_owned_def)
  have "108 * length fs \<le> 4294967295"
  proof (rule ccontr)
    assume "\<not> ?thesis"
    then have "addr b \<in> span (initrd_files st) (108 * length fs)"
      using unat_less_2p32 [of "addr b - initrd_files st"] by (simp add: span_def)
    then have "addr b \<in> payload b" using b(2) by blast
    then show False using live_ok [OF inv b(1)] payload_nowrap [of b "addr b"] by simp
  qed
  then show ?thesis using file_entry_span [OF i, of "initrd_files st"] b by blast
qed

lemma alive_index_within:
  assumes a: "alive lay W st fs m s" and i: "i < length fs"
  shows "span (file_entry (initrd_files st) (of_nat i)) 108 \<subseteq> W"
proof -
  obtain bs where bs: "heap_inv (kheap (mk s)) bs" "managed (hpmm (kheap (mk s))) bs \<subseteq> W" "index_owned st bs"
    using a by (auto simp: alive_def)
  obtain b where b: "b \<in> live bs" "span (file_entry (initrd_files st) (of_nat i)) 108 \<subseteq> payload b"
    using index_within [OF _ bs(3,1) i, of "mmem s"] a by (auto simp: alive_def)
  have "b \<in> set bs" using b(1) live_subset by blast
  then have "extent b \<subseteq> W" using bs(2) by (auto simp: managed_def)
  then show ?thesis using b(2) live_ok [OF bs(1) b(1)] by blast
qed

lemma alive_calm:
  assumes a: "alive lay W st fs m s" and c: "calm (stack lay) s s'"
  shows "alive lay W st fs m s'"
proof -
  have si: "site lay W (initrd_base st) fs m" using a by (simp add: alive_def)
  have k: "kinitrd (mk s') = kinitrd (mk s)" "kkbd (mk s') = kkbd (mk s)" "hpmm (kheap (mk s')) = hpmm (kheap (mk s))"
    "heap_head (kheap (mk s')) = heap_head (kheap (mk s))" "current_drive s' = current_drive s"
    and mem: "\<And>x. x \<notin> stack lay \<Longrightarrow> mmem s' x = mmem s x" and fd: "fds_ok (mk s')"
    using c a by (auto simp: calm_def env_kept_def same_host_def alive_def)
  obtain bs where bs: "heap_inv (kheap (mk s)) bs" "managed (hpmm (kheap (mk s))) bs \<subseteq> W" "index_owned (kinitrd (mk s)) bs"
    using a by (auto simp: alive_def)
  have ix: "indexed (mmem s) (kinitrd (mk s)) fs" using a by (simp add: alive_def)
  have W: "mmem s' x = mmem s x" if "x \<in> W" for x using that mem si by (auto simp: site_def)
  have ext: "extent b \<subseteq> W" if "b \<in> set bs" for b using that bs(2) by (auto simp: managed_def)
  have "heap_inv (kheap (mk s')) bs"
  proof -
    have "hmem (kheap (mk s')) x = hmem (kheap (mk s)) x" if "b \<in> set bs" "x \<in> header b" for b x
      using W [of x] ext [OF that(1)] that(2) header_extent [of b] by (auto simp: mmem_def kmem_def)
    then show ?thesis using bs(1) k hseg_cong [of "hmem (kheap (mk s))" _ bs 0 "hmem (kheap (mk s'))"] by (simp add: heap_inv_def)
  qed
  moreover have "indexed (mmem s') (kinitrd (mk s)) fs"
  proof (rule indexed_cong [OF ix])
    fix i x assume "i < length fs" and "x \<in> span (file_entry (initrd_files (kinitrd (mk s))) (of_nat i)) 108"
    then show "mmem s' x = mmem s x" using alive_index_within [OF a] W a by (auto simp: alive_def)
  qed
  ultimately show ?thesis using a bs(2,3) k mem fd by (auto simp: alive_def)
qed

text \<open>A step that only works on the heap.\<close>

lemma alive_heap:
  assumes a: "alive lay W st fs m s" and k: "\<And>bs. heap_inv (kheap (mk s)) bs \<Longrightarrow> \<exists>bs'. kept (kheap (mk s)) bs h' bs'"
  shows "alive lay W st fs m (s\<lparr>mk := (mk s)\<lparr>kheap := h'\<rparr>\<rparr>)" (is "alive _ _ _ _ _ ?s'")
proof -
  obtain bs where bs: "heap_inv (kheap (mk s)) bs" "managed (hpmm (kheap (mk s))) bs \<subseteq> W" "index_owned (kinitrd (mk s)) bs"
    using a by (auto simp: alive_def)
  obtain bs' where k: "heap_inv h' bs'" "heap_frame (kheap (mk s)) bs h' bs'" "live bs \<subseteq> live bs'"
    "\<forall>c \<in> live bs. \<forall>x \<in> payload c. hmem h' x = hmem (kheap (mk s)) x" using k [OF bs(1)] by (auto simp: kept_def)
  have ix: "indexed (mmem s) (kinitrd (mk s)) fs" using a by (simp add: alive_def)
  have m': "mmem ?s' = hmem h'" and m: "mmem s = hmem (kheap (mk s))" by (simp_all add: mmem_def kmem_def)
  have "indexed (mmem ?s') (kinitrd (mk s)) fs"
    by (rule indexed_cong [OF ix]) (use index_within [OF ix bs(3,1)] k(4) in \<open>fastforce simp: m m'\<close>)
  moreover have "index_owned (kinitrd (mk s)) bs'" using bs(3) k(3) by (auto simp: index_owned_def)
  moreover have "managed (hpmm h') bs' \<subseteq> W" "\<And>x. x \<notin> W \<Longrightarrow> hmem h' x = mmem s x"
    using k(2) bs(2) by (auto simp: heap_frame_def m)
  ultimately show ?thesis using a k(1) fds_ok_cong [of "mk ?s'" "mk s"] by (auto simp: alive_def m')
qed

section \<open>System calls\<close>

definition kcalm :: "u32 set \<Rightarrow> kernel \<Rightarrow> kernel \<Rightarrow> bool" where
  "kcalm B k k' \<longleftrightarrow> (\<forall>x. x \<notin> B \<longrightarrow> kmem k' x = kmem k x) \<and> kinitrd k' = kinitrd k \<and> kkbd k' = kkbd k
     \<and> hpmm (kheap k') = hpmm (kheap k) \<and> heap_head (kheap k') = heap_head (kheap k) \<and> (fds_ok k \<longrightarrow> fds_ok k')"

lemma kcalm_refl: "kcalm B k k"
  by (simp add: kcalm_def)

lemma calm_kernel: "kcalm B (mk s) k' \<Longrightarrow> calm B s (s\<lparr>mk := k', mregs := regs\<rparr>)"
  by (simp add: kcalm_def calm_def env_kept_def same_host_def mmem_def)

lemma sys_leads:
  assumes "sys_result s k r" and "leads k (\<lambda>(v, k'). kcalm B (mk s) k' \<and> R v (kmem k'))"
  shows "leads r (\<lambda>(v, s'). calm B s s' \<and> R v (mmem s'))"
  using assms calm_kernel [of B s] by (auto simp: leads_def sys_result_def mmem_def)

lemma vfs_read_frame:
  assumes "vfs_read (Some f) buffer n m = (k, f', m')" and x: "x \<notin> span buffer (unat n)"
  shows "m' x = m x"
proof -
  have step: "(for_u32 0 j (\<lambda>i m. m(buffer + i := m (vdata f + (vposition f + i)))) m) x = m x" if "j \<le> n" for j
  proof (rule for_u32_invariant [where P = "\<lambda>_ t. t x = m x"])
    fix i t assume "i < j" "t x = m x"
    moreover have "buffer + i \<noteq> x" using x \<open>i < j\<close> that span_offset [of i "unat n" buffer] by (auto simp: word_less_nat_alt word_le_nat_alt)
    ultimately show "(t(buffer + i := t (vdata f + (vposition f + i)))) x = m x" by simp
  qed simp_all
  show ?thesis using assms(1) step by (auto simp: vfs_read_def Let_def split: if_splits)
qed

lemma copy_loop_frame:
  assumes "i < len" and "x \<notin> span dst (unat len)"
  shows "fst (copy_cstr_loop dst len src i m) < len \<and> snd (copy_cstr_loop dst len src i m) x = m x"
  using assms
proof (induction dst len src i m rule: copy_cstr_loop.induct)
  case (1 dst len src i m)
  have "dst + i \<noteq> x" using "1.prems" span_offset [of i "unat len" dst] by (auto simp: word_less_nat_alt)
  then have "(m(dst + i := m (src + i))) x = m x" by simp
  then show ?case using "1.IH" "1.prems" unfolding copy_cstr_loop.simps [of dst len src i m]
    by (simp del: fun_upd_apply cong: if_cong)
qed

lemma copy_user_frame: "x \<notin> span dst (unat len) \<Longrightarrow> snd (copy_cstr_to_user dst len src m) x = m x"
  using copy_loop_frame [of 0 len x dst src m] span_offset [of _ "unat len" dst]
  by (auto simp: copy_cstr_to_user_def Let_def unat_gt_0 word_less_nat_alt split: prod.split)

text \<open>Each call, seen from the kernel.\<close>

lemma sys_write_calm: "kcalm B k (snd (sys_write fd buffer len k))"
  by (simp add: sys_write_def kcalm_def kmem_def fds_ok_def)

lemma sys_close_calm: "kcalm B k (snd (sys_close fd k))"
  using sys_close_fds [of k fd] by (auto simp: sys_close_eq kcalm_def set_fd_def kmem_def)

lemma sys_seek_calm: "kcalm B k (snd (sys_seek fd offset whence k))"
  using sys_seek_fds [of k fd offset whence] by (auto simp: sys_seek_eq kcalm_def set_fd_def kmem_def split: prod.split option.split)

lemma sys_open_calm:
  assumes "vfs_open (kmem k) (kinitrd k) path = Some f"
  shows "leads (sys_open path k) (\<lambda>(v, k'). v \<noteq> 0 \<and> kcalm B k k' \<and> kmem k' = kmem k)"
proof -
  obtain v k' where r: "sys_open path k = Some (v, k')" "v \<noteq> 0 \<and> (k' = k \<or> (\<exists>i. k' = k\<lparr>fd_table := i\<rparr>))"
  proof (cases "path = 0 \<or> vvalid f = 0")
    case True
    then show thesis using assms that [of "- 1" k] by (auto simp: sys_open_def)
  next
    case False
    then obtain r where r: "sys_open path k = Some r" "(r = (- 1, k) \<or> (\<exists>i < 8. r = (of_nat (3 + i), k\<lparr>fd_table := (fd_table k)[i := \<lparr>fd_file = f, fd_used = 1\<rparr>]\<rparr>)))"
      using sys_open_spec [of path k f] assms by blast
    have "(of_nat (3 + i) :: u32) \<noteq> 0" if "i < 8" for i :: nat
      using that by (simp add: word_unat_eq_iff unat_of_nat del: of_nat_add)
    then show thesis using r that by auto
  qed
  then have "kcalm B k k' \<and> kmem k' = kmem k" using sys_open_fds [of k path v k'] by (auto simp: kcalm_def kmem_def)
  then show ?thesis using r by (simp add: leads_def)
qed

lemma sys_read_calm:
  assumes "buffer \<noteq> 0" "len \<noteq> 0" "fd \<noteq> 0"
  shows "leads (sys_read fd buffer len k) (\<lambda>(v, k'). kcalm (span buffer (unat len)) k k')"
proof -
  obtain v k' where r: "sys_read fd buffer len k = Some (v, k')" using sys_read_eq [OF assms] by fastforce
  moreover have "kcalm (span buffer (unat len)) k k'"
    using r sys_read_fds [of k fd buffer len v k'] vfs_read_frame [of "fd_file (fd_at k (fd - 3))" buffer len "kmem k"]
    unfolding sys_read_eq [OF assms]
    by (auto simp: kcalm_def set_fd_def set_kmem_def kmem_def split: if_splits prod.splits option.splits)
  ultimately show ?thesis by (simp add: leads_def)
qed

lemma copy_out_calm: "kcalm (span buffer (unat len)) k (snd (copy_out buffer len name k))"
  using copy_user_frame [of _ buffer len name "kmem k"] copy_out_fds [of buffer len name k] fds_ok_cong [of "snd (copy_out buffer len name k)" k]
  by (auto simp: copy_out_def kcalm_def set_kmem_def kmem_def split: prod.splits)

end
