(* ===== verification/Boot_Diag.thy ===== *)
theory Boot_Diag
  imports Boot_Inv
begin

text \<open>The diagnostics of the boot sequence: each returns and keeps the invariant of the boot.\<close>

section \<open>Steps\<close>

lemma alive_io: "alive lay W st fs m (on_io f s) \<longleftrightarrow> alive lay W st fs m s"
  using fds_ok_cong [of "mk (on_io f s)" "mk s"] by (simp add: alive_def)

lemmas alive_out = alive_io say_def sayln_def putc_def print_uint_kmain_def field_def

text \<open>Strings that stay where they are: the literals, and the names in the index.\<close>

lemma alive_literal:
  assumes a: "alive lay W st fs m s" and l: "(p, cs) \<in> set (boot_lits lay)"
  shows "p \<noteq> 0" "str_at (mmem s) p cs"
proof -
  have l: "p \<noteq> 0 \<and> str_at m p cs \<and> span p (length cs + 1) \<inter> (stack lay \<union> W) = {}"
    using site_literal [of lay W "initrd_base st" fs m p cs] a l by (simp add: alive_def)
  then show "p \<noteq> 0" by simp
  have "mmem s x = m x" if "x \<in> span p (length cs + 1)" for x using a l that by (auto simp: alive_def)
  then show "str_at (mmem s) p cs" using l str_at_cong [of m p cs "mmem s"] by simp
qed

lemma alive_name:
  assumes "alive lay W st fs m s" and "initrd_get_file_name st i \<noteq> 0"
  shows "\<exists>cs. str_at (mmem s) (initrd_get_file_name st i) cs \<and> span (initrd_get_file_name st i) (length cs + 1) \<subseteq> W
    \<and> unat i < length fs"
proof -
  have ix: "indexed (mmem s) st fs" using assms(1) by (simp add: alive_def)
  have i: "unat i < length fs" and s: "str_at (mmem s) (initrd_get_file_name st i) (fname (fs ! unat i))"
    using initrd_get_file_name_eq [OF ix, of i] assms(2) by (auto split: if_splits)
  have e: "initrd_get_file_name st i = file_entry (initrd_files st) (of_nat (unat i))"
    using assms(2) by (simp add: initrd_get_file_name_def split: if_splits)
  have "span (file_entry (initrd_files st) (of_nat (unat i))) 108 \<subseteq> W" by (rule alive_index_within [OF assms(1) i])
  moreover have "span (initrd_get_file_name st i) (length (fname (fs ! unat i)) + 1) \<subseteq> span (initrd_get_file_name st i) 108"
    by (rule span_mono) (simp add: fname_def)
  ultimately show ?thesis using s i e by auto
qed

section \<open>System calls from the diagnostics\<close>

lemma alive_sys:
  assumes a: "alive lay W st fs m s" and r: "sys_result s k r"
    and k: "leads k (\<lambda>(v, k'). kcalm B (mk s) k' \<and> R v (kmem k'))" and B: "B \<subseteq> stack lay"
  shows "leads r (\<lambda>(v, s'). alive lay W st fs m s' \<and> R v (mmem s'))"
proof (rule leads_mono [OF sys_leads [OF r k]])
  fix p assume "case p of (v, s') \<Rightarrow> calm B s s' \<and> R v (mmem s')"
  then show "case p of (v, s') \<Rightarrow> alive lay W st fs m s' \<and> R v (mmem s')"
    using alive_calm [OF a] B by (auto simp: calm_def)
qed

text \<open>A copied name: the result is -1, or the buffer holds a string.\<close>

lemma copy_out_string:
  assumes "str_at (kmem k) name cs" "name \<noteq> 0" "buffer \<noteq> 0" "len \<noteq> 0"
    and "span buffer (unat len) \<inter> span name (length cs + 1) = {}"
  shows "\<exists>ds. str_at (kmem (snd (copy_out buffer len name k))) buffer ds"
  using copy_cstr_to_user_spec [OF assms(1,3,2,4,5)] by (auto simp: copy_out_def)

lemma step_name:
  assumes a: "alive lay W st fs m s"
    and b: "buffer \<noteq> 0" "len \<noteq> 0" "span buffer (unat len) \<subseteq> stack lay"
  shows "leads (syscall3 SYS_FILE_NAME i buffer len s)
    (\<lambda>(v, s'). alive lay W st fs m s' \<and> (v \<noteq> - 1 \<longrightarrow> (\<exists>cs. str_at (mmem s') buffer cs)))"
proof (rule alive_sys [OF a syscall_name _ b(3)])
  let ?n = "initrd_get_file_name (kinitrd (mk s)) i"
  have st: "kinitrd (mk s) = st" using a by (simp add: alive_def)
  have apart: "\<exists>ds. str_at (kmem (snd (copy_out buffer len ?n (mk s)))) buffer ds" if nz: "?n \<noteq> 0"
  proof -
    obtain cs where "str_at (kmem (mk s)) ?n cs" "span ?n (length cs + 1) \<subseteq> W"
      using alive_name [OF a, of i] nz unfolding st mmem_def by blast
    moreover have "stack lay \<inter> W = {}" using a by (simp add: alive_def site_def)
    ultimately show ?thesis using copy_out_string [OF _ nz b(1,2)] b(3) by blast
  qed
  show "leads (Some (sys_file_name i buffer len (mk s))) (\<lambda>(v, k'). kcalm (span buffer (unat len)) (mk s) k'
      \<and> (v \<noteq> - 1 \<longrightarrow> (\<exists>cs. str_at (kmem k') buffer cs)))"
    using copy_out_calm [of buffer len "mk s" ?n] apart
    by (auto simp: leads_def sys_file_name_def Let_def kcalm_refl split: prod.split)
qed

lemma step_name_prefix:
  assumes a: "alive lay W st fs m s" and p: "(pre, ps) \<in> set (boot_lits lay)"
    and b: "buffer \<noteq> 0" "len \<noteq> 0" "span buffer (unat len) \<subseteq> stack lay"
  shows "leads (syscall4 SYS_FILE_NAME_PREFIX pre i buffer len s)
    (\<lambda>(v, s'). alive lay W st fs m s' \<and> (v \<noteq> - 1 \<longrightarrow> (\<exists>cs. str_at (mmem s') buffer cs)))"
proof (rule alive_sys [OF a syscall_name_prefix _ b(3)])
  have st: "kinitrd (mk s) = st" "indexed (mmem s) st fs" using a by (simp_all add: alive_def)
  note pl = alive_literal [OF a p]
  obtain n where n: "initrd_get_file_name_by_prefix (mmem s) st pre i = Some n"
    using initrd_get_file_name_by_prefix_eq [OF st(2) pl(2,1), of i] by blast
  have apart: "\<exists>ds. str_at (kmem (snd (copy_out buffer len n (mk s)))) buffer ds" if nz: "n \<noteq> 0"
  proof -
    obtain j where j: "n = file_entry (initrd_files st) j" "j < initrd_files_count st"
      using name_by_prefix_entry [OF n nz] by blast
    then have "0 < length fs" using st(2) by (auto simp: indexed_def word_less_nat_alt)
    then have e: "n = initrd_get_file_name st j" using j st(2) by (auto simp: initrd_get_file_name_def indexed_def)
    obtain cs where "str_at (kmem (mk s)) n cs" "span n (length cs + 1) \<subseteq> W"
      using alive_name [OF a, of j] nz unfolding e mmem_def by blast
    moreover have "stack lay \<inter> W = {}" using a by (simp add: alive_def site_def)
    ultimately show ?thesis using copy_out_string [OF _ nz b(1,2)] b(3) by blast
  qed
  show "leads (sys_file_name_prefix pre i buffer len (mk s)) (\<lambda>(v, k'). kcalm (span buffer (unat len)) (mk s) k'
      \<and> (v \<noteq> - 1 \<longrightarrow> (\<exists>cs. str_at (kmem k') buffer cs)))"
    using copy_out_calm [of buffer len "mk s" n] apart n st(1)
    by (auto simp: leads_def sys_file_name_prefix_def kcalm_refl mmem_def split: prod.split)
qed

lemma alive_sys_plain:
  assumes "alive lay W st fs m s" and "sys_result s k r"
    and "leads k (\<lambda>(v, k'). kcalm B (mk s) k')" and "B \<subseteq> stack lay"
  shows "leads r (\<lambda>(v, s'). alive lay W st fs m s')"
  using alive_sys [OF assms(1,2), of B "\<lambda>_ _. True"] assms(3,4) by simp

lemma plain_steps:
  assumes a: "alive lay W st fs m s"
  shows step_write: "leads (syscall3 SYS_WRITE fd buffer len s) (\<lambda>(v, s'). alive lay W st fs m s')"
    and step_close: "leads (syscall1 SYS_CLOSE fd s) (\<lambda>(v, s'). alive lay W st fs m s')"
    and step_seek: "leads (syscall3 SYS_SEEK fd offset whence s) (\<lambda>(v, s'). alive lay W st fs m s')"
    and step_count: "leads (syscall0 SYS_FILE_COUNT s) (\<lambda>(v, s'). alive lay W st fs m s')"
    and step_size: "leads (syscall1 SYS_FILE_SIZE i s) (\<lambda>(v, s'). alive lay W st fs m s' \<and> mmem s' = mmem s)"
proof -
  note plain = alive_sys_plain [OF a _ _ empty_subsetI]
  show "leads (syscall3 SYS_WRITE fd buffer len s) (\<lambda>(v, s'). alive lay W st fs m s')"
    using plain [OF syscall_write] sys_write_calm by (metis case_prod_unfold leads_Some)
  show "leads (syscall1 SYS_CLOSE fd s) (\<lambda>(v, s'). alive lay W st fs m s')"
    using plain [OF syscall_close] sys_close_calm by (metis case_prod_unfold leads_Some)
  show "leads (syscall3 SYS_SEEK fd offset whence s) (\<lambda>(v, s'). alive lay W st fs m s')"
    using plain [OF syscall_seek] sys_seek_calm by (metis case_prod_unfold leads_Some)
  show "leads (syscall0 SYS_FILE_COUNT s) (\<lambda>(v, s'). alive lay W st fs m s')"
    using plain [OF syscall_count] by (simp add: leads_def kcalm_refl)
  show "leads (syscall1 SYS_FILE_SIZE i s) (\<lambda>(v, s'). alive lay W st fs m s' \<and> mmem s' = mmem s)"
    by (rule alive_sys [OF a syscall_size, where R = "\<lambda>_ m'. m' = mmem s"]) (auto simp: leads_def kcalm_refl mmem_def)
qed

lemma step_read:
  assumes a: "alive lay W st fs m s" and b: "buffer \<noteq> 0" "len \<noteq> 0" "span buffer (unat len) \<subseteq> stack lay" and fd: "fd \<noteq> 0"
  shows "leads (syscall3 SYS_READ fd buffer len s) (\<lambda>(v, s'). alive lay W st fs m s')"
  by (rule alive_sys_plain [OF a syscall_read sys_read_calm [OF b(1,2) fd] b(3)])

lemma alive_vfs_open:
  assumes a: "alive lay W st fs m s" and p: "str_at (mmem s) path cs" "path \<noteq> 0"
  shows "vfs_open (mmem s) st path = Some (case lookup fs cs of None \<Rightarrow> vfs_closed
    | Some t \<Rightarrow> \<lparr>vdata = initrd_base st + of_nat (toff t), vsize = of_nat (tsize t), vposition = 0, vvalid = 1\<rparr>)"
    and "lookup fs cs = Some t \<Longrightarrow> t \<in> set fs"
proof -
  show mem: "lookup fs cs = Some t \<Longrightarrow> t \<in> set fs" for t by (auto simp: lookup_def find_Some_iff)
  have "\<forall>t \<in> set fs. initrd_base st + of_nat (toff t) \<noteq> 0" using a by (simp add: alive_def site_def)
  then show "vfs_open (mmem s) st path = Some (case lookup fs cs of None \<Rightarrow> vfs_closed
    | Some t \<Rightarrow> \<lparr>vdata = initrd_base st + of_nat (toff t), vsize = of_nat (tsize t), vposition = 0, vvalid = 1\<rparr>)"
    using a p mem by (intro vfs_open_spec) (auto simp: alive_def)
qed

lemma step_open:
  assumes a: "alive lay W st fs m s" and p: "str_at (mmem s) path cs" "path \<noteq> 0"
  shows "leads (syscall1 SYS_OPEN path s) (\<lambda>(v, s'). alive lay W st fs m s' \<and> v \<noteq> 0)"
proof -
  have "kinitrd (mk s) = st" using a by (simp add: alive_def)
  then have o1: "\<exists>f. vfs_open (kmem (mk s)) (kinitrd (mk s)) path = Some f" using alive_vfs_open(1) [OF a p] by (simp add: mmem_def)
  then have "leads (sys_open path (mk s)) (\<lambda>(v, k'). kcalm {} (mk s) k' \<and> v \<noteq> 0)"
    using sys_open_calm [of "mk s" path _ "{}"] by (auto simp: leads_def)
  then show ?thesis by (rule alive_sys [OF a syscall_open, where R = "\<lambda>v _. v \<noteq> 0"]) simp
qed

lemma step_size_by_name:
  assumes a: "alive lay W st fs m s" and p: "str_at (mmem s) name cs" "name \<noteq> 0"
  shows "leads (syscall1 SYS_FILE_SIZE_BY_NAME name s) (\<lambda>(v, s'). alive lay W st fs m s')"
proof -
  have "indexed (kmem (mk s)) (kinitrd (mk s)) fs" using a by (simp add: alive_def mmem_def)
  then have "\<exists>v. sys_file_size_by_name name (mk s) = Some v"
    using initrd_get_file_size_by_name_eq p by (fastforce simp: sys_file_size_by_name_def mmem_def split: option.split)
  then show ?thesis
    by (intro alive_sys_plain [OF a syscall_size_by_name _ empty_subsetI]) (auto simp: leads_def with_state_def kcalm_refl)
qed

lemma step_count_prefix:
  assumes a: "alive lay W st fs m s" and p: "(pre, ps) \<in> set (boot_lits lay)"
  shows "leads (syscall1 SYS_FILE_COUNT_PREFIX pre s) (\<lambda>(v, s'). alive lay W st fs m s')"
proof -
  have ix: "indexed (kmem (mk s)) (kinitrd (mk s)) fs" using a by (simp add: alive_def mmem_def)
  have "\<exists>v. sys_file_count_prefix pre (mk s) = Some v"
    using initrd_count_prefix_eq [OF ix] alive_literal [OF a p] by (simp add: sys_file_count_prefix_def mmem_def)
  then show ?thesis
    by (intro alive_sys_plain [OF a syscall_count_prefix _ empty_subsetI]) (auto simp: leads_def with_state_def kcalm_refl)
qed

section \<open>The diagnostics\<close>

lemma stack_spans:
  "span (buffer_a_at lay) 8 \<subseteq> stack lay" "span (buffer_b_at lay) 8 \<subseteq> stack lay" "span (preview_at lay) 32 \<subseteq> stack lay"
  "span (name_buf_at lay) 64 \<subseteq> stack lay" "span (pref_buf_at lay) 64 \<subseteq> stack lay"
  "span (demo_name_at lay) 64 \<subseteq> stack lay" "span (first_any_at lay) 64 \<subseteq> stack lay"
  using span_mono [of 8 9 "buffer_a_at lay"] span_mono [of 8 9 "buffer_b_at lay"] span_mono [of 32 33 "preview_at lay"]
  by (auto simp: stack_def)

lemma alive_buffers:
  assumes "alive lay W st fs m s"
  shows "preview_at lay \<noteq> 0" "buffer_a_at lay \<noteq> 0" "buffer_b_at lay \<noteq> 0" "name_buf_at lay \<noteq> 0" "pref_buf_at lay \<noteq> 0"
    "demo_name_at lay \<noteq> 0" "first_any_at lay \<noteq> 0"
  using assms by (auto simp: alive_def site_def)

lemma alive_show_bytes: "alive lay W st fs m s \<Longrightarrow> alive lay W st fs m (show_bytes buffer n s)"
  unfolding show_bytes_def by (rule for_u32_preserves) (simp_all add: alive_out)

lemma print_ptr_leads:
  assumes "alive lay W st fs m s" and "str_at (mmem s) p cs"
  shows "leads (print_ptr p s) (alive lay W st fs m)"
  using assms load_cstr_eq by (simp add: print_ptr_def leads_def alive_out)

lemma print_name_leads:
  assumes "alive lay W st fs m s" and "v \<noteq> - 1 \<longrightarrow> (\<exists>cs. str_at (mmem s) p cs)"
  shows "leads (if v = - 1 then Some (say t s) else print_ptr p s) (alive lay W st fs m)"
  using assms print_ptr_leads [OF assms(1)] by (auto simp: alive_out leads_def)

lemma demo_item_returns:
  assumes a: "alive lay W st fs m s"
  shows "leads (demo_item lay i s) (alive lay W st fs m)"
proof -
  let ?A = "alive lay W st fs m" and ?b = "demo_name_at lay"
  have b: "?b \<noteq> 0" "(64 :: u32) \<noteq> 0" "span ?b (unat (64 :: u32)) \<subseteq> stack lay" using alive_buffers [OF a] stack_spans(6) by auto
  show ?thesis unfolding demo_item_def
  proof (rule leads_bind_pair [OF step_name [OF a b]])
    fix v s1
    let ?S = "\<lambda>t. ?A t \<and> (v \<noteq> - 1 \<longrightarrow> (\<exists>cs. str_at (mmem t) ?b cs))"
    assume s1: "?S s1"
    then have "?A s1" by simp
    show "leads (do { (file_size, s) \<leftarrow> syscall1 SYS_FILE_SIZE i s1; let s = say (lit '': '') (field '' - '' i s);
        s \<leftarrow> (if v = - 1 then Some (say (lit ''<invalid>'') s) else print_ptr ?b s);
        let s = field '' ('' file_size s; let s = say (lit '')'') s; Some (putc chr_nl s) }) ?A"
      apply (rule leads_bind_pair [OF step_size [OF \<open>?A s1\<close>]])
      apply (rule leads_let [where R = ?S], use s1 in \<open>simp add: alive_out out_defs field_def\<close>)
      apply (rule leads_bind [where R = ?A], rule print_name_leads, simp, simp)
      apply (rule leads_let [where R = ?A], simp add: alive_out)+
      by (rule leads_Some, simp add: alive_out)
  qed
qed

lemma listing_demo_returns:
  assumes a: "alive lay W st fs m s"
  shows "leads (run_fs_listing_demo lay s) (alive lay W st fs m)"
proof -
  let ?A = "alive lay W st fs m" and ?b = "first_any_at lay"
  have b: "?b \<noteq> 0" "(64 :: u32) \<noteq> 0" "span ?b (unat (64 :: u32)) \<subseteq> stack lay" using alive_buffers [OF a] stack_spans(7) by auto
  have items: "leads (each_u32 n (demo_item lay) t) ?A" if "?A t" for n t
    using each_u32_invariant [of "\<lambda>_. ?A" t n "demo_item lay"] that demo_item_returns unfolding leads_def by blast
  have lits: "(prefix_bin_lit lay, lit ''bin/'') \<in> set (boot_lits lay)" "(prefix_etc_lit lay, lit ''etc/'') \<in> set (boot_lits lay)"
    "(prefix_all_lit lay, []) \<in> set (boot_lits lay)" by (simp_all add: boot_lits_def)
  have first: "leads (do { (any_len, s) \<leftarrow> syscall4 SYS_FILE_NAME_PREFIX (prefix_all_lit lay) 0 ?b 64 t;
      let s = say (lit ''LS demo first(any)='') s;
      s \<leftarrow> (if any_len = - 1 then Some (say (lit ''<invalid>'') s) else print_ptr ?b s); Some (putc chr_nl s) }) ?A"
    if t: "?A t" for t
  proof (rule leads_bind_pair [OF step_name_prefix [OF t lits(3) b]])
    fix v s1
    let ?S = "\<lambda>t. ?A t \<and> (v \<noteq> - 1 \<longrightarrow> (\<exists>cs. str_at (mmem t) ?b cs))"
    assume s1: "?S s1"
    show "leads (let s = say (lit ''LS demo first(any)='') s1 in do { s \<leftarrow> (if v = - 1 then Some (say (lit ''<invalid>'') s)
        else print_ptr ?b s); Some (putc chr_nl s) }) ?A"
      apply (rule leads_let [where R = ?S], use s1 in \<open>simp add: alive_out out_defs\<close>)
      apply (rule leads_bind [where R = ?A], rule print_name_leads, simp, simp)
      by (rule leads_Some, simp add: alive_out)
  qed
  show ?thesis unfolding run_fs_listing_demo_def
    apply (rule leads_if, rule leads_Some, simp add: alive_out a)
    apply (rule leads_bind_pair [OF step_count [OF a]])
    apply (rule leads_let [where R = "\<lambda>_. True"], simp)
    apply (rule leads_let [where R = ?A], simp add: alive_out)
    apply (rule leads_bind [where R = ?A], simp add: items)
    apply (rule leads_bind_pair [OF step_count_prefix [OF _ lits(1)]], assumption)
    apply (rule leads_bind_pair [OF step_count_prefix [OF _ lits(2)]], assumption)
    apply (rule leads_let [where R = ?A], simp add: alive_out)
    by (rule leads_if, simp add: first, rule leads_Some, simp)
qed

lemma buffers_match_leads: "leads (buffers_match m a b na nb) (\<lambda>_. True)"
proof -
  obtain r where "search_u32 0 (if na < nb then na else nb) (\<lambda>i. Some (m (a + i) \<noteq> m (b + i))) = Some r"
    using search_u32_total [of 0 "if na < nb then na else nb" "\<lambda>i. Some (m (a + i) \<noteq> m (b + i))" "\<lambda>i. m (a + i) \<noteq> m (b + i)"] by blast
  then show ?thesis by (simp add: buffers_match_def leads_def)
qed

lemma alive_index: "alive lay W st fs m s \<Longrightarrow> kinitrd (mk s) = st"
  by (simp add: alive_def)

lemma syscall_test_returns:
  assumes a: "alive lay W st fs m s"
  shows "leads (run_syscall_smoke_test lay s) (alive lay W st fs m)"
proof -
  let ?A = "alive lay W st fs m" and ?n = "initrd_get_file_name st 0"
  note bf = alive_buffers [OF a] and sp = stack_spans [of lay]
  have all: "(prefix_all_lit lay, []) \<in> set (boot_lits lay)" by (simp add: boot_lits_def)
  have name: "\<exists>cs. str_at (mmem t) ?n cs" if "?A t" "?n \<noteq> 0" for t using alive_name [OF that] by blast
  have opn: "leads (syscall1 SYS_OPEN ?n t) (\<lambda>(v, s'). ?A s' \<and> v \<noteq> 0)" if "?A t" "?n \<noteq> 0" for t
    using name [OF that] step_open [OF that(1) _ that(2)] by blast
  have szn: "leads (syscall1 SYS_FILE_SIZE_BY_NAME ?n t) (\<lambda>(v, s'). ?A s')" if "?A t" "?n \<noteq> 0" for t
    using name [OF that] step_size_by_name [OF that(1) _ that(2)] by blast
  have nz: "(8 :: u32) \<noteq> 0" "(64 :: u32) \<noteq> 0" "unat (8 :: u32) = 8" "unat (64 :: u32) = 64" by simp_all
  show ?thesis unfolding run_syscall_smoke_test_def
    apply (rule leads_bind_pair [OF step_write [OF a]])
    apply (rule leads_let [where R = ?A], simp add: alive_out)
    apply (rule leads_let [where R = "\<lambda>x. x = st"], simp add: alive_index)
    apply (rule leads_if)
     prefer 2 apply (rule leads_Some, simp)
    apply (rule leads_let [where R = "\<lambda>x. x = ?n"], simp)
    apply (rule leads_if, rule leads_Some, simp)
    apply (rule leads_bind_pair [where R = "\<lambda>v s'. ?A s' \<and> v \<noteq> 0"], simp add: opn)
    apply (rule leads_bind_pair [where R = "\<lambda>_. ?A"], rule step_read, simp, simp add: bf, simp, simp add: sp, simp)
    apply (rule leads_bind_pair [where R = "\<lambda>_. ?A"], simp add: step_seek)
    apply (rule leads_bind_pair [where R = "\<lambda>_. ?A"], rule step_read, simp, simp add: bf, simp, simp add: sp, simp)
    apply (rule leads_bind_pair [where R = "\<lambda>_. ?A"], simp add: step_close)
    apply (rule leads_bind_pair [where R = "\<lambda>_. ?A"], simp add: step_count)
    apply (rule leads_bind_pair [where R = "\<lambda>_. ?A"], rule leads_mono [OF step_name], assumption, simp add: bf, simp, simp add: sp, force)
    apply (rule leads_bind_pair [where R = "\<lambda>_. ?A"], rule leads_mono [OF step_size], assumption, force)
    apply (rule leads_bind_pair [where R = "\<lambda>_. ?A"], simp add: szn)
    apply (rule leads_bind_pair [where R = "\<lambda>_. ?A"], simp add: step_count_prefix [OF _ all])
    apply (rule leads_bind_pair [where R = "\<lambda>_. ?A"], rule leads_mono [OF step_name_prefix [OF _ all]], assumption, simp add: bf, simp, simp add: sp, force)
    apply (rule leads_bind [OF buffers_match_leads])
    apply (rule leads_let [where R = ?A], simp add: alive_out)+
    by (rule leads_Some, simp add: alive_out alive_show_bytes)
qed

lemma calm_set_mem: "(\<And>x. x \<notin> B \<Longrightarrow> m' x = mmem s x) \<Longrightarrow> calm B s (set_mmem m' s)"
  using fds_ok_cong [of "mk (set_mmem m' s)" "mk s"]
  by (auto simp: calm_def env_kept_def same_host_def set_mmem_def set_kmem_def mmem_def kmem_def)

lemma vfs_test_returns:
  assumes a: "alive lay W st fs m s"
  shows "leads (run_vfs_smoke_test lay s) (alive lay W st fs m)"
proof -
  let ?A = "alive lay W st fs m" and ?n = "initrd_get_file_name st 0"
  have st: "kinitrd (mk s) = st" using alive_index [OF a] .
  have rd: "?A (set_mmem m' s)" if r: "vfs_read (Some f) (preview_at lay) 32 (mmem s) = (n, f', m')" for f n f' m'
    by (rule alive_calm [OF a calm_set_mem]) (use vfs_read_frame [OF r] stack_spans(3) [of lay] in auto)
  show ?thesis
  proof (cases "initrd_is_ready st = 0 \<or> initrd_file_count st = 0 \<or> ?n = 0")
    case True
    then show ?thesis using a by (auto simp: run_vfs_smoke_test_def st Let_def leads_def alive_out)
  next
    case nz: False
    then have "?n \<noteq> 0" by simp
    note name = alive_name [OF _ this]
    obtain cs where cs: "str_at (mmem s) ?n cs" using name [OF a] by blast
    obtain f where f: "vfs_open (mmem s) st ?n = Some f" using alive_vfs_open(1) [OF a cs \<open>?n \<noteq> 0\<close>] by blast
    obtain n f' m' where r: "vfs_read (Some f) (preview_at lay) 32 (mmem s) = (n, f', m')" by (cases "vfs_read (Some f) (preview_at lay) 32 (mmem s)")
    have eq: "run_vfs_smoke_test lay s = (if vvalid f = 0 then Some (sayln (lit ''VFS test: FAIL'') s)
      else do {
        let s = set_mmem m' s; let s = say (lit ''VFS test: OK '') s; s \<leftarrow> print_ptr ?n s; let s = say (lit '' ['') s;
        let s = print_uint_kmain n s; let s = say (lit ''] '') s;
        Some (putc chr_nl (show_bytes (preview_at lay) n s)) })"
      using nz f r by (simp add: run_vfs_smoke_test_def st)
    have pn: "leads (print_ptr ?n t) ?A" if "?A t" for t using name [OF that] print_ptr_leads [OF that] by blast
    show ?thesis unfolding eq
      apply (rule leads_if, rule leads_Some, simp add: alive_out a)
      apply (rule leads_let [where R = ?A], rule rd [OF r])
      apply (rule leads_let [where R = ?A], simp add: alive_out)
      apply (rule leads_bind [where R = ?A], simp add: pn)
      apply (rule leads_let [where R = ?A], simp add: alive_out)+
      by (rule leads_Some, simp add: alive_out alive_show_bytes)
  qed
qed

end
