(* ===== verification/Boot_Elf.thy ===== *)
theory Boot_Elf
  imports Boot_Diag
begin

text \<open>The program loading test of the boot sequence, on the files of the ramdisk.\<close>

section \<open>A file that stays as it was\<close>

lemma elf_ok_same:
  assumes same: "same_file m d sz m'"
  shows "elf_ok m' d sz \<longleftrightarrow> elf_ok m d sz"
proof (cases "52 \<le> unat sz")
  case True
  then have sub: "span d 52 \<subseteq> span d (unat sz)" by (rule span_mono)
  then have eq: "m' x = m x" if "x \<in> span d 52" for x using that same by (auto simp: same_file_def)
  have at: "m' (d + i) = m (d + i)" if "unat i < 52" for i using eq [OF span_offset [OF that]] .
  have "bytes_at m' d 7 = bytes_at m d 7" using span_mono [of 7 52 d] eq by (intro bytes_at_cong) auto
  moreover have "e_version m' d = e_version m d" using field_cong [of d 52 m' m 20] eq by (simp add: e_version_def)
  moreover have "e_machine m' d = e_machine m d" "e_type m' d = e_type m d" "e_phentsize m' d = e_phentsize m d"
    using at [of 16] at [of 17] at [of 18] at [of 19] at [of 42] at [of 43]
    by (simp_all add: e_machine_def e_type_def e_phentsize_def read_u16_def add.assoc)
  ultimately show ?thesis using ehdr_cong [of d m' m] eq by (simp add: elf_ok_def)
qed (simp add: elf_ok_def)

lemma loader_safe_same:
  assumes ok: "elf_ok m d sz" and same: "same_file m d sz m'"
  shows "elf_segments m' d = elf_segments m d" and "loader_safe m d sz \<Longrightarrow> image_ok m' d sz
    \<and> (\<forall>p \<in> set (elf_segments m' d). unat (p_memsz m' p) \<le> 4294967288)"
proof -
  have ph: "phdrs m' d = phdrs m d" using file_ehdr [OF ok same] by (simp add: phdrs_def)
  note f = file_phdr [OF ok same]
  show seg: "elf_segments m' d = elf_segments m d" unfolding elf_segments_def ph
    by (rule filter_cong) (simp_all add: loadable_def f)
  have "elf_ok m' d sz" using ok elf_ok_same [OF same] by simp
  then show "image_ok m' d sz \<and> (\<forall>p \<in> set (elf_segments m' d). unat (p_memsz m' p) \<le> 4294967288)" if "loader_safe m d sz"
    using that ok f segments_phdrs [of _ m d] unfolding loader_safe_def image_ok_def seg elf_validate_eq by simp
qed

section \<open>Loading\<close>

lemma load_image_returns:
  assumes a: "alive lay W st fs m s" and p: "str_at (mmem s) path cs" "path \<noteq> 0"
  shows "leads (load_image path s) (\<lambda>(r, s'). alive lay W st fs m s')"
proof -
  let ?m = "hmem (kheap (mk s))"
  have mm: "mmem s = ?m" by (simp add: mmem_def kmem_def)
  have st: "kinitrd (mk s) = st" using alive_index [OF a] .
  have rejected: "leads (load_image path s) (\<lambda>(r, s'). alive lay W st fs m s')" if "open_image ?m st path = Some None"
    using a that by (simp add: load_image_def on_heap_def st elf_load_image_from_vfs_def leads_def)
  show ?thesis
  proof (cases "lookup fs cs")
    case None
    then have "open_image ?m st path = Some None"
      using alive_vfs_open(1) [OF a p] p(2) by (simp add: open_image_def vfs_closed_def mm)
    then show ?thesis by (rule rejected)
  next
    case (Some t)
    let ?d = "initrd_base st + of_nat (toff t)" and ?sz = "of_nat (tsize t) :: u32"
    have t: "t \<in> set fs" using alive_vfs_open(2) [OF a p Some] .
    then have f: "?d \<noteq> 0" "span ?d (unat ?sz) \<inter> (stack lay \<union> W) = {}" "loader_safe m ?d ?sz"
      using a by (auto simp: alive_def site_def)
    have prog: "program_file ?m st path ?d ?sz"
      using program_file_indexed [of "mmem s" st fs path cs t] a p Some f(1) by (simp add: alive_def mm)
    have same: "same_file m ?d ?sz ?m" using a f(2) by (auto simp: same_file_def alive_def mm)
    show ?thesis
    proof (cases "elf_ok ?m ?d ?sz")
      case False
      then have "open_image ?m st path = Some None" using open_program [OF prog] by simp
      then show ?thesis by (rule rejected)
    next
      case True
      then have ok: "elf_ok m ?d ?sz" using elf_ok_same [OF same] by simp
      note safe = loader_safe_same(2) [OF ok same f(3)]
      obtain bs where bs: "heap_inv (kheap (mk s)) bs" "managed (hpmm (kheap (mk s))) bs \<subseteq> W" using a by (auto simp: alive_def)
      obtain r h' where r: "elf_load_image_from_vfs st path True True True True (kheap (mk s)) = Some (r, h')"
        "\<exists>bs'. kept (kheap (mk s)) bs h' bs'"
        using elf_load_image_spec [OF prog conjunct1 [OF safe] conjunct2 [OF safe] bs(1)] f(2) bs(2) by blast
      have "alive lay W st fs m (s\<lparr>mk := (mk s)\<lparr>kheap := h'\<rparr>\<rparr>)"
        by (rule alive_heap [OF a]) (use r(2) heap_inv_unique [OF bs(1)] in blast)
      then show ?thesis using r(1) by (simp add: load_image_def on_heap_def st leads_def)
    qed
  qed
qed

text \<open>With the two optional stages disabled, the report is output only.\<close>

lemma report_load_leads:
  assumes "alive lay W st fs m s" and "\<not> elf_execute_on_boot cfg" and "\<not> elf_vaddr_load_on_boot cfg"
  shows "leads (report_load cfg call path e l n b s) (alive lay W st fs m)"
  using assms by (simp add: report_load_def leads_def alive_out)

lemma try_file_returns:
  assumes t: "alive lay W st fs m t" and cfg: "\<not> elf_execute_on_boot cfg" "\<not> elf_vaddr_load_on_boot cfg"
  shows "leads (try_file cfg call i t) (case_sum (alive lay W st fs m) (alive lay W st fs m))"
proof (cases "initrd_get_file_name st i = 0")
  case True
  then show ?thesis using t alive_index [OF t] by (simp add: try_file_def leads_def)
next
  case False
  let ?A = "alive lay W st fs m" and ?n = "initrd_get_file_name st i"
  obtain cs where cs: "str_at (mmem t) ?n cs" using alive_name [OF t False] by blast
  obtain r e l n b u where u: "load_image ?n t = Some ((r, e, l, n, b), u)" "?A u"
    using load_image_returns [OF t cs False] by (auto simp: leads_def)
  have su: "?A (say (lit ''ELF test: LOAD '') u)" using u(2) by (simp add: alive_out)
  obtain ds where ds: "str_at (mmem (say (lit ''ELF test: LOAD '') u)) ?n ds" using alive_name [OF su False] by blast
  have "leads (do { s \<leftarrow> print_ptr ?n (say (lit ''ELF test: LOAD '') u); s \<leftarrow> report_load cfg call ?n e l n b s; Some (Inl s) }) (case_sum ?A ?A)"
    by (rule leads_bind [OF print_ptr_leads [OF su ds]], rule leads_bind [OF report_load_leads [OF _ cfg]], assumption)
      (simp add: leads_def)
  then show ?thesis using u False alive_index [OF t] by (simp add: try_file_def leads_def Let_def)
qed

lemma elf_test_returns:
  assumes a: "alive lay W st fs m s" and cfg: "\<not> elf_execute_on_boot cfg" "\<not> elf_vaddr_load_on_boot cfg"
  shows "leads (run_elf_smoke_test cfg call lay s) (alive lay W st fs m)"
proof (cases "initrd_is_ready st = 0 \<or> initrd_file_count st = 0")
  case True
  then show ?thesis using a alive_index [OF a] by (auto simp: run_elf_smoke_test_def Let_def leads_def alive_out)
next
  case False
  let ?A = "alive lay W st fs m"
  have init: "str_at (mmem s) (init_lit lay) (lit ''init'')" "init_lit lay \<noteq> 0"
    using alive_literal [OF a, of "init_lit lay" "lit ''init''"] by (simp_all add: boot_lits_def)
  obtain r e l n b u where u: "load_image (init_lit lay) s = Some ((r, e, l, n, b), u)" "?A u"
    using load_image_returns [OF a init] by (auto simp: leads_def)
  obtain res where res: "loop_u32 0 (initrd_file_count st) (try_file cfg call) u = Some res" "case res of Inl v \<Rightarrow> ?A v | Inr v \<Rightarrow> ?A v"
    using loop_u32_invariant [of "\<lambda>_. ?A" 0 u "initrd_file_count st" "try_file cfg call" ?A] u(2)
      try_file_returns [OF _ cfg, of lay W st fs m _ call] unfolding leads_def by auto
  have "leads (report_load cfg call (init_lit lay) e l n b (say (lit ''ELF test: LOAD init'') u)) ?A"
    by (rule report_load_leads [OF _ cfg]) (simp add: alive_out u(2))
  then show ?thesis using False u res alive_index [OF a]
    by (cases res) (auto simp: run_elf_smoke_test_def Let_def leads_def alive_out)
qed

end
