(* ===== verification/Boot_Props.thy ===== *)
theory Boot_Props
  imports Boot_Elf
begin

text \<open>The properties of the boot sequence as a whole, from the boot record to the running shell.\<close>

section \<open>Where the linker puts things\<close>

text \<open>
  The kernel image holds the stack and the literals; the buffers are not null, the three of the shell are
  disjoint where they must be, and no buffer overlaps a literal.
\<close>

definition kernel_image :: "layout \<Rightarrow> u32 set" where
  "kernel_image lay = span (kernel_start_at lay) (unat (kernel_end_at lay) - unat (kernel_start_at lay))"

definition linked :: "layout \<Rightarrow> mem \<Rightarrow> bool" where
  "linked lay m \<longleftrightarrow> stack lay \<subseteq> kernel_image lay
     \<and> 0 < unat (line_at lay) \<and> unat (line_at lay) + 128 < 4294967296
     \<and> 0 \<notin> {name_at lay, buf_at lay, preview_at lay, buffer_a_at lay, buffer_b_at lay, name_buf_at lay,
            pref_buf_at lay, demo_name_at lay, first_any_at lay}
     \<and> span (name_at lay) 96 \<inter> span (line_at lay) 128 = {} \<and> span (buf_at lay) 64 \<inter> span (line_at lay) 128 = {}
     \<and> (\<forall>(p, cs) \<in> set (shell_lits lay @ boot_lits lay). p \<noteq> 0 \<and> str_at m p cs
          \<and> span p (length cs + 1) \<subseteq> kernel_image lay - stack lay)"

text \<open>The archive: apart from the stack, small enough for its index, and every file fit for the loader test.\<close>

definition bootable :: "layout \<Rightarrow> u32 \<Rightarrow> u32 \<Rightarrow> member list \<Rightarrow> mem \<Rightarrow> bool" where
  "bootable lay base sz ts m \<longleftrightarrow> span base (unat sz) \<inter> stack lay = {} \<and> length (filter regular ts) \<le> 37
     \<and> (\<forall>t \<in> set (tar_files sz ts). loader_safe m (base + of_nat (toff t)) (of_nat (tsize t)))"

lemma image_offsets:
  "tar_image m base sz off ts \<Longrightarrow> t \<in> set ts \<Longrightarrow> 512 \<le> toff t"
  by (induction ts arbitrary: off) auto

lemma file_in_archive:
  assumes b: "boot_ready mbi es base sz ts s" and t: "t \<in> set (tar_files sz ts)"
  shows "base + of_nat (toff t) \<noteq> 0" and "span (base + of_nat (toff t)) (unat (of_nat (tsize t) :: u32)) \<subseteq> span base (unat sz)"
proof -
  have t': "t \<in> set ts" "toff t + tsize t \<le> unat sz" using t by (auto simp: tar_files_def)
  have img: "tar_image (mmem s) base sz 0 ts" and e: "unat base + unat sz = unat (mod_end (mmem s) (mbi_mods_addr (mmem s) mbi) 0)"
    using b unfolding boot_ready_def by blast+
  have sz: "unat (of_nat (tsize t) :: u32) = tsize t" and off: "unat (of_nat (toff t) :: u32) = toff t"
    using t'(2) unat_less_2p32 [of sz] by (simp_all add: unat_of_nat)
  have "unat (base + of_nat (toff t)) = unat base + toff t"
    using e t'(2) off unat_less_2p32 [of "mod_end (mmem s) (mbi_mods_addr (mmem s) mbi) 0"] by (simp add: unat_add_nowrap)
  then show "base + of_nat (toff t) \<noteq> 0" using image_offsets [OF img t'(1)] by (auto simp flip: unat_eq_zero)
  show "span (base + of_nat (toff t)) (unat (of_nat (tsize t) :: u32)) \<subseteq> span base (unat sz)"
    using span_piece [OF t'(2) unat_less_2p32] sz by simp
qed

lemma site_at_boot:
  assumes b: "boot_ready mbi es base sz ts s" and l: "linked lay (mmem s)" and f: "bootable lay base sz ts (mmem s)"
  shows "site lay {x. frame_of x \<in> usable (mmem s) mbi es lay} base (tar_files sz ts) (mmem s)"
proof -
  let ?W = "{x. frame_of x \<in> usable (mmem s) mbi es lay}"
  have K: "kernel_image lay \<inter> ?W = {}" using usable_apart(4) [OF b] by (auto simp: kernel_image_def)
  have A: "span base (unat sz) \<inter> (stack lay \<union> ?W) = {}" using usable_apart(3) [OF b] f by (auto simp: bootable_def)
  have "stack lay \<inter> ?W = {}" using K l by (auto simp: linked_def)
  moreover have "\<forall>(p, cs) \<in> set (shell_lits lay @ boot_lits lay). p \<noteq> 0 \<and> str_at (mmem s) p cs \<and> span p (length cs + 1) \<inter> (stack lay \<union> ?W) = {}"
    using l K unfolding linked_def by blast
  moreover have "\<forall>t \<in> set (tar_files sz ts). base + of_nat (toff t) \<noteq> 0
      \<and> span (base + of_nat (toff t)) (unat (of_nat (tsize t) :: u32)) \<inter> (stack lay \<union> ?W) = {}
      \<and> loader_safe (mmem s) (base + of_nat (toff t)) (of_nat (tsize t))"
    using file_in_archive [OF b] A f unfolding bootable_def by blast
  ultimately show ?thesis using l unfolding linked_def site_def by blast
qed

text \<open>The invariant of the boot gives what the shell needs.\<close>

lemma alive_shell_env:
  assumes a: "alive lay W st fs m s"
  shows "shell_env lay fs s"
proof -
  have si: "site lay W (initrd_base st) fs m" and st: "kinitrd (mk s) = st" and ix: "indexed (mmem s) st fs"
    and mem: "\<And>x. x \<notin> W \<union> stack lay \<Longrightarrow> mmem s x = m x" using a by (simp_all add: alive_def)
  have own: "own lay \<subseteq> stack lay" by (auto simp: stack_def)
  have "span (file_entry (initrd_files st) (of_nat i)) 108 \<inter> own lay = {}" if "i < length fs" for i
    using alive_index_within [OF a that] own si by (auto simp: site_def)
  moreover have "p \<noteq> 0 \<and> str_at (mmem s) p cs \<and> span p (length cs + 1) \<inter> own lay = {}" if p: "(p, cs) \<in> set (shell_lits lay)" for p cs
  proof -
    have l: "p \<noteq> 0" "str_at m p cs" "span p (length cs + 1) \<inter> (stack lay \<union> W) = {}"
      using site_literal [OF si, of p cs] p by auto
    then show ?thesis using str_at_cong [of m p cs "mmem s"] mem own by blast
  qed
  moreover have "\<forall>t \<in> set fs. initrd_base st + of_nat (toff t) \<noteq> 0 \<and> span (initrd_base st + of_nat (toff t)) (unat (of_nat (tsize t) :: u32)) \<inter> own lay = {}"
    using si own unfolding site_def by blast
  moreover have "0 < unat (line_at lay) \<and> unat (line_at lay) + 128 < 4294967296 \<and> name_at lay \<noteq> 0 \<and> buf_at lay \<noteq> 0
      \<and> span (name_at lay) 96 \<inter> span (line_at lay) 128 = {} \<and> span (buf_at lay) 64 \<inter> span (line_at lay) 128 = {}"
    using si by (simp add: site_def)
  moreover have "fds_ok (mk s) \<and> kbd_wf (kkbd (mk s)) \<and> 65 \<le> unat (current_drive s) \<and> unat (current_drive s) \<le> 90"
    using a by (simp add: alive_def)
  ultimately show ?thesis using ix unfolding shell_env_def st by blast
qed

section \<open>From the boot record to the shell\<close>

lemma booted_alive:
  assumes b: "boot_ready mbi es base sz ts s" and l: "linked lay (mmem s)" and f: "bootable lay base sz ts (mmem s)"
    and two: "2 \<le> card (usable (mmem s) mbi es lay)"
    and st: "fds_ok (mk s)" "kbd_wf (kkbd (mk s))" "65 \<le> unat (current_drive s)" "unat (current_drive s) \<le> 90"
    and d: "disk_booted mbi es base sz ts lay s bs t"
  shows "alive lay {x. frame_of x \<in> usable (mmem s) mbi es lay} (kinitrd (mk t)) (tar_files sz ts) (mmem s) t"
proof -
  have "length (filter regular ts) \<le> 37" using f by (simp add: bootable_def)
  then show ?thesis using d site_at_boot [OF b l f] two st fds_ok_cong [of "mk t" "mk s"]
    by (auto simp: alive_def disk_booted_def)
qed

lemma kernel_main_alive:
  assumes b: "boot_ready mbi es base sz ts s" and l: "linked lay (mmem s)" and f: "bootable lay base sz ts (mmem s)"
    and two: "2 \<le> card (usable (mmem s) mbi es lay)"
    and st: "fds_ok (mk s)" "kbd_wf (kkbd (mk s))" "65 \<le> unat (current_drive s)" "unat (current_drive s) \<le> 90"
    and cfg: "\<not> elf_execute_on_boot cfg" "\<not> elf_vaddr_load_on_boot cfg"
  shows "leads (kernel_main cfg call dev lay magic mbi s) (\<lambda>r. \<exists>st t. r = shell_start t
    \<and> alive lay {x. frame_of x \<in> usable (mmem s) mbi es lay} st (tar_files sz ts) (mmem s) t)"
proof -
  let ?A = "\<lambda>st. alive lay {x. frame_of x \<in> usable (mmem s) mbi es lay} st (tar_files sz ts) (mmem s)"
  have start: "leads (boot_files cfg lay mbi s) (\<lambda>t. \<exists>st. ?A st t)"
    by (rule leads_mono [OF boot_files_returns [OF b]]) (use booted_alive [OF b l f two st] in blast)
  have en: "?A st (enable_interrupts t) \<longleftrightarrow> ?A st t" for st t
    by (simp add: enable_interrupts_def alive_def mmem_def)
  show ?thesis unfolding kernel_main_def
  proof (rule leads_bind [OF start], elim exE)
    fix t st
    assume t: "?A st t"
    show "leads (do { s \<leftarrow> run_vfs_smoke_test lay t; s \<leftarrow> run_elf_smoke_test cfg call lay s; let s = say (lit ''KBD: '') s;
        let s = sayln (lit ''OK'') (on_io (keyboard_init dev) s); let s = say (lit ''IRQ: '') s;
        let s = sayln (lit ''OK'') (enable_interrupts s); s \<leftarrow> run_syscall_smoke_test lay s; s \<leftarrow> run_fs_listing_demo lay s;
        Some (shell_start (sayln (lit ''Ready! Type something:'') s)) }) (\<lambda>r. \<exists>st t. r = shell_start t \<and> ?A st t)"
      apply (rule leads_bind [OF vfs_test_returns [OF t]])
      apply (rule leads_bind [OF elf_test_returns [OF _ cfg]], assumption)
      apply (rule leads_let [where R = "?A st"], simp add: alive_out en)+
      apply (rule leads_bind [OF syscall_test_returns], assumption)
      apply (rule leads_bind [OF listing_demo_returns], assumption)
      by (rule leads_Some, rule exI [of _ st]) (use alive_io [of lay _ st] in \<open>auto simp: sayln_def\<close>)
  qed
qed

text \<open>
  C2. Assume statics as the image has them, a boot record with a finite memory map that leaves
  two frames, a kernel linked without overlaps, and as first module an archive of at most 37 files, each of
  which the loader rejects or can load without one of its two wrap-arounds (a file range, or a segment of more
  than \<open>2^32 - 8\<close> bytes). Then \<open>kernel_main\<close>, built with its default flags (no program is run, none is placed at its own
  addresses, paging stays off), always reaches the shell, through the set-up of frames, heap and
  page tables and every diagnostic. From then on, whatever is typed and whichever interrupts arrive between
  passes, the next pass of the shell returns, the index is that of the files of the archive, and no byte
  has changed since the boot loader but those of usable frames and of the stack buffers: the archive, the
  boot record and the kernel's literals in particular.
\<close>

theorem kernel_boots_to_shell:
  assumes "boot_ready mbi es base sz ts s" and "linked lay (mmem s)" and "bootable lay base sz ts (mmem s)"
    and "2 \<le> card (usable (mmem s) mbi es lay)"
    and "fds_ok (mk s)" "kbd_wf (kkbd (mk s))" "65 \<le> unat (current_drive s)" "unat (current_drive s) \<le> 90"
    and "\<not> elf_execute_on_boot cfg" "\<not> elf_vaddr_load_on_boot cfg" "\<not> paging_enable_on_boot cfg"
  shows "\<exists>r. kernel_main cfg call dev lay magic mbi s = Some r
    \<and> (\<forall>n t. shell_run dev lay r (n, t) \<longrightarrow>
        (\<exists>n' t'. shell_iteration lay n t = Some (n', t')) \<and> indexed (mmem t) (kinitrd (mk t)) (tar_files sz ts)
        \<and> (\<forall>x. frame_of x \<notin> usable (mmem s) mbi es lay \<longrightarrow> x \<notin> stack lay \<longrightarrow> mmem t x = mmem s x))"
proof -
  obtain st u where u: "kernel_main cfg call dev lay magic mbi s = Some (shell_start u)"
    and a: "alive lay {x. frame_of x \<in> usable (mmem s) mbi es lay} st (tar_files sz ts) (mmem s) u"
    using kernel_main_alive [OF assms(1-10), of call dev magic] unfolding leads_def by blast
  note env = alive_shell_env [OF a]
  have "(\<exists>n' t'. shell_iteration lay n t = Some (n', t')) \<and> indexed (mmem t) (kinitrd (mk t)) (tar_files sz ts)
      \<and> (\<forall>x. frame_of x \<notin> usable (mmem s) mbi es lay \<longrightarrow> x \<notin> stack lay \<longrightarrow> mmem t x = mmem s x)"
    if run: "shell_run dev lay (shell_start u) (n, t)" for n t
  proof -
    obtain ln where h: "line_holds lay n t ln" "shell_keeps lay u t" using shell_run_invariant [OF run env] by auto
    have env': "shell_env lay (tar_files sz ts) t" using shell_env_keeps [OF env h(2)] .
    have "mmem t x = mmem u x" if "x \<notin> stack lay" for x using h(2) that by (auto simp: shell_keeps_def stack_def)
    then show ?thesis using shell_iteration_returns [OF env' h(1)] env' a by (auto simp: alive_def shell_env_def)
  qed
  then show ?thesis using u by blast
qed

section \<open>A sample boot\<close>

text \<open>
  The sample archive with a memory map of one region from \<open>0x100000\<close>, a kernel at \<open>0x100000\<close> with its buffers at
  \<open>0x101000\<close> and its literals at \<open>0x102000\<close>, and statics as the image has them.
\<close>

definition boot_mem :: mem where
  "boot_mem = tar_mem(0x9000 := 0x48, 0x902C := 24, 0x9031 := 0x92, 0x9200 := 20, 0x9206 := 0x10, 0x920F := 1, 0x9214 := 1,
     0x102000 := 0x68, 0x102001 := 0x65, 0x102002 := 0x6C, 0x102003 := 0x70,
     0x102010 := 0x63, 0x102011 := 0x6C, 0x102012 := 0x65, 0x102013 := 0x61, 0x102014 := 0x72,
     0x102020 := 0x6C, 0x102021 := 0x73, 0x102028 := 0x63, 0x102029 := 0x61, 0x10202A := 0x74, 0x102030 := 0x63, 0x102031 := 0x64,
     0x102040 := 0x62, 0x102041 := 0x69, 0x102042 := 0x6E, 0x102043 := 0x2F,
     0x102050 := 0x65, 0x102051 := 0x74, 0x102052 := 0x63, 0x102053 := 0x2F,
     0x102060 := 0x69, 0x102061 := 0x6E, 0x102062 := 0x69, 0x102063 := 0x74)"

definition boot_lay :: layout where
  "boot_lay = \<lparr>line_at = 0x101000, name_at = 0x101100, buf_at = 0x101200, help_lit = 0x102000, clear_lit = 0x102010,
     ls_lit = 0x102020, cat_lit = 0x102028, cd_lit = 0x102030, preview_at = 0x101300, msg_lit = 0x102070,
     buffer_a_at = 0x101400, buffer_b_at = 0x101500, name_buf_at = 0x101600, pref_buf_at = 0x101700,
     demo_name_at = 0x101800, first_any_at = 0x101900, prefix_all_lit = 0x102038, prefix_bin_lit = 0x102040,
     prefix_etc_lit = 0x102050, init_lit = 0x102060, kernel_start_at = 0x100000, kernel_end_at = 0x110000,
     gdt_at = 0x103000, idt_at = 0x104000, page_directory_at = 0x105000, page_tables_at = 0x106000,
     isr_at = (\<lambda>_. 0x100100), irq_at = (\<lambda>_. 0x100200)\<rparr>"

definition boot_machine :: machine where
  "boot_machine = shell_machine\<lparr>interrupts_enabled := False, mk := shell_kernel
     \<lparr>kheap := \<lparr>hmem = boot_mem, hpmm = pmm_boot, heap_head = 0\<rparr>,
      kinitrd := initrd_boot\<rparr>\<rparr>"

lemma boot_machine_parts:
  "mmem boot_machine = boot_mem" "hpmm (kheap (mk boot_machine)) = pmm_boot" "heap_head (kheap (mk boot_machine)) = 0"
  "kkbd (mk boot_machine) = kbd_boot" "fd_table (mk boot_machine) = fd_boot" "current_drive boot_machine = 65"
  by (simp_all add: boot_machine_def shell_machine_def shell_kernel_def mmem_def kmem_def)

lemma boot_mem_record:
  "mbi_flags boot_mem 0x9000 = 0x48" "mbi_mods_count boot_mem 0x9000 = 1" "mbi_mods_addr boot_mem 0x9000 = 0x9100"
  "mod_start boot_mem 0x9100 0 = 0x300000" "mod_end boot_mem 0x9100 0 = 0x300400"
  "mbi_mmap_addr boot_mem 0x9000 = 0x9200" "mbi_mmap_length boot_mem 0x9000 = 24"
  by (simp_all add: mbi_flags_def mbi_mods_count_def mbi_mods_addr_def mod_start_def mod_end_def mbi_mmap_addr_def
      mbi_mmap_length_def sizeof_multiboot_module_def read_u32_def boot_mem_def tar_mem_def push_bit_eq_mult)

lemma boot_mem_map:
  "mmap_size boot_mem 0x9200 = 20" "mmap_base boot_mem 0x9200 = 0x100000" "mmap_len boot_mem 0x9200 = 0x1000000"
  "mmap_type boot_mem 0x9200 = 1"
  by (simp_all add: mmap_size_def mmap_base_def mmap_len_def mmap_type_def read_u32_def read_u64_def
      boot_mem_def tar_mem_def push_bit_eq_mult)

lemma boot_sample_ready: "boot_ready 0x9000 [0x9200] 0x300000 0x400 [member_sample] boot_machine"
proof -
  have "tar_image boot_mem 0x300000 0x400 0 [member_sample]"
  proof (rule tar_image_cong [OF tar_image_sample])
    fix x :: u32
    assume "x \<in> span 0x300000 (unat (0x400 :: u32))"
    then have "0x300000 \<le> unat x" using span_nowrap [of "0x300000" "unat (0x400 :: u32)" x] by simp
    then show "boot_mem x = tar_mem x" by (auto simp: boot_mem_def)
  qed
  moreover have "mmap_entries boot_mem 0x9000 [0x9200]"
    by (simp add: mmap_entries_def bit_flags boot_mem_record boot_mem_map)
  ultimately show ?thesis
    by (simp add: boot_ready_def boot_machine_parts boot_mem_record bit_flags pmm_boot_def)
qed

lemma boot_sample_usable: "2 \<le> card (usable boot_mem 0x9000 [0x9200] boot_lay)"
proof -
  have "f \<in> usable boot_mem 0x9000 [0x9200] boot_lay" if "f = 0x200 \<or> f = 0x201" for f
    using that by (auto simp: usable_def PMM_MAX_FRAMES_def entry_frees_def region_covers_def boot_mem_map reserved_def
        region_touches_def boot_mem_record boot_lay_def word_less_nat_alt unat_eq_zero)
  then have "{0x200, 0x201} \<subseteq> usable boot_mem 0x9000 [0x9200] boot_lay" by blast
  then have "card {0x200, 0x201 :: u32} \<le> card (usable boot_mem 0x9000 [0x9200] boot_lay)" by (intro card_mono) simp_all
  then show ?thesis by simp
qed

lemma boot_sample_stack: "stack boot_lay \<subseteq> span 0x101000 0x1000"
proof -
  have "span p n \<subseteq> span 0x101000 0x1000" if "0x101000 \<le> unat p" "unat p + n \<le> 0x102000" for p n
    using that span_nowrap [of p n] span_nowrap [of "0x101000" "0x1000"] by auto
  then show ?thesis by (simp add: stack_def own_def boot_lay_def)
qed

lemma boot_sample_linked: "linked boot_lay boot_mem"
proof -
  let ?K = "kernel_image boot_lay"
  have K: "?K = span 0x100000 0x10000" by (simp add: kernel_image_def boot_lay_def)
  have st: "stack boot_lay \<subseteq> ?K"
    using boot_sample_stack span_nowrap [of "0x101000" "0x1000"] span_nowrap [of "0x100000" "0x10000"] unfolding K by auto
  have lit: "span p n \<subseteq> ?K - stack boot_lay" if "0x102000 \<le> unat p" "unat p + n \<le> 0x103000" for p n
    using that boot_sample_stack span_nowrap [of p n] span_nowrap [of "0x101000" "0x1000"] span_nowrap [of "0x100000" "0x10000"]
    unfolding K by fastforce
  have "\<forall>(p, cs) \<in> set (shell_lits boot_lay @ boot_lits boot_lay). p \<noteq> 0 \<and> str_at boot_mem p cs
      \<and> 0x102000 \<le> unat p \<and> unat p + (length cs + 1) \<le> 0x103000"
    by (simp add: shell_lits_def boot_lits_def boot_lay_def lit_def) (simp add: boot_mem_def tar_mem_def)
  then have lits: "\<forall>(p, cs) \<in> set (shell_lits boot_lay @ boot_lits boot_lay). p \<noteq> 0 \<and> str_at boot_mem p cs
      \<and> span p (length cs + 1) \<subseteq> ?K - stack boot_lay" using lit by blast
  have "span 0x101100 96 \<inter> span 0x101000 128 = {}" "span 0x101200 64 \<inter> span 0x101000 128 = {}"
    using span_apart [of "0x101000" 128 "0x101100" 96] span_apart [of "0x101000" 128 "0x101200" 64] by auto
  then show ?thesis using st lits unfolding linked_def by (simp add: boot_lay_def)
qed

lemma boot_sample_bootable: "bootable boot_lay 0x300000 0x400 [member_sample] boot_mem"
proof -
  have "elf_validate_buffer m d 1 = 0" for m d
    by (simp add: elf_validate_buffer_def elf_header_basic_valid_def sizeof_ehdr_def)
  moreover have "span 0x300000 (unat (0x400 :: u32)) \<inter> stack boot_lay = {}"
    using span_apart [of "0x101000" "0x1000" "0x300000" "unat (0x400 :: u32)"] boot_sample_stack by auto
  ultimately show ?thesis unfolding bootable_def tar_files_sample by (simp add: loader_safe_def member_sample_def)
qed

theorem kernel_boots_to_shell_witness:
  "boot_ready 0x9000 [0x9200] 0x300000 0x400 [member_sample] boot_machine \<and> linked boot_lay (mmem boot_machine)
   \<and> (\<exists>n t. kernel_main \<lparr>elf_execute_on_boot = False, paging_enable_on_boot = False, elf_vaddr_load_on_boot = False\<rparr>
        (\<lambda>_ _. None) (\<lambda>_ _. 0) boot_lay 0x2BADB002 0x9000 boot_machine = Some (n, t)
      \<and> (\<exists>n' t'. shell_iteration boot_lay n t = Some (n', t')) \<and> indexed (mmem t) (kinitrd (mk t)) [member_sample])"
proof -
  have fds: "fds_ok (mk boot_machine)"
    using kernel_sample_fds(1) fds_ok_cong [of "mk boot_machine" kernel_sample] by (simp add: boot_machine_parts kernel_sample_def)
  have kbd: "kbd_wf (kkbd (mk boot_machine))" by (simp add: boot_machine_parts kbd_wf_def kbd_boot_def)
  have drive: "65 \<le> unat (current_drive boot_machine)" "unat (current_drive boot_machine) \<le> 90" by (simp_all add: boot_machine_parts)
  let ?cfg = "\<lparr>elf_execute_on_boot = False, paging_enable_on_boot = False, elf_vaddr_load_on_boot = False\<rparr>"
  have cfg: "\<not> elf_execute_on_boot ?cfg" "\<not> elf_vaddr_load_on_boot ?cfg" "\<not> paging_enable_on_boot ?cfg" by simp_all
  note sample = boot_sample_linked [folded boot_machine_parts(1)] boot_sample_bootable [folded boot_machine_parts(1)]
    boot_sample_usable [folded boot_machine_parts(1)]
  obtain r where r: "kernel_main ?cfg (\<lambda>_ _. None) (\<lambda>_ _. 0) boot_lay 0x2BADB002 0x9000 boot_machine = Some r"
    "\<forall>n t. shell_run (\<lambda>_ _. 0) boot_lay r (n, t) \<longrightarrow> (\<exists>n' t'. shell_iteration boot_lay n t = Some (n', t'))
       \<and> indexed (mmem t) (kinitrd (mk t)) (tar_files 0x400 [member_sample])
       \<and> (\<forall>x. frame_of x \<notin> usable (mmem boot_machine) 0x9000 [0x9200] boot_lay \<longrightarrow> x \<notin> stack boot_lay \<longrightarrow> mmem t x = mmem boot_machine x)"
    using kernel_boots_to_shell [OF boot_sample_ready sample fds kbd drive cfg] by blast
  obtain n t where nt: "r = (n, t)" by fastforce
  have "shell_run (\<lambda>_ _. 0) boot_lay r (n, t)" unfolding nt by (rule shell_run.Start)
  then show ?thesis using r nt boot_sample_ready sample(1) by (simp add: tar_files_sample)
qed

end
