(* ===== verification/Spec2Isabelle.thy ===== *)
theory Spec2Isabelle
  imports Kheap_Props Paging Console Arch Keyboard Syscall_Props Elf_Load Interrupts Shell_Props Boot_Props
begin

text \<open>
  A model of Arctic, a 32-bit x86 kernel in C, and the theorems that make its parts correct. Paths are
  below \<open>src/src/\<close>.

  \<^bold>\<open>The program.\<close> The boot loader starts \<open>kernel_main\<close> with the address of its boot record. The kernel
  programs the processor tables and controllers, takes the free memory from the map in the boot record
  (\<open>memory/pmm.c\<close>), builds its heap out of frames (\<open>memory/heap.c\<close>), prepares identity page tables
  (\<open>memory/paging.c\<close>), indexes the TAR archive the loader left in memory (\<open>fs/initrd.c\<close>) in a heap block,
  and reads files through handles (\<open>fs/vfs.c\<close>) and descriptors (\<open>proc/syscall.c\<close>). The keyboard interrupt
  fills a ring buffer (\<open>drivers/keyboard.c\<close>), which the shell of \<open>kernel/kmain.c\<close> empties; its commands are
  clients of the system calls through \<open>int 0x80\<close> (\<open>arch/interrupt_handlers.c\<close>). Programs in the archive
  are placed by \<open>proc/elf.c\<close> into heap blocks or at the addresses they ask for.

  \<^bold>\<open>State.\<close> Memory is one map from 32-bit addresses to bytes (\<open>mem\<close>), read and written at the addresses
  the code computes, so that the heap's headers, the archive, the index, string arguments and user buffers
  alias as they do in the program. The statics of each file are a record: \<open>pmm\<close>, \<open>heap\<close> (which holds the
  memory and the frame manager), \<open>paging\<close>, \<open>io\<close> (video memory, cursors, the trace of port accesses),
  \<open>kbd\<close>, \<open>initrd\<close>; \<open>kernel\<close> gathers what a system call can reach and \<open>machine\<close> adds registers, tables and
  the statics of \<open>kmain.c\<close>. Integers have their C width and wrap, but for the console's signed coordinates,
  which are kept as integers; \<open>char\<close> is signed where it is compared.

  \<^bold>\<open>Loops.\<close> Counting loops are the terminating combinators \<open>for_u32\<close>, \<open>search_u32\<close>, \<open>loop_u32\<close> of the prelude;
  loops that follow pointers or headers in memory and may not end are \<open>partial_function (option)\<close>, with
  \<open>None\<close> for a run that never returns. No fuel is used. Every theorem that describes what such a
  function returns also states that it does return.

  \<^bold>\<open>Theories, in the order of the code.\<close>

  \<^item> \<open>Arctic_Base\<close> is the prelude: types, memory, packed fields, loops, ranges of addresses. \<open>Cstring\<close>: the
    loops over NUL-terminated strings. \<open>Interfaces\<close>: the contracts between components as locales, a source
    of frames, an allocator of bytes, a bounded queue, a stream of bytes, with what clients derive from them.
  \<^item> \<open>Pmm\<close>: \<open>memory/pmm.c\<close>. Which frames are free after \<open>pmm_init\<close>, in terms of the memory map; lowest-first
    allocation; when the scan of the map ends. Interprets \<open>frame_source\<close>.
  \<^item> \<open>Kheap\<close>: \<open>memory/heap.c\<close>. \<open>Kheap_Inv\<close>: the invariant, an abstract list of disjoint blocks that the
    headers in memory describe. \<open>Kheap_Alloc\<close>, \<open>Kheap_Ops\<close>: each operation against it; interprets
    \<open>byte_allocator\<close>. \<open>Kheap_Props\<close>: fresh storage, isolation of clients, contents across
    \<open>krealloc\<close>, the requests the heap cannot serve.
  \<^item> \<open>Paging\<close>: \<open>memory/paging.c\<close>; the two-level translation of the processor is the specification.
  \<^item> \<open>Console\<close>: \<open>io/print.c\<close> refines a terminal of 25 rows of text. The cursor position goes to ports \<open>0xD4\<close> and
    \<open>0xD5\<close>, the low bytes of the intended ports, since the code uses the immediate form of \<open>out\<close>.
  \<^item> \<open>Arch\<close>: \<open>arch/gdt.c\<close>, \<open>idt.c\<close>, \<open>pic.c\<close>, \<open>pit.c\<close>; descriptors decode to what they were built from, and the
    port sequences are read by the documented state machines of the controllers: the four initialisation words of
    the 8259A pair with their cascade, and channel, access mode and count of the 8254.
  \<^item> \<open>Keyboard\<close>: \<open>drivers/keyboard.c\<close>; the ring buffer interprets \<open>bounded_fifo\<close>, and each interrupt appends
    the decoded key.
  \<^item> \<open>Initrd\<close>: \<open>fs/initrd.c\<close>. \<open>Initrd_Index\<close>: an archive as a list of members, and the index as the list
    it holds. \<open>Initrd_Props\<close>: \<open>initrd_init\<close> builds that index; lookups and listings are list functions of it.
  \<^item> \<open>Vfs\<close>: \<open>fs/vfs.c\<close>; a handle is a cursor over the bytes of its file (\<open>byte_stream\<close>).
  \<^item> \<open>Syscall\<close>, \<open>Syscall_Props\<close>: \<open>proc/syscall.c\<close>; descriptor table, each call on all its branches, and a
    descriptor as a \<open>byte_stream\<close> again.
  \<^item> \<open>Elf\<close>: \<open>proc/elf.c\<close>. \<open>Elf_Props\<close>, \<open>Elf_Load\<close>: validation is exact; a heap loader fills one fresh block
    per segment; the two heap loaders are equivalent; the identity loader writes exactly the image.
  \<^item> \<open>Interrupts\<close>: \<open>arch/interrupt_handlers.c\<close>; decimal output, exceptions, acknowledgement.
  \<^item> \<open>Machine\<close>, \<open>Shell\<close>: the system call wrappers and the shell of \<open>kernel/kmain.c\<close>, the loop as the step
    relation \<open>shell_run\<close> with interrupts between its passes. \<open>Shell_Line\<close>, \<open>Shell_Parse\<close>: the line buffer
    refines an editor of strings, Enter runs what the line parses to. \<open>Shell_Cmds\<close>, \<open>Shell_Ls\<close>:
    output of the commands. \<open>Shell_Inv\<close>, \<open>Shell_Props\<close>: the invariant of every run.
  \<^item> \<open>Kmain\<close>: the diagnostics and the boot sequence of \<open>kernel/kmain.c\<close>. \<open>Outcomes\<close>: total correctness of code in
    the option monad, one rule per construct, with which the boot is proved. \<open>Boot_Memory\<close>: from the boot record
    to the index; the archive and the record survive the set-up of frames and heap and the memory tests, which
    give back what they took. \<open>Boot_Inv\<close>: the invariant of the diagnostics (heap, index, memory outside the heap
    and the local arrays) and the system calls that keep it. \<open>Boot_Diag\<close>, \<open>Boot_Elf\<close>: every diagnostic
    returns and keeps it, the trial load of each file included. \<open>Boot_Props\<close>: \<open>kernel_main\<close> reaches a shell whose
    passes always return. The assumptions are in \<open>boot_ready\<close> (record and archive), \<open>linked\<close> (addresses of the
    image) and \<open>bootable\<close> (the archive): all three boot flags off, as by default, two usable frames, an
    index of at most 37 files since the heap serves no request beyond a frame, programs without the wrap-arounds of the loader.

  \<^bold>\<open>Parameters and assumptions.\<close> Addresses the compiler and linker choose (string literals, local arrays
  passed to system calls, tables, stubs, the ends of the kernel) are fields of \<open>layout\<close>; theorems state
  which of them must be disjoint. After \<open>paging_enable\<close> memory stays flat, as the identity tables make it below
  their limit; page faults above it are not modelled, and the theorem about the boot has paging off. What the
  hardware answers to a port read is the parameter \<open>device\<close>. The
  code at the entry point of a loaded program is a parameter of \<open>elf_try_execute_loaded_entry\<close>. Statics
  live in records and not in \<open>mem\<close>, and video memory in \<open>io\<close>: a pointer from user code into them is
  outside the model. Interrupts arrive between passes of the shell's loop, not within a pass.

  \<^bold>\<open>Not modelled.\<close> The assembly of \<open>boot/boot.asm\<close> and \<open>arch/interrupt.asm\<close> (the register frame they build
  is the argument of the handlers; loading a table register is an assignment to its image), the linker
  script and the build files, and pure delays.
\<close>

end
